(* ===== verification/Prelude.thy ===== *)
theory Prelude
  imports Main "HOL-Library.Word"
begin

text \<open>
  Vocabulary shared by the components of the OpenAgentOS model.

  \<^item> C integers.  A C \<open>int\<close> is a HOL \<open>int\<close>; where an operation can leave the 32-bit range
    (a narrowing cast, the accumulation of decimal digits) the result is passed through
    \<open>wrap32\<close>, two's complement wrap-around.  \<open>uint32\<close> is the cast to \<open>unsigned int\<close>.
  \<^item> C strings.  A NUL-terminated string is the list of its characters before the NUL;
    \<open>chr_at\<close> reads one character and yields the NUL at the end.  A byte buffer is a \<open>string\<close>
    too; \<open>cstr\<close> is the C string it holds.
  \<^item> Decimal numbers.  \<open>dec_str\<close> is the digit loop that every path builder of the kernel
    repeats, \<open>parse_uint\<close> the loop of every path parser; \<open>parse_uint_dec_str\<close> is their
    round trip.  The builders keep the digits in an array of 8 entries; \<open>digits_overflow\<close> says
    that a number has more.
\<close>

named_theorems errno_simps \<open>facts on return codes\<close>
named_theorems inv_intros \<open>an operation preserves its component's invariant\<close>
named_theorems str_simps \<open>facts on C strings\<close>

type_synonym u8 = "8 word"
type_synonym u32 = "32 word"
type_synonym u64 = "64 word"

section \<open>Definitions\<close>

subsection \<open>C integers\<close>

definition wrap32 :: "int \<Rightarrow> int" where
  "wrap32 n = (n + 2147483648) mod 4294967296 - 2147483648"

definition uint32 :: "int \<Rightarrow> int" where
  "uint32 n = n mod 4294967296"

subsection \<open>C strings and buffers\<close>

abbreviation (input) NUL :: char where "NUL \<equiv> CHR 0x00"

abbreviation (input) NEWLINE :: char where "NEWLINE \<equiv> CHR 0x0A"

definition chr_at :: "string \<Rightarrow> nat \<Rightarrow> char" where
  "chr_at s i = (if i < length s then s ! i else NUL)"

fun match_at :: "string \<Rightarrow> nat \<Rightarrow> string \<Rightarrow> bool" where
  "match_at s i [] = True"
| "match_at s i (c # w) = (chr_at s i = c \<and> match_at s (Suc i) w)"

definition cstr :: "string \<Rightarrow> string" where
  "cstr buf = takeWhile (\<lambda>c. c \<noteq> NUL) buf"

definition pad_to :: "nat \<Rightarrow> string \<Rightarrow> string" where
  "pad_to n s = s @ replicate (n - length s) NUL"

definition copy_prefix :: "'a list \<Rightarrow> 'a list \<Rightarrow> 'a list" where
  "copy_prefix xs arr = xs @ drop (length xs) arr"

fun find_idx :: "('a \<Rightarrow> bool) \<Rightarrow> 'a list \<Rightarrow> nat option" where
  "find_idx P [] = None"
| "find_idx P (x # xs) = (if P x then Some 0 else map_option Suc (find_idx P xs))"

subsection \<open>Decimal digits\<close>

definition digit_char :: "int \<Rightarrow> char" where
  "digit_char d = char_of (nat (48 + d))"

definition is_digit :: "char \<Rightarrow> bool" where
  "is_digit c \<longleftrightarrow> 48 \<le> (of_char c :: nat) \<and> (of_char c :: nat) \<le> 57"

definition digit_val :: "char \<Rightarrow> int" where
  "digit_val c = int (of_char c) - 48"

function dec_loop :: "int \<Rightarrow> int list" where
  "dec_loop n = (if n > 0 then (n mod 10) # dec_loop (n div 10) else [])"
  by pat_completeness auto
termination
  by (relation "measure nat") auto

definition dec_str :: "int \<Rightarrow> string" where
  "dec_str n = (if n = 0 then ''0'' else map digit_char (rev (dec_loop n)))"

definition digits_overflow :: "int \<Rightarrow> bool" where
  "digits_overflow n \<longleftrightarrow> length (dec_loop n) > 8"

fun parse_uint :: "int \<Rightarrow> string \<Rightarrow> int \<times> string" where
  "parse_uint acc [] = (acc, [])"
| "parse_uint acc (c # cs) =
     (if is_digit c then parse_uint (wrap32 (acc * 10 + digit_val c)) cs else (acc, c # cs))"

declare dec_loop.simps [simp del]

subsection \<open>Lines\<close>

text \<open>The text of a file that consists of newline-terminated lines.\<close>

definition log_text :: "string list \<Rightarrow> string" where
  "log_text ls = concat (map (\<lambda>l. l @ [NEWLINE]) ls)"

section \<open>Lemmas\<close>

subsection \<open>C integers\<close>

lemma wrap32_id [simp]: "- 2147483648 \<le> n \<Longrightarrow> n < 2147483648 \<Longrightarrow> wrap32 n = n"
  by (simp add: wrap32_def)

lemma wrap32_range: "- 2147483648 \<le> wrap32 n \<and> wrap32 n < 2147483648"
proof -
  have "0 \<le> (n + 2147483648) mod 4294967296" "(n + 2147483648) mod 4294967296 < 4294967296"
    by simp_all
  then show ?thesis unfolding wrap32_def by linarith
qed

lemma wrap32_high: "2147483648 \<le> n \<Longrightarrow> n < 4294967296 \<Longrightarrow> wrap32 n = n - 4294967296"
proof -
  assume n: "2147483648 \<le> n" "n < 4294967296"
  have "(n + 2147483648) mod 4294967296 = (n + 2147483648 - 4294967296) mod 4294967296"
    by (rule minus_mod_self2 [symmetric])
  also have "\<dots> = n + 2147483648 - 4294967296" using n by (intro mod_pos_pos_trivial) simp_all
  finally show ?thesis by (simp add: wrap32_def)
qed

lemma wrap32_u32: "0 < wrap32 (uint (n :: u32)) \<Longrightarrow> wrap32 (uint n) = uint n"
proof -
  assume a: "0 < wrap32 (uint n)"
  have n: "0 \<le> uint n" "uint n < 4294967296" using uint_bounded [of n] by simp_all
  show ?thesis
  proof (cases "uint n < 2147483648")
    case True
    then show ?thesis using n(1) by (intro wrap32_id) linarith+
  next
    case False
    then have "wrap32 (uint n) < 0" using wrap32_high [of "uint n"] n(2) by simp
    with a show ?thesis by simp
  qed
qed

lemma wrap32_wrap32 [simp]: "wrap32 (wrap32 n) = wrap32 n"
  using wrap32_range [of n] by simp

lemma uint32_id [simp]: "0 \<le> n \<Longrightarrow> n < 4294967296 \<Longrightarrow> uint32 n = n"
  by (simp add: uint32_def)

lemma uint32_nonneg [simp]: "0 \<le> uint32 n"
  by (simp add: uint32_def)

lemma unat_of_nat64: "n < 18446744073709551616 \<Longrightarrow> unat (of_nat n :: u64) = n"
  by (simp add: unat_of_nat)

lemma uint_of_nat64: "n < 18446744073709551616 \<Longrightarrow> uint (of_nat n :: u64) = int n"
  using unat_of_nat64 [of n] by (metis of_nat_unat)

subsection \<open>C strings and buffers\<close>

lemma chr_at_Nil [simp]: "chr_at [] i = NUL"
  by (simp add: chr_at_def)

lemma chr_at_0 [simp]: "chr_at (c # s) 0 = c"
  by (simp add: chr_at_def)

lemma chr_at_Suc [simp]: "chr_at (c # s) (Suc i) = chr_at s i"
  by (simp add: chr_at_def)

lemma chr_at_numeral [simp]: "chr_at (c # s) (numeral k) = chr_at s (pred_numeral k)"
  by (simp add: numeral_eq_Suc)

lemma match_at_Suc [simp]: "match_at (c # s) (Suc i) w = match_at s i w"
  by (induction w arbitrary: i) simp_all

lemma match_at_numeral [simp]: "match_at (c # s) (numeral k) w = match_at s (pred_numeral k) w"
  by (simp add: numeral_eq_Suc)

lemma match_at_0_append [simp]: "NUL \<notin> set w \<Longrightarrow> match_at (w @ s) 0 w"
  by (induction w) simp_all

lemma match_at_0_prefix:
  "NUL \<notin> set w \<Longrightarrow> match_at s 0 w \<longleftrightarrow> (\<exists>t. s = w @ t)"
proof (induction w arbitrary: s)
  case Nil
  then show ?case by simp
next
  case (Cons c w)
  then show ?case by (cases s) auto
qed

lemma match_at_drop: "i \<le> length s \<Longrightarrow> match_at s i w = match_at (drop i s) 0 w"
proof (induction i arbitrary: s)
  case 0
  then show ?case by simp
next
  case (Suc i)
  then show ?case by (cases s) simp_all
qed

lemma match_at_beyond: "length s < i \<Longrightarrow> NUL \<notin> set w \<Longrightarrow> w \<noteq> [] \<Longrightarrow> \<not> match_at s i w"
  by (cases w) (auto simp: chr_at_def)

lemma match_at_prefix:
  assumes "NUL \<notin> set w" and "w \<noteq> []"
  shows "match_at s i w \<longleftrightarrow> (\<exists>p t. length p = i \<and> s = p @ w @ t)"
proof
  assume m: "match_at s i w"
  then have i: "i \<le> length s" using match_at_beyond [OF _ assms] by (meson not_le_imp_less)
  with m obtain t where "drop i s = w @ t"
    using match_at_0_prefix [OF assms(1)] match_at_drop by blast
  then have "s = take i s @ w @ t" by (metis append_take_drop_id)
  with i show "\<exists>p t. length p = i \<and> s = p @ w @ t"
    by (intro exI [of _ "take i s"] exI [of _ t]) simp
next
  assume "\<exists>p t. length p = i \<and> s = p @ w @ t"
  then obtain p t where "length p = i" "s = p @ w @ t" by blast
  with assms show "match_at s i w" using match_at_drop [of i s w] by simp
qed

lemma cstr_no_NUL [simp]: "NUL \<notin> set (cstr s)"
  by (auto simp: cstr_def dest: set_takeWhileD)

lemma cstr_id [simp]: "NUL \<notin> set s \<Longrightarrow> cstr s = s"
  unfolding cstr_def by (subst takeWhile_eq_all_conv) auto

lemma cstr_append_NUL [simp]: "NUL \<notin> set s \<Longrightarrow> cstr (s @ NUL # t) = s"
  unfolding cstr_def by (subst takeWhile_append2) auto

lemma length_pad_to [simp]: "length s \<le> n \<Longrightarrow> length (pad_to n s) = n"
  by (simp add: pad_to_def)

lemma cstr_pad_to [simp]: "NUL \<notin> set s \<Longrightarrow> cstr (pad_to n s) = s"
proof -
  assume s: "NUL \<notin> set s"
  show ?thesis
  proof (cases "n - length s")
    case 0
    with s show ?thesis by (simp add: pad_to_def)
  next
    case (Suc k)
    with s show ?thesis by (simp add: pad_to_def)
  qed
qed

lemma find_idx_SomeD:
  "find_idx P xs = Some i \<Longrightarrow> i < length xs \<and> P (xs ! i) \<and> (\<forall>j < i. \<not> P (xs ! j))"
proof (induction xs arbitrary: i)
  case Nil
  then show ?case by simp
next
  case (Cons x xs)
  show ?case
  proof (cases "P x")
    case True
    with Cons.prems show ?thesis by simp
  next
    case False
    with Cons.prems obtain k where k: "find_idx P xs = Some k" "i = Suc k" by auto
    have "\<not> P ((x # xs) ! j)" if "j < i" for j
      using that k Cons.IH [OF k(1)] False by (cases j) auto
    with k Cons.IH [OF k(1)] show ?thesis by simp
  qed
qed

lemma find_idx_None_iff: "find_idx P xs = None \<longleftrightarrow> (\<forall>x \<in> set xs. \<not> P x)"
  by (induction xs) auto

lemma find_idx_unique:
  assumes "i < length xs" "P (xs ! i)" "\<And>j. j < length xs \<Longrightarrow> P (xs ! j) \<Longrightarrow> j = i"
  shows "find_idx P xs = Some i"
proof (cases "find_idx P xs")
  case None
  with assms(1,2) show ?thesis by (auto simp: find_idx_None_iff)
next
  case (Some k)
  with find_idx_SomeD [OF Some] assms(3) [of k] show ?thesis by simp
qed

lemma find_idx_cong:
  "length xs = length ys \<Longrightarrow> (\<And>i. i < length xs \<Longrightarrow> P (xs ! i) = Q (ys ! i)) \<Longrightarrow>
   find_idx P xs = find_idx Q ys"
proof (induction xs ys rule: list_induct2)
  case Nil
  then show ?case by simp
next
  case (Cons x xs y ys)
  have "P x = Q y" using Cons.prems [of 0] by simp
  moreover have "find_idx P xs = find_idx Q ys"
    using Cons.prems by (intro Cons.IH) (metis Suc_less_eq length_Cons nth_Cons_Suc)
  ultimately show ?case by simp
qed

lemma length_copy_prefix [simp]: "length xs \<le> length arr \<Longrightarrow> length (copy_prefix xs arr) = length arr"
  by (simp add: copy_prefix_def)

lemma nth_copy_prefix [simp]: "i < length xs \<Longrightarrow> copy_prefix xs arr ! i = xs ! i"
  by (simp add: copy_prefix_def nth_append)

subsection \<open>Decimal digits\<close>

lemma dec_loop_pos: "n > 0 \<Longrightarrow> dec_loop n = (n mod 10) # dec_loop (n div 10)"
  by (subst dec_loop.simps) simp

lemma dec_loop_nonpos [simp]: "n \<le> 0 \<Longrightarrow> dec_loop n = []"
  by (subst dec_loop.simps) simp

lemma dec_loop_digits: "d \<in> set (dec_loop n) \<Longrightarrow> 0 \<le> d \<and> d < 10"
proof (induction n rule: dec_loop.induct)
  case (1 n)
  then show ?case by (cases "n > 0") (auto simp: dec_loop_pos)
qed

lemma digit_char_numeral [simp]:
  "digit_char 0 = CHR ''0''" "digit_char 1 = CHR ''1''" "digit_char 2 = CHR ''2''"
  "digit_char 3 = CHR ''3''" "digit_char 4 = CHR ''4''" "digit_char 5 = CHR ''5''"
  "digit_char 6 = CHR ''6''" "digit_char 7 = CHR ''7''" "digit_char 8 = CHR ''8''"
  "digit_char 9 = CHR ''9''"
  by code_simp+

lemma of_char_digit_char: "0 \<le> d \<Longrightarrow> d < 10 \<Longrightarrow> (of_char (digit_char d) :: nat) = nat (48 + d)"
proof -
  assume d: "0 \<le> d" "d < 10"
  have "(of_char (char_of (nat (48 + d)) :: char) :: nat) = nat (48 + d) mod 256"
    by (simp add: of_char_of)
  with d show ?thesis by (simp add: digit_char_def)
qed

lemma is_digit_digit_char [simp]: "0 \<le> d \<Longrightarrow> d < 10 \<Longrightarrow> is_digit (digit_char d)"
  unfolding is_digit_def by (simp add: of_char_digit_char) linarith

lemma digit_val_digit_char [simp]: "0 \<le> d \<Longrightarrow> d < 10 \<Longrightarrow> digit_val (digit_char d) = d"
  by (simp add: digit_val_def of_char_digit_char)

lemma is_digit_NUL [simp]: "\<not> is_digit NUL"
  by (simp add: is_digit_def)

lemma is_digit_zero [simp]: "is_digit CHR ''0''"
  by (simp add: is_digit_def)

lemma is_digit_slash [simp]: "\<not> is_digit CHR ''/''"
  by (simp add: is_digit_def)

lemma digit_val_zero [simp]: "digit_val CHR ''0'' = 0"
  by (simp add: digit_val_def)

lemma dec_str_digits: "c \<in> set (dec_str n) \<Longrightarrow> is_digit c"
  by (auto simp: dec_str_def split: if_splits dest: dec_loop_digits)

lemma dec_str_no_NUL [simp]: "NUL \<notin> set (dec_str n)"
  using dec_str_digits is_digit_NUL by blast

lemma dec_str_nonempty: "0 \<le> n \<Longrightarrow> dec_str n \<noteq> []"
  by (auto simp: dec_str_def dec_loop_pos)

lemma length_dec_loop: "0 \<le> n \<Longrightarrow> n < 10 ^ k \<Longrightarrow> length (dec_loop n) \<le> k"
proof (induction k arbitrary: n)
  case 0
  then show ?case by simp
next
  case (Suc k)
  show ?case
  proof (cases "n > 0")
    case True
    from Suc.prems have "n div 10 < 10 ^ k" by simp
    with Suc.IH [of "n div 10"] True show ?thesis by (simp add: dec_loop_pos)
  next
    case False
    then show ?thesis by simp
  qed
qed

lemma length_dec_loop_gt: "10 ^ k \<le> n \<Longrightarrow> k < length (dec_loop n)"
proof (induction k arbitrary: n)
  case 0
  then show ?case by (simp add: dec_loop_pos)
next
  case (Suc k)
  then have "10 ^ k \<le> n div 10" by (simp add: zdiv_mono1 [of _ n 10, simplified] div_int_pos_iff pos_imp_zdiv_nonneg_iff)
  moreover have "n > 0" using Suc.prems by (meson less_le_trans zero_less_numeral zero_less_power)
  ultimately show ?case using Suc.IH [of "n div 10"] by (simp add: dec_loop_pos)
qed

lemma digits_overflow_iff: "digits_overflow n \<longleftrightarrow> n \<ge> 100000000"
proof (cases "n \<ge> 100000000")
  case True
  then show ?thesis using length_dec_loop_gt [of 8 n] by (simp add: digits_overflow_def)
next
  case False
  then have "length (dec_loop n) \<le> 8"
    using length_dec_loop [of n 8] by (cases "0 \<le> n") simp_all
  with False show ?thesis by (simp add: digits_overflow_def)
qed

lemma length_dec_str: "0 \<le> n \<Longrightarrow> n < 10 ^ k \<Longrightarrow> 0 < k \<Longrightarrow> length (dec_str n) \<le> k"
  by (simp add: dec_str_def length_dec_loop)

lemma parse_uint_stop [simp]: "\<not> is_digit (chr_at s 0) \<Longrightarrow> parse_uint acc s = (acc, s)"
  by (cases s) simp_all

lemma parse_uint_dec_loop:
  assumes "0 \<le> n" and "n < 2147483648" and "\<not> is_digit (chr_at rest 0)"
  shows "parse_uint 0 (map digit_char (rev (dec_loop n)) @ rest) = (n, rest)"
proof -
  have "parse_uint 0 (map digit_char (rev (dec_loop n)) @ s) = parse_uint n s" for s
    using assms(1,2)
  proof (induction n arbitrary: s rule: dec_loop.induct)
    case (1 n)
    show ?case
    proof (cases "n > 0")
      case True
      from "1.IH" [OF True, of "digit_char (n mod 10) # s"] True "1.prems"
      have "parse_uint 0 (map digit_char (rev (dec_loop n)) @ s)
            = parse_uint (n div 10) (digit_char (n mod 10) # s)"
        by (simp add: dec_loop_pos)
      also have "\<dots> = parse_uint (wrap32 (n div 10 * 10 + n mod 10)) s"
        by simp
      also have "\<dots> = parse_uint n s"
        using "1.prems" by simp
      finally show ?thesis .
    next
      case False
      with "1.prems" show ?thesis by simp
    qed
  qed
  with assms(3) show ?thesis by simp
qed

lemma parse_uint_dec_str:
  assumes "0 \<le> n" and "n < 2147483648" and "\<not> is_digit (chr_at rest 0)"
  shows "parse_uint 0 (dec_str n @ rest) = (n, rest)"
proof (cases "n = 0")
  case True
  with assms show ?thesis by (simp add: dec_str_def)
next
  case False
  with parse_uint_dec_loop [OF assms] show ?thesis by (simp add: dec_str_def)
qed

lemma dec_str_inject:
  assumes "0 \<le> m" "m < 2147483648" "0 \<le> n" "n < 2147483648" "dec_str m = dec_str n"
  shows "m = n"
  using parse_uint_dec_str [of m "[]"] parse_uint_dec_str [of n "[]"] assms by simp

subsection \<open>Lines\<close>

lemma log_text_simps [simp]:
  "log_text [] = []" "log_text (l # ls) = l @ NEWLINE # log_text ls"
  "log_text (ls @ ms) = log_text ls @ log_text ms"
  by (simp_all add: log_text_def)

lemma drop_log_text: "drop (length (log_text (take i ls))) (log_text ls) = log_text (drop i ls)"
  by (metis append_eq_conv_conj append_take_drop_id log_text_simps(3))

lemma log_text_eq_Nil [simp]: "log_text ls = [] \<longleftrightarrow> ls = []"
  by (cases ls) simp_all

lemma length_log_text_drop:
  "length (log_text ls) - length (log_text (take i ls)) = length (log_text (drop i ls))"
  by (metis drop_log_text length_drop)

lemma log_text_drop_le: "length (log_text (drop i ls)) \<le> length (log_text ls)"
  by (metis append_take_drop_id le_add2 length_append log_text_simps(3))

end
