(* ===== verification/Mem.thy ===== *)
theory Mem
  imports Prelude
begin

text \<open>
  The bump allocator of \<open>kernel/mem.c\<close>.  Pointers are 64-bit words, the null pointer is 0.  The
  heap starts at the address of the platform description (\<open>platform_riscv_virt.c\<close>) and has
  2 MiB; nothing is ever freed.  The allocator's spin lock makes each allocation one atomic
  step.
\<close>

unbundle bit_operations_syntax

section \<open>Definitions\<close>

record kmem =
  heap_ptr :: u64
  heap_end :: u64

abbreviation (input) HEAP_SIZE :: u64 where "HEAP_SIZE \<equiv> 2097152"

definition platform_heap_start :: u64 where
  "platform_heap_start = 0x80600000"

definition mem_init :: kmem where
  "mem_init = \<lparr>heap_ptr = platform_heap_start, heap_end = platform_heap_start + HEAP_SIZE\<rparr>"

definition kalloc :: "kmem \<Rightarrow> u64 \<Rightarrow> kmem \<times> u64" where
  "kalloc m size0 =
     (let size1 = (size0 + 15) AND NOT 15
      in if heap_ptr m + size1 > heap_end m then (m, 0)
         else (m\<lparr>heap_ptr := heap_ptr m + size1\<rparr>, heap_ptr m))"

definition kalloc_page :: "kmem \<Rightarrow> kmem \<times> u64" where
  "kalloc_page m =
     (let p = (heap_ptr m + 4096 - 1) AND NOT (4096 - 1)
      in if p + 4096 > heap_end m then (m, 0)
         else (m\<lparr>heap_ptr := p + 4096\<rparr>, p))"

definition kfree :: "kmem \<Rightarrow> u64 \<Rightarrow> kmem" where
  "kfree m ptr = m"

section \<open>Rounding\<close>

lemma and_not_mask: "x AND NOT (mask n) = push_bit n (drop_bit n (x :: 'a::len word))"
  by (rule bit_eqI) (auto simp: bit_simps)

lemma unat_round_down:
  "unat (x AND NOT (mask n) :: 'a::len word) = unat x div 2 ^ n * 2 ^ n"
proof -
  have "unat x div 2 ^ n * 2 ^ n \<le> unat x" by (rule div_times_less_eq_dividend)
  moreover have "unat x < 2 ^ LENGTH('a)" by (rule unsigned_less)
  ultimately have "unat x div 2 ^ n * 2 ^ n < 2 ^ LENGTH('a)" by (rule order_le_less_trans)
  then show ?thesis
    unfolding and_not_mask unsigned_push_bit_eq unsigned_drop_bit_eq
    by (simp add: push_bit_eq_mult drop_bit_eq_div take_bit_nat_eq_self)
qed

lemma mask_4: "(15 :: u64) = mask 4" and mask_12: "(4095 :: u64) = mask 12"
  by (simp_all add: mask_eq_exp_minus_1)

lemma unat_round_up:
  assumes "unat (x :: u64) + 2 ^ n < 2 ^ 64"
  shows "unat ((x + mask n) AND NOT (mask n)) = (unat x + (2 ^ n - 1)) div 2 ^ n * 2 ^ n"
proof -
  have p: "(2 :: nat) ^ n < 2 ^ 64" using assms by linarith
  then have n: "n < 64" by (rule power_less_imp_less_exp [rotated]) simp
  have "(mask n :: u64) = of_nat (2 ^ n - 1)" by (simp add: mask_eq_exp_minus_1 of_nat_diff)
  then have "unat (mask n :: u64) = 2 ^ n - 1"
    using n unat_of_nat64 [of "2 ^ n - 1"] p by simp
  moreover have "unat x + (2 ^ n - 1) < 2 ^ 64" using assms by simp
  ultimately have "unat (x + mask n) = unat x + (2 ^ n - 1)"
    by (simp add: unat_word_ariths)
  then show ?thesis by (simp add: unat_round_down)
qed

section \<open>Allocation\<close>

text \<open>The part of the heap that is still free, and the shape every state of the allocator has.\<close>

definition kmem_inv :: "kmem \<Rightarrow> bool" where
  "kmem_inv m \<longleftrightarrow> 0 < unat (heap_ptr m) \<and> unat (heap_ptr m) \<le> unat (heap_end m) \<and> unat (heap_end m) < 2 ^ 62"

lemma mem_init_inv [simp]: "kmem_inv mem_init"
  by (simp add: kmem_inv_def mem_init_def platform_heap_start_def)

lemma kalloc_cases:
  assumes "kmem_inv m" "unat n < 2 ^ 62" "kalloc m n = (m', p)"
  shows "(p = 0 \<and> m' = m) \<or>
    (p = heap_ptr m \<and> unat p + unat n \<le> unat (heap_ptr m') \<and> heap_end m' = heap_end m \<and> kmem_inv m')"
proof -
  let ?s = "(n + 15) AND NOT 15 :: u64"
  have s: "unat ?s = (unat n + 15) div 16 * 16"
    using unat_round_up [of n 4] assms(2) by (simp add: mask_4)
  have ge: "unat n \<le> unat ?s" "unat ?s < 2 ^ 63" using s assms(2) by simp_all
  have a: "unat (heap_ptr m + ?s) = unat (heap_ptr m) + unat ?s"
    using assms(1) ge(2) by (simp add: kmem_inv_def unat_word_ariths)
  show ?thesis
  proof (cases "heap_ptr m + ?s > heap_end m")
    case True
    with assms(3) show ?thesis by (simp add: kalloc_def)
  next
    case False
    then have "unat (heap_ptr m) + unat ?s \<le> unat (heap_end m)"
      using a by (simp add: word_less_nat_alt)
    with False a ge assms show ?thesis by (auto simp: kalloc_def kmem_inv_def)
  qed
qed

lemma kalloc_page_cases:
  assumes "kmem_inv m" "kalloc_page m = (m', p)"
  shows "(p = 0 \<and> m' = m) \<or>
    (unat (heap_ptr m) \<le> unat p \<and> unat p + 4096 = unat (heap_ptr m') \<and> 4096 dvd unat p \<and>
     heap_end m' = heap_end m \<and> kmem_inv m')"
proof -
  let ?p = "(heap_ptr m + 4095) AND NOT 4095 :: u64"
  have p: "unat ?p = (unat (heap_ptr m) + 4095) div 4096 * 4096"
    using unat_round_up [of "heap_ptr m" 12] assms(1) by (simp add: mask_12 kmem_inv_def)
  have e: "kalloc_page m = (if ?p + 4096 > heap_end m then (m, 0) else (m\<lparr>heap_ptr := ?p + 4096\<rparr>, ?p))"
    by (simp add: kalloc_page_def Let_def add.commute)
  have "unat ?p < 2 ^ 63" "unat (heap_ptr m) \<le> unat ?p"
    using p assms(1) by (simp_all add: kmem_inv_def) linarith+
  moreover from this have a: "unat (?p + 4096) = unat ?p + 4096" by (simp add: unat_word_ariths)
  ultimately show ?thesis
  proof (cases "?p + 4096 > heap_end m")
    case True
    with assms(2) e show ?thesis by simp
  next
    case False
    then have "unat ?p + 4096 \<le> unat (heap_end m)"
      using a by (simp add: word_less_nat_alt)
    moreover have "4096 dvd unat ?p" using p by simp
    ultimately show ?thesis using False a assms \<open>unat (heap_ptr m) \<le> unat ?p\<close>
      by (auto simp: e kmem_inv_def)
  qed
qed

section \<open>Properties\<close>

text \<open>
  A sequence of allocation requests; the blocks handed out, as pairs of an address and the
  requested size, without the refused requests.
\<close>

datatype alloc_request = Page_request | Byte_request u64

fun alloc_step :: "kmem \<Rightarrow> alloc_request \<Rightarrow> kmem \<times> u64 \<times> nat" where
  "alloc_step m Page_request = (case kalloc_page m of (m', p) \<Rightarrow> (m', p, 4096))"
| "alloc_step m (Byte_request n) = (case kalloc m n of (m', p) \<Rightarrow> (m', p, unat n))"

fun run_allocs :: "kmem \<Rightarrow> alloc_request list \<Rightarrow> (nat \<times> nat) list" where
  "run_allocs m [] = []"
| "run_allocs m (r # rs) =
     (case alloc_step m r of
        (m', p, n) \<Rightarrow> (if p = 0 then [] else [(unat p, n)]) @ run_allocs m' rs)"

definition request_ok :: "alloc_request \<Rightarrow> bool" where
  "request_ok r = (case r of Page_request \<Rightarrow> True | Byte_request n \<Rightarrow> unat n < 2 ^ 62)"

lemma alloc_step_cases:
  assumes "kmem_inv m" "request_ok r" "alloc_step m r = (m', p, n)"
  shows "(p = 0 \<and> m' = m) \<or>
    (unat (heap_ptr m) \<le> unat p \<and> unat p + n \<le> unat (heap_ptr m') \<and> heap_end m' = heap_end m \<and> kmem_inv m' \<and>
     (r = Page_request \<longrightarrow> 4096 dvd unat p))"
proof (cases r)
  case Page_request
  with assms show ?thesis
    using kalloc_page_cases [OF assms(1), of m' p] by (auto split: prod.splits)
next
  case (Byte_request k)
  with assms show ?thesis
    using kalloc_cases [OF assms(1), of k m' p] by (auto simp: request_ok_def split: prod.splits)
qed

lemma run_allocs_range:
  assumes "kmem_inv m" "list_all request_ok rs" "(p, n) \<in> set (run_allocs m rs)"
  shows "unat (heap_ptr m) \<le> p \<and> p + n \<le> unat (heap_end m)"
  using assms
proof (induction rs arbitrary: m)
  case Nil
  then show ?case by simp
next
  case (Cons r rs)
  obtain m' q k where s: "alloc_step m r = (m', q, k)" by (metis prod_cases3)
  have c: "(q = 0 \<and> m' = m) \<or>
      (unat (heap_ptr m) \<le> unat q \<and> unat q + k \<le> unat (heap_ptr m') \<and> heap_end m' = heap_end m \<and> kmem_inv m')"
    using alloc_step_cases [OF Cons.prems(1) _ s] Cons.prems(2) by auto
  then have "kmem_inv m'" using Cons.prems(1) by auto
  with c s Cons.IH [of m'] Cons.prems show ?case
    by (auto simp: kmem_inv_def split: if_splits)
qed

text \<open>C11: The allocator never hands out the same memory twice.  For every sequence of page and byte
  requests (byte requests below \<open>2 ^ 62\<close>), the blocks handed out lie inside the heap and each
  begins at or after the end of every earlier one.\<close>

theorem kalloc_blocks_disjoint:
  assumes "list_all request_ok rs"
  shows "sorted_wrt (\<lambda>(p, n) (q, k). p + n \<le> q) (run_allocs mem_init rs) \<and>
    (\<forall>(p, n) \<in> set (run_allocs mem_init rs). 0x80600000 \<le> p \<and> p + n \<le> 0x80800000)"
proof -
  have "sorted_wrt (\<lambda>(p, n) (q, k). p + n \<le> q) (run_allocs m rs)" if "kmem_inv m" for m
    using that assms
  proof (induction rs arbitrary: m)
    case Nil
    then show ?case by simp
  next
    case (Cons r rs)
    obtain m' q k where s: "alloc_step m r = (m', q, k)" by (metis prod_cases3)
    have c: "(q = 0 \<and> m' = m) \<or>
        (unat (heap_ptr m) \<le> unat q \<and> unat q + k \<le> unat (heap_ptr m') \<and> heap_end m' = heap_end m \<and> kmem_inv m')"
      using alloc_step_cases [OF Cons.prems(1) _ s] Cons.prems(2) by auto
    then have i: "kmem_inv m'" using Cons.prems(1) by auto
    have "unat q + k \<le> p" if "(p, n) \<in> set (run_allocs m' rs)" "q \<noteq> 0" for p n
      using run_allocs_range [OF i _ that(1)] Cons.prems(2) c that(2) by auto
    with s Cons.IH [OF i] Cons.prems(2) show ?case by auto
  qed
  moreover have "unat (heap_ptr mem_init) = 0x80600000" "unat (heap_end mem_init) = 0x80800000"
    by (simp_all add: mem_init_def platform_heap_start_def)
  ultimately show ?thesis using run_allocs_range [OF mem_init_inv assms] by fastforce
qed

theorem kalloc_blocks_disjoint_witness:
  "sorted_wrt (\<lambda>(p, n) (q, k). p + n \<le> q) (run_allocs mem_init [Page_request, Byte_request 8192, Page_request])"
  using kalloc_blocks_disjoint [of "[Page_request, Byte_request 8192, Page_request]"]
  by (simp add: request_ok_def)

end
