(* ===== verification/Agentos.thy ===== *)
theory Agentos
  imports Prelude
begin

text \<open>
  The constants of \<open>include/agentos.h\<close> and of the component headers, and the enumerations of
  \<open>kernel/agent.h\<close>.  Numeric macros are abbreviations, so that they are their value in every
  statement.  Capabilities are 32-bit masks, error codes and message types C integers.
\<close>

section \<open>Capabilities\<close>

abbreviation (input) CAP_LOG :: u32 where "CAP_LOG \<equiv> 1"

abbreviation (input) CAP_MATH :: u32 where "CAP_MATH \<equiv> 2"

abbreviation (input) CAP_SPAWN :: u32 where "CAP_SPAWN \<equiv> 4"

abbreviation (input) CAP_SEND :: u32 where "CAP_SEND \<equiv> 8"

abbreviation (input) CAP_RECV :: u32 where "CAP_RECV \<equiv> 16"

abbreviation (input) CAP_LLM :: u32 where "CAP_LLM \<equiv> 32"

abbreviation (input) CAP_FS :: u32 where "CAP_FS \<equiv> 64"

abbreviation (input) CAP_TIME :: u32 where "CAP_TIME \<equiv> 128"

abbreviation (input) CAP_SVC_STORAGE :: u32 where "CAP_SVC_STORAGE \<equiv> 256"

abbreviation (input) CAP_NET :: u32 where "CAP_NET \<equiv> 512"

abbreviation (input) CAP_GPIO :: u32 where "CAP_GPIO \<equiv> 1024"

abbreviation (input) CAP_SVC_LLM :: u32 where "CAP_SVC_LLM \<equiv> 2048"

abbreviation (input) CAP_SVC_NET :: u32 where "CAP_SVC_NET \<equiv> 4096"

abbreviation (input) CAP_DISPLAY :: u32 where "CAP_DISPLAY \<equiv> 8192"

abbreviation (input) CAP_INPUT :: u32 where "CAP_INPUT \<equiv> 16384"

abbreviation (input) CAP_SVC_DISPLAY :: u32 where "CAP_SVC_DISPLAY \<equiv> 32768"

abbreviation (input) CAP_SVC_INPUT :: u32 where "CAP_SVC_INPUT \<equiv> 65536"

abbreviation (input) CAP_SVC_CONSOLE :: u32 where "CAP_SVC_CONSOLE \<equiv> 131072"

abbreviation (input) CAP_SVC_SHELL :: u32 where "CAP_SVC_SHELL \<equiv> 262144"

section \<open>Error codes\<close>

abbreviation (input) EPERM :: int where "EPERM \<equiv> - 1"

abbreviation (input) EINVAL :: int where "EINVAL \<equiv> - 2"

abbreviation (input) ENOENT :: int where "ENOENT \<equiv> - 3"

abbreviation (input) ENOSPC :: int where "ENOSPC \<equiv> - 4"

abbreviation (input) EAGAIN :: int where "EAGAIN \<equiv> - 5"

abbreviation (input) ENODEV :: int where "ENODEV \<equiv> - 6"

abbreviation (input) EIO :: int where "EIO \<equiv> - 7"

abbreviation (input) ETIMEDOUT :: int where "ETIMEDOUT \<equiv> - 8"

abbreviation (input) EFAULT :: int where "EFAULT \<equiv> - 9"

section \<open>Tools\<close>

abbreviation (input) TOOL_LOG :: int where "TOOL_LOG \<equiv> 0"

abbreviation (input) TOOL_ADD :: int where "TOOL_ADD \<equiv> 1"

abbreviation (input) TOOL_TIME :: int where "TOOL_TIME \<equiv> 2"

abbreviation (input) TOOL_READ :: int where "TOOL_READ \<equiv> 3"

abbreviation (input) TOOL_WRITE :: int where "TOOL_WRITE \<equiv> 4"

abbreviation (input) TOOL_LLM :: int where "TOOL_LLM \<equiv> 5"

abbreviation (input) TOOL_SESSION_APPEND :: int where "TOOL_SESSION_APPEND \<equiv> 6"

abbreviation (input) TOOL_SESSION_TAIL :: int where "TOOL_SESSION_TAIL \<equiv> 7"

abbreviation (input) TOOL_SESSION_READ :: int where "TOOL_SESSION_READ \<equiv> 8"

abbreviation (input) TOOL_SESSION_COMPACT :: int where "TOOL_SESSION_COMPACT \<equiv> 9"

abbreviation (input) TOOL_GPIO :: int where "TOOL_GPIO \<equiv> 10"

abbreviation (input) TOOL_HTTP :: int where "TOOL_HTTP \<equiv> 11"

abbreviation (input) TOOL_SMP :: int where "TOOL_SMP \<equiv> 12"

abbreviation (input) TOOL_OTA :: int where "TOOL_OTA \<equiv> 13"

abbreviation (input) TOOL_DISPLAY :: int where "TOOL_DISPLAY \<equiv> 14"

abbreviation (input) TOOL_INPUT :: int where "TOOL_INPUT \<equiv> 15"

abbreviation (input) TOOL_CONSOLE :: int where "TOOL_CONSOLE \<equiv> 16"

abbreviation (input) TOOL_CATALOG :: int where "TOOL_CATALOG \<equiv> 17"

abbreviation (input) TOOL_TENANT :: int where "TOOL_TENANT \<equiv> 18"

abbreviation (input) TOOL_AUDIT :: int where "TOOL_AUDIT \<equiv> 19"

abbreviation (input) TOOL_NAMESPACE :: int where "TOOL_NAMESPACE \<equiv> 20"

abbreviation (input) TOOL_QUOTA :: int where "TOOL_QUOTA \<equiv> 21"

abbreviation (input) TOOL_FLEET :: int where "TOOL_FLEET \<equiv> 22"

abbreviation (input) TOOL_POLICY :: int where "TOOL_POLICY \<equiv> 23"

abbreviation (input) TOOL_REMOTE :: int where "TOOL_REMOTE \<equiv> 24"

abbreviation (input) TOOL_MESH :: int where "TOOL_MESH \<equiv> 25"

section \<open>Messages\<close>

abbreviation (input) MSG_RESULT :: int where "MSG_RESULT \<equiv> 2"

abbreviation (input) MSG_STEER :: int where "MSG_STEER \<equiv> 32769"

abbreviation (input) MSG_SUMMARY :: int where "MSG_SUMMARY \<equiv> 32771"

section \<open>Sizes and limits\<close>

abbreviation (input) MAX_AGENTS :: nat where "MAX_AGENTS \<equiv> 12"

abbreviation (input) MSG_CAPACITY :: nat where "MSG_CAPACITY \<equiv> 16"

abbreviation (input) MSG_STEER_CAPACITY :: nat where "MSG_STEER_CAPACITY \<equiv> 4"

abbreviation (input) MSG_PAYLOAD_SIZE :: nat where "MSG_PAYLOAD_SIZE \<equiv> 224"

abbreviation (input) SMP_MAX_HARTS :: nat where "SMP_MAX_HARTS \<equiv> 4"

abbreviation (input) RAMFS_PATH_MAX :: nat where "RAMFS_PATH_MAX \<equiv> 64"

abbreviation (input) RAMFS_FILE_SIZE :: nat where "RAMFS_FILE_SIZE \<equiv> 8192"

abbreviation (input) RAMFS_MAX_FILES :: nat where "RAMFS_MAX_FILES \<equiv> 64"

abbreviation (input) AUDIT_TAIL_MAX :: nat where "AUDIT_TAIL_MAX \<equiv> 128"

abbreviation (input) DISPLAY_AGENT_ID :: int where "DISPLAY_AGENT_ID \<equiv> 8"

abbreviation (input) QUOTA_IPC_MAX :: int where "QUOTA_IPC_MAX \<equiv> 16"

abbreviation (input) QUOTA_TOOL_MAX :: int where "QUOTA_TOOL_MAX \<equiv> 128"

abbreviation (input) QUOTA_FS_FILES :: int where "QUOTA_FS_FILES \<equiv> 32"

abbreviation (input) TENANT_SESSION_QUOTA :: int where "TENANT_SESSION_QUOTA \<equiv> 640"

abbreviation (input) AUDIT_QUOTA_BYTES :: int where "AUDIT_QUOTA_BYTES \<equiv> 512"

abbreviation (input) NAMESPACE_HOME_QUOTA :: int where "NAMESPACE_HOME_QUOTA \<equiv> 256"

section \<open>Enumerations\<close>

datatype agent_phase =
    AGENT_PHASE_IDLE
  | AGENT_PHASE_TURN
  | AGENT_PHASE_TOOL
  | AGENT_PHASE_LLM_WAIT
  | AGENT_PHASE_WAIT_IPC

datatype agent_state =
    AGENT_UNUSED
  | AGENT_CREATED
  | AGENT_RUNNABLE
  | AGENT_RUNNING
  | AGENT_WAITING
  | AGENT_ZOMBIE

fun phase_code :: "agent_phase \<Rightarrow> int" where
  "phase_code AGENT_PHASE_IDLE = 0"
| "phase_code AGENT_PHASE_TURN = 1"
| "phase_code AGENT_PHASE_TOOL = 2"
| "phase_code AGENT_PHASE_LLM_WAIT = 3"
| "phase_code AGENT_PHASE_WAIT_IPC = 4"

end
