(* ===== verification/Ipc.thy ===== *)
theory Ipc
  imports Agentos
begin

text \<open>
  The agent mailbox of \<open>kernel/ipc.c\<close>: two rings per agent, a priority ring for
  \<open>MSG_STEER\<close> and a normal ring for everything else, and the compaction of the normal ring.

  The lemmas show that the two rings are two bounded FIFO queues (\<open>steer_list\<close> and
  \<open>normal_list\<close>), that the priority queue is always served first, and that compaction keeps
  the newest messages in order behind one summary message.  The locale \<open>mailbox\<close> is the
  contract the agent layer uses; \<open>mbox\<close> is its interpretation on the operations below.
  The lock \<open>msgbox_lock\<close> is taken and released by each operation, which is one atomic step of
  the model.
\<close>

section \<open>Definitions\<close>

record agent_msg =
  sender_id :: int
  msg_type :: int
  payload :: string

record msgbox =
  normal :: "agent_msg list"
  normal_head :: nat
  normal_tail :: nat
  normal_count :: nat
  steer :: "agent_msg list"
  steer_head :: nat
  steer_tail :: nat
  steer_count :: nat

definition payload_putc :: "nat \<Rightarrow> string \<Rightarrow> char \<Rightarrow> string" where
  "payload_putc cap dst c = (if length dst < cap - 1 then dst @ [c] else dst)"

fun payload_puts :: "nat \<Rightarrow> string \<Rightarrow> string \<Rightarrow> string" where
  "payload_puts cap dst [] = dst"
| "payload_puts cap dst (c # s) =
     (if length dst < cap - 1 then payload_puts cap (dst @ [c]) s else dst)"

definition payload_put_uint :: "nat \<Rightarrow> string \<Rightarrow> int \<Rightarrow> string" where
  "payload_put_uint cap dst n =
     (if n = 0 then payload_putc cap dst (CHR ''0'')
      else fold (\<lambda>d s. payload_putc cap s (digit_char d)) (rev (dec_loop n)) dst)"

definition msgbox_init :: "msgbox \<Rightarrow> msgbox" where
  "msgbox_init box = box\<lparr>normal_head := 0, normal_tail := 0, normal_count := 0,
                         steer_head := 0, steer_tail := 0, steer_count := 0\<rparr>"

definition msgbox_is_priority_type :: "int \<Rightarrow> bool" where
  "msgbox_is_priority_type t \<longleftrightarrow> t = MSG_STEER"

definition msgbox_empty :: "msgbox \<Rightarrow> bool" where
  "msgbox_empty box \<longleftrightarrow> normal_count box = 0 \<and> steer_count box = 0"

definition msgbox_push :: "msgbox \<Rightarrow> agent_msg \<Rightarrow> msgbox \<times> int" where
  "msgbox_push box msg =
     (if msgbox_is_priority_type (msg_type msg) then
        (if steer_count box \<ge> MSG_STEER_CAPACITY then (box, ENOSPC)
         else (box\<lparr>steer := (steer box)[steer_tail box := msg],
                   steer_tail := (steer_tail box + 1) mod MSG_STEER_CAPACITY,
                   steer_count := steer_count box + 1\<rparr>, 0))
      else
        (if normal_count box \<ge> MSG_CAPACITY then (box, ENOSPC)
         else (box\<lparr>normal := (normal box)[normal_tail box := msg],
                   normal_tail := (normal_tail box + 1) mod MSG_CAPACITY,
                   normal_count := normal_count box + 1\<rparr>, 0)))"

definition msgbox_pop :: "msgbox \<Rightarrow> msgbox \<times> int \<times> agent_msg option" where
  "msgbox_pop box =
     (if steer_count box > 0 then
        (box\<lparr>steer_head := (steer_head box + 1) mod MSG_STEER_CAPACITY,
             steer_count := steer_count box - 1\<rparr>, 0, Some (steer box ! steer_head box))
      else if normal_count box = 0 then (box, EAGAIN, None)
      else
        (box\<lparr>normal_head := (normal_head box + 1) mod MSG_CAPACITY,
             normal_count := normal_count box - 1\<rparr>, 0, Some (normal box ! normal_head box)))"

fun put_dropped_types :: "nat \<Rightarrow> agent_msg list \<Rightarrow> string \<Rightarrow> string" where
  "put_dropped_types i [] s = s"
| "put_dropped_types i (m # ms) s =
     (if length s < MSG_PAYLOAD_SIZE - 8 then
        (let s1 = (if i > 0 then payload_putc MSG_PAYLOAD_SIZE s (CHR '','') else s);
             s2 = payload_putc MSG_PAYLOAD_SIZE s1 (CHR ''t'')
         in put_dropped_types (Suc i) ms (payload_put_uint MSG_PAYLOAD_SIZE s2 (uint32 (msg_type m))))
      else s)"

definition compact_summary :: "nat \<Rightarrow> agent_msg list \<Rightarrow> agent_msg" where
  "compact_summary dropped ordered =
     (let s1 = payload_puts MSG_PAYLOAD_SIZE [] ''compact:'';
          s2 = payload_put_uint MSG_PAYLOAD_SIZE s1 (int dropped);
          s3 = payload_puts MSG_PAYLOAD_SIZE s2 '';''
      in \<lparr>sender_id = 0, msg_type = MSG_SUMMARY,
          payload = pad_to MSG_PAYLOAD_SIZE (put_dropped_types 0 (take dropped ordered) s3)\<rparr>)"

definition msgbox_compact :: "msgbox \<Rightarrow> int \<Rightarrow> msgbox \<times> int" where
  "msgbox_compact box keep0 =
     (let total = normal_count box;
          keep1 = (if keep0 < 0 then 0 else keep0);
          keep = (if keep1 > int MSG_CAPACITY then int MSG_CAPACITY else keep1)
      in if int total \<le> keep then (box, 0)
         else
           (let dropped = total - nat keep;
                ordered = map (\<lambda>i. normal box ! ((normal_head box + i) mod MSG_CAPACITY)) [0..<total];
                rebuilt = compact_summary dropped ordered # drop dropped ordered;
                out = length rebuilt
            in (box\<lparr>normal_head := 0, normal_tail := out mod MSG_CAPACITY, normal_count := out,
                     normal := copy_prefix rebuilt (normal box)\<rparr>, 0)))"

subsection \<open>The queues the rings stand for\<close>

definition ring_view :: "nat \<Rightarrow> 'a list \<Rightarrow> nat \<Rightarrow> nat \<Rightarrow> 'a list" where
  "ring_view cap xs h n = map (\<lambda>i. xs ! ((h + i) mod cap)) [0..<n]"

definition ring_inv :: "nat \<Rightarrow> 'a list \<Rightarrow> nat \<Rightarrow> nat \<Rightarrow> nat \<Rightarrow> bool" where
  "ring_inv cap xs h t n \<longleftrightarrow>
     length xs = cap \<and> h < cap \<and> t < cap \<and> n \<le> cap \<and> t = (h + n) mod cap"

definition normal_list :: "msgbox \<Rightarrow> agent_msg list" where
  "normal_list box = ring_view MSG_CAPACITY (normal box) (normal_head box) (normal_count box)"

definition steer_list :: "msgbox \<Rightarrow> agent_msg list" where
  "steer_list box = ring_view MSG_STEER_CAPACITY (steer box) (steer_head box) (steer_count box)"

definition msgbox_inv :: "msgbox \<Rightarrow> bool" where
  "msgbox_inv box \<longleftrightarrow>
     ring_inv MSG_CAPACITY (normal box) (normal_head box) (normal_tail box) (normal_count box) \<and>
     ring_inv MSG_STEER_CAPACITY (steer box) (steer_head box) (steer_tail box) (steer_count box)"

section \<open>Rings\<close>

text \<open>
  A ring of capacity \<open>cap\<close> is a bounded FIFO queue.  The locale is interpreted for the two
  capacities of a mailbox.
\<close>

locale ring =
  fixes cap :: nat
  assumes cap_pos: "0 < cap"
begin

lemma view_length: "length (ring_view cap xs h n) = n"
  by (simp add: ring_view_def)

lemma enq_inv:
  assumes "ring_inv cap xs h t n" and "n < cap"
  shows "ring_inv cap (xs[t := x]) h ((t + 1) mod cap) (n + 1)"
  using assms cap_pos by (auto simp: ring_inv_def mod_simps ac_simps)

lemma slot_distinct:
  assumes "i < n" and "n < cap"
  shows "(h + i) mod cap \<noteq> (h + n) mod cap"
proof
  assume eq: "(h + i) mod cap = (h + n) mod cap"
  have "cap dvd (h + n) - (h + i)"
    using eq assms(1) mod_eq_dvd_iff_nat [of "h + i" "h + n" cap] by simp
  then have "cap dvd n - i" by simp
  moreover have "0 < n - i" "n - i < cap" using assms by auto
  ultimately show False using nat_dvd_not_less by blast
qed

lemma enq_view:
  assumes "ring_inv cap xs h t n" and "n < cap"
  shows "ring_view cap (xs[t := x]) h (n + 1) = ring_view cap xs h n @ [x]"
proof -
  have t: "t = (h + n) mod cap" "t < length xs" using assms by (auto simp: ring_inv_def)
  have "xs[t := x] ! ((h + i) mod cap) = xs ! ((h + i) mod cap)" if "i < n" for i
    using slot_distinct [OF that assms(2), of h] t by (metis nth_list_update_neq)
  then show ?thesis using t by (simp add: ring_view_def)
qed

lemma deq_inv:
  assumes "ring_inv cap xs h t n" and "0 < n"
  shows "ring_inv cap xs ((h + 1) mod cap) t (n - 1)"
proof -
  obtain m where m: "n = Suc m" using assms(2) by (cases n) auto
  have "((h + 1) mod cap + m) mod cap = (h + Suc m) mod cap" by (simp add: mod_simps)
  with assms m cap_pos show ?thesis by (simp add: ring_inv_def)
qed

lemma deq_view:
  assumes "ring_inv cap xs h t n" and "0 < n"
  shows "ring_view cap xs h n = xs ! h # ring_view cap xs ((h + 1) mod cap) (n - 1)"
proof (rule nth_equalityI)
  show "length (ring_view cap xs h n)
        = length (xs ! h # ring_view cap xs ((h + 1) mod cap) (n - 1))"
    using assms(2) by (simp add: view_length)
next
  fix i
  assume "i < length (ring_view cap xs h n)"
  then have i: "i < n" by (simp add: view_length)
  have h: "h mod cap = h" using assms(1) by (simp add: ring_inv_def)
  show "ring_view cap xs h n ! i
        = (xs ! h # ring_view cap xs ((h + 1) mod cap) (n - 1)) ! i"
  proof (cases i)
    case 0
    with i h show ?thesis by (simp add: ring_view_def)
  next
    case (Suc j)
    have "((h + 1) mod cap + j) mod cap = (h + Suc j) mod cap" by (simp add: mod_simps)
    moreover have "j < n - 1" using i Suc by simp
    ultimately show ?thesis using i Suc by (simp add: ring_view_def)
  qed
qed

lemma fill_inv: "length xs = cap \<Longrightarrow> n \<le> cap \<Longrightarrow> ring_inv cap xs 0 (n mod cap) n"
  using cap_pos by (simp add: ring_inv_def)

lemma fill_view: "n \<le> cap \<Longrightarrow> n \<le> length xs \<Longrightarrow> ring_view cap xs 0 n = take n xs"
  by (rule nth_equalityI) (auto simp: ring_view_def)

end

interpretation nring: ring MSG_CAPACITY
  by unfold_locales simp

interpretation sring: ring MSG_STEER_CAPACITY
  by unfold_locales simp

section \<open>The mailbox contract\<close>

text \<open>
  What the agent layer relies on: two bounded queues, \<open>urgent\<close> and \<open>regular\<close>; a push appends
  to the queue the message belongs to or reports \<open>ENOSPC\<close> and changes nothing; a pop takes the
  head of the urgent queue and, when that is empty, of the regular queue.
\<close>

fun pop_all :: "('b \<Rightarrow> 'b \<times> int \<times> 'm option) \<Rightarrow> nat \<Rightarrow> 'b \<Rightarrow> 'm list" where
  "pop_all pop 0 b = []"
| "pop_all pop (Suc k) b =
     (case pop b of (b', rc, Some m) \<Rightarrow> m # pop_all pop k b' | (b', rc, None) \<Rightarrow> [])"

fun push_all :: "('b \<Rightarrow> 'm \<Rightarrow> 'b \<times> int) \<Rightarrow> 'b \<Rightarrow> 'm list \<Rightarrow> 'b" where
  "push_all push b [] = b"
| "push_all push b (m # ms) = push_all push (fst (push b m)) ms"

locale mailbox =
  fixes push :: "'b \<Rightarrow> 'm \<Rightarrow> 'b \<times> int"
    and pop :: "'b \<Rightarrow> 'b \<times> int \<times> 'm option"
    and urgent :: "'b \<Rightarrow> 'm list"
    and regular :: "'b \<Rightarrow> 'm list"
    and prio :: "'m \<Rightarrow> bool"
    and ucap :: nat
    and ncap :: nat
    and invar :: "'b \<Rightarrow> bool"
  assumes push_prio: "invar b \<Longrightarrow> prio m \<Longrightarrow> length (urgent b) < ucap \<Longrightarrow>
      snd (push b m) = 0 \<and> invar (fst (push b m)) \<and>
      urgent (fst (push b m)) = urgent b @ [m] \<and> regular (fst (push b m)) = regular b"
    and push_regular: "invar b \<Longrightarrow> \<not> prio m \<Longrightarrow> length (regular b) < ncap \<Longrightarrow>
      snd (push b m) = 0 \<and> invar (fst (push b m)) \<and>
      regular (fst (push b m)) = regular b @ [m] \<and> urgent (fst (push b m)) = urgent b"
    and push_full: "invar b \<Longrightarrow>
      (if prio m then ucap \<le> length (urgent b) else ncap \<le> length (regular b)) \<Longrightarrow>
      push b m = (b, ENOSPC)"
    and pop_urgent: "invar b \<Longrightarrow> urgent b = m # ms \<Longrightarrow>
      \<exists>b'. pop b = (b', 0, Some m) \<and> invar b' \<and> urgent b' = ms \<and> regular b' = regular b"
    and pop_regular: "invar b \<Longrightarrow> urgent b = [] \<Longrightarrow> regular b = m # ms \<Longrightarrow>
      \<exists>b'. pop b = (b', 0, Some m) \<and> invar b' \<and> urgent b' = [] \<and> regular b' = ms"
    and pop_empty: "invar b \<Longrightarrow> urgent b = [] \<Longrightarrow> regular b = [] \<Longrightarrow> pop b = (b, EAGAIN, None)"
begin

lemma push_invar: "invar b \<Longrightarrow> invar (fst (push b m))"
  using push_prio [of b m] push_regular [of b m] push_full [of b m]
  by (cases "prio m"; cases "length (urgent b) < ucap"; cases "length (regular b) < ncap") auto

lemma push_ok_iff: "invar b \<Longrightarrow>
    snd (push b m) = 0 \<longleftrightarrow> (if prio m then length (urgent b) < ucap else length (regular b) < ncap)"
  using push_prio [of b m] push_regular [of b m] push_full [of b m]
  by (cases "prio m"; cases "length (urgent b) < ucap"; cases "length (regular b) < ncap") auto

lemma pop_all_regular: "invar b \<Longrightarrow> urgent b = [] \<Longrightarrow>
    pop_all pop (length (regular b)) b = regular b"
proof (induction "regular b" arbitrary: b)
  case Nil
  then show ?case by simp
next
  case (Cons m ms)
  then obtain b' where "pop b = (b', 0, Some m)" "invar b'" "urgent b' = []" "regular b' = ms"
    using pop_regular by metis
  with Cons show ?case by (metis (no_types, lifting) length_Cons option.simps(5) pop_all.simps(2) prod.simps(2))
qed

lemma drain_order: "invar b \<Longrightarrow>
    pop_all pop (length (urgent b) + length (regular b)) b = urgent b @ regular b"
proof (induction "urgent b" arbitrary: b)
  case Nil
  then show ?case using pop_all_regular [of b] by simp
next
  case (Cons m ms)
  then obtain b' where b': "pop b = (b', 0, Some m)" "invar b'" "urgent b' = ms" "regular b' = regular b"
    using pop_urgent by metis
  with Cons.hyps(1) [of b'] have "pop_all pop (length ms + length (regular b)) b' = ms @ regular b"
    by simp
  with b' Cons.hyps(2) [symmetric] show ?case by simp
qed

lemma push_all_queues:
  assumes "invar b"
    and "length (urgent b) + length (filter prio ms) \<le> ucap"
    and "length (regular b) + length (filter (\<lambda>m. \<not> prio m) ms) \<le> ncap"
  shows "invar (push_all push b ms) \<and>
    urgent (push_all push b ms) = urgent b @ filter prio ms \<and>
    regular (push_all push b ms) = regular b @ filter (\<lambda>m. \<not> prio m) ms"
  using assms
proof (induction ms arbitrary: b)
  case Nil
  then show ?case by simp
next
  case (Cons m ms)
  show ?case
  proof (cases "prio m")
    case True
    with Cons.prems push_prio [of b m] Cons.IH [of "fst (push b m)"] show ?thesis by simp
  next
    case False
    with Cons.prems push_regular [of b m] Cons.IH [of "fst (push b m)"] show ?thesis by simp
  qed
qed

lemma fifo_priority:
  assumes "invar b" "urgent b = []" "regular b = []"
    and "length (filter prio ms) \<le> ucap" "length (filter (\<lambda>m. \<not> prio m) ms) \<le> ncap"
  shows "pop_all pop (length ms) (push_all push b ms)
         = filter prio ms @ filter (\<lambda>m. \<not> prio m) ms"
  using push_all_queues [OF assms(1), of ms] assms drain_order [of "push_all push b ms"]
    sum_length_filter_compl [of prio ms] by simp

end

lemmas mb_defs = msgbox_inv_def normal_list_def steer_list_def msgbox_push_def msgbox_pop_def

lemma length_normal_list [simp]: "length (normal_list box) = normal_count box"
  by (simp add: normal_list_def nring.view_length)

lemma length_steer_list [simp]: "length (steer_list box) = steer_count box"
  by (simp add: steer_list_def sring.view_length)

lemma msgbox_push_prio:
  assumes "msgbox_inv b" "msgbox_is_priority_type (msg_type m)" "steer_count b < MSG_STEER_CAPACITY"
  shows "snd (msgbox_push b m) = 0 \<and> msgbox_inv (fst (msgbox_push b m)) \<and>
    steer_list (fst (msgbox_push b m)) = steer_list b @ [m] \<and>
    normal_list (fst (msgbox_push b m)) = normal_list b"
  using assms sring.enq_inv [of "steer b" "steer_head b" "steer_tail b" "steer_count b" m]
    sring.enq_view [of "steer b" "steer_head b" "steer_tail b" "steer_count b" m]
  by (simp add: mb_defs)

lemma msgbox_push_regular:
  assumes "msgbox_inv b" "\<not> msgbox_is_priority_type (msg_type m)" "normal_count b < MSG_CAPACITY"
  shows "snd (msgbox_push b m) = 0 \<and> msgbox_inv (fst (msgbox_push b m)) \<and>
    normal_list (fst (msgbox_push b m)) = normal_list b @ [m] \<and>
    steer_list (fst (msgbox_push b m)) = steer_list b"
  using assms nring.enq_inv [of "normal b" "normal_head b" "normal_tail b" "normal_count b" m]
    nring.enq_view [of "normal b" "normal_head b" "normal_tail b" "normal_count b" m]
  by (simp add: mb_defs)

lemma msgbox_pop_urgent:
  assumes "msgbox_inv b" "steer_list b = m # ms"
  shows "\<exists>b'. msgbox_pop b = (b', 0, Some m) \<and> msgbox_inv b' \<and> steer_list b' = ms \<and>
    normal_list b' = normal_list b"
proof -
  have n: "0 < steer_count b"
    using assms(2) length_steer_list [of b] by (metis length_greater_0_conv list.discI)
  then show ?thesis
    using assms sring.deq_inv [of "steer b" "steer_head b" "steer_tail b" "steer_count b"]
      sring.deq_view [of "steer b" "steer_head b" "steer_tail b" "steer_count b"]
    by (simp add: mb_defs)
qed

lemma msgbox_pop_regular:
  assumes "msgbox_inv b" "steer_list b = []" "normal_list b = m # ms"
  shows "\<exists>b'. msgbox_pop b = (b', 0, Some m) \<and> msgbox_inv b' \<and> steer_list b' = [] \<and>
    normal_list b' = ms"
proof -
  have s: "steer_count b = 0" using assms(2) length_steer_list [of b] by simp
  have n: "0 < normal_count b"
    using assms(3) length_normal_list [of b] by (metis length_greater_0_conv list.discI)
  from s n show ?thesis
    using assms nring.deq_inv [of "normal b" "normal_head b" "normal_tail b" "normal_count b"]
      nring.deq_view [of "normal b" "normal_head b" "normal_tail b" "normal_count b"]
    by (simp add: mb_defs)
qed

lemma msgbox_pop_empty:
  "steer_list b = [] \<Longrightarrow> normal_list b = [] \<Longrightarrow> msgbox_pop b = (b, EAGAIN, None)"
  using length_steer_list [of b] length_normal_list [of b] by (simp add: msgbox_pop_def)

interpretation mbox: mailbox msgbox_push msgbox_pop steer_list normal_list
  "\<lambda>m. msgbox_is_priority_type (msg_type m)" MSG_STEER_CAPACITY MSG_CAPACITY msgbox_inv
proof unfold_locales
qed (use msgbox_push_prio msgbox_push_regular msgbox_pop_urgent msgbox_pop_regular msgbox_pop_empty
      in \<open>auto simp: msgbox_push_def split: if_splits\<close>)

section \<open>Compaction\<close>

lemma length_payload_putc: "length s \<le> cap - Suc 0 \<Longrightarrow> length (payload_putc cap s c) \<le> cap - Suc 0"
  by (simp add: payload_putc_def)

lemma length_payload_puts: "length s \<le> cap - Suc 0 \<Longrightarrow> length (payload_puts cap s t) \<le> cap - Suc 0"
  by (induction cap s t rule: payload_puts.induct) auto

lemma length_fold_putc:
  "length s \<le> cap - Suc 0 \<Longrightarrow> length (fold (\<lambda>d s. payload_putc cap s (digit_char d)) ds s) \<le> cap - Suc 0"
  by (induction ds arbitrary: s) (simp_all add: length_payload_putc)

lemma length_payload_put_uint: "length s \<le> cap - Suc 0 \<Longrightarrow> length (payload_put_uint cap s n) \<le> cap - Suc 0"
  by (simp add: payload_put_uint_def length_payload_putc length_fold_putc)

lemmas length_payload = length_payload_putc [where cap = MSG_PAYLOAD_SIZE, simplified]
  length_payload_puts [where cap = MSG_PAYLOAD_SIZE, simplified]
  length_payload_put_uint [where cap = MSG_PAYLOAD_SIZE, simplified]

lemma length_put_dropped_types: "length s \<le> 223 \<Longrightarrow> length (put_dropped_types i ms s) \<le> 223"
proof (induction i ms s rule: put_dropped_types.induct)
  case (1 i s)
  then show ?case by simp
next
  case (2 i m ms s)
  show ?case
  proof (cases "length s < MSG_PAYLOAD_SIZE - 8")
    case True
    let ?s1 = "if i > 0 then payload_putc MSG_PAYLOAD_SIZE s (CHR '','') else s"
    have "length ?s1 \<le> 223" using "2.prems" by (simp add: length_payload)
    then have "length (payload_put_uint MSG_PAYLOAD_SIZE (payload_putc MSG_PAYLOAD_SIZE ?s1 (CHR ''t''))
        (uint32 (msg_type m))) \<le> 223"
      by (intro length_payload)
    from "2.IH" [OF True refl refl this] True show ?thesis by (simp add: Let_def)
  next
    case False
    with "2.prems" show ?thesis by simp
  qed
qed

lemma compact_summary_fields:
  "sender_id (compact_summary k ms) = 0" "msg_type (compact_summary k ms) = MSG_SUMMARY"
  by (simp_all add: compact_summary_def Let_def)

lemma length_compact_summary: "length (payload (compact_summary k ms)) = MSG_PAYLOAD_SIZE"
proof -
  let ?s1 = "payload_puts MSG_PAYLOAD_SIZE [] ''compact:''"
  let ?s3 = "payload_puts MSG_PAYLOAD_SIZE (payload_put_uint MSG_PAYLOAD_SIZE ?s1 (int k)) '';''"
  have "length ?s3 \<le> 223" by (intro length_payload) simp
  from length_put_dropped_types [OF this, of 0 "take k ms"] show ?thesis
    by (simp add: compact_summary_def Let_def)
qed

definition clamp_keep :: "int \<Rightarrow> nat" where
  "clamp_keep keep = nat (max 0 (min keep (int MSG_CAPACITY)))"

lemma msgbox_compact_cases:
  "msgbox_compact box keep =
     (if normal_count box \<le> clamp_keep keep then (box, 0)
      else (let k = normal_count box - clamp_keep keep;
                rebuilt = compact_summary k (normal_list box) # drop k (normal_list box)
            in (box\<lparr>normal_head := 0, normal_tail := length rebuilt mod MSG_CAPACITY,
                     normal_count := length rebuilt, normal := copy_prefix rebuilt (normal box)\<rparr>, 0)))"
proof -
  have k: "nat (if keep' > int MSG_CAPACITY then int MSG_CAPACITY else keep') = clamp_keep keep \<and>
      (int n \<le> (if keep' > int MSG_CAPACITY then int MSG_CAPACITY else keep')) = (n \<le> clamp_keep keep)"
    if "keep' = (if keep < 0 then 0 else keep)" for keep' n
    using that by (auto simp: clamp_keep_def)
  show ?thesis
    using k [OF refl, of "normal_count box"]
    by (simp only: msgbox_compact_def Let_def normal_list_def ring_view_def)
qed

lemma msgbox_compact_view:
  assumes "msgbox_inv box"
  shows "snd (msgbox_compact box keep) = 0 \<and> msgbox_inv (fst (msgbox_compact box keep)) \<and>
    steer_list (fst (msgbox_compact box keep)) = steer_list box \<and>
    normal_list (fst (msgbox_compact box keep)) =
      (let n = length (normal_list box); k = n - clamp_keep keep
       in if n \<le> clamp_keep keep then normal_list box
          else compact_summary k (normal_list box) # drop k (normal_list box))"
proof (cases "normal_count box \<le> clamp_keep keep")
  case True
  with assms show ?thesis by (simp add: msgbox_compact_cases)
next
  case False
  let ?k = "normal_count box - clamp_keep keep"
  let ?r = "compact_summary ?k (normal_list box) # drop ?k (normal_list box)"
  have c: "normal_count box \<le> MSG_CAPACITY" "length (normal box) = MSG_CAPACITY"
    using assms by (simp_all add: msgbox_inv_def ring_inv_def)
  have len: "length ?r \<le> MSG_CAPACITY" using False c by simp
  have l2: "length (copy_prefix ?r (normal box)) = MSG_CAPACITY" using len c(2) by simp
  have "ring_inv MSG_CAPACITY (copy_prefix ?r (normal box)) 0 (length ?r mod MSG_CAPACITY) (length ?r)"
    using nring.fill_inv [OF l2 len] .
  moreover have "ring_view MSG_CAPACITY (copy_prefix ?r (normal box)) 0 (length ?r) = ?r"
    using nring.fill_view [of "length ?r" "copy_prefix ?r (normal box)"] len l2
    by (simp add: copy_prefix_def)
  ultimately show ?thesis
    using False assms
    by (simp add: msgbox_compact_cases Let_def msgbox_inv_def steer_list_def normal_list_def
        nring.view_length)
qed

section \<open>Properties\<close>

lemma msgbox_init_queues:
  "length (normal box) = MSG_CAPACITY \<Longrightarrow> length (steer box) = MSG_STEER_CAPACITY \<Longrightarrow>
   msgbox_inv (msgbox_init box) \<and> steer_list (msgbox_init box) = [] \<and>
   normal_list (msgbox_init box) = []"
  by (simp add: msgbox_init_def msgbox_inv_def ring_inv_def steer_list_def normal_list_def ring_view_def)

lemma msgbox_empty_iff: "msgbox_empty box \<longleftrightarrow> steer_list box = [] \<and> normal_list box = []"
  using length_steer_list [of box] length_normal_list [of box]
  unfolding msgbox_empty_def by (metis length_0_conv)

definition blank_msg :: agent_msg where
  "blank_msg = \<lparr>sender_id = 0, msg_type = 0, payload = pad_to MSG_PAYLOAD_SIZE []\<rparr>"

definition blank_box :: msgbox where
  "blank_box = \<lparr>normal = replicate MSG_CAPACITY blank_msg, normal_head = 0, normal_tail = 0,
     normal_count = 0, steer = replicate MSG_STEER_CAPACITY blank_msg, steer_head = 0,
     steer_tail = 0, steer_count = 0\<rparr>"

lemma blank_box_queues [simp]:
  "msgbox_inv blank_box" "steer_list blank_box = []" "normal_list blank_box = []"
  by (simp_all add: blank_box_def msgbox_inv_def ring_inv_def steer_list_def normal_list_def ring_view_def)

text \<open>C1: A push to a well-formed mailbox appends the message to the queue of its class and
  leaves the other queue alone, or, exactly when that queue is full (4 steer messages, 16 normal
  ones), returns \<open>ENOSPC\<close> and changes nothing; the rings stay well formed.\<close>

theorem msgbox_push_spec:
  assumes "msgbox_inv box"
  shows "msgbox_inv (fst (msgbox_push box msg)) \<and>
    (if msg_type msg = MSG_STEER then
       (if length (steer_list box) < 4 then
          snd (msgbox_push box msg) = 0 \<and>
          steer_list (fst (msgbox_push box msg)) = steer_list box @ [msg] \<and>
          normal_list (fst (msgbox_push box msg)) = normal_list box
        else msgbox_push box msg = (box, ENOSPC))
     else
       (if length (normal_list box) < 16 then
          snd (msgbox_push box msg) = 0 \<and>
          normal_list (fst (msgbox_push box msg)) = normal_list box @ [msg] \<and>
          steer_list (fst (msgbox_push box msg)) = steer_list box
        else msgbox_push box msg = (box, ENOSPC)))"
  using mbox.push_prio [OF assms, of msg] mbox.push_regular [OF assms, of msg]
    mbox.push_full [OF assms, of msg] mbox.push_invar [OF assms, of msg]
  by (simp add: msgbox_is_priority_type_def)

theorem msgbox_push_spec_witness:
  "snd (msgbox_push blank_box blank_msg) = 0 \<and>
   normal_list (fst (msgbox_push blank_box blank_msg)) = [blank_msg]"
  using msgbox_push_spec [OF blank_box_queues(1), of blank_msg] by (simp add: blank_msg_def)

text \<open>C2: Delivery order.  Messages pushed into an empty mailbox that fit (at most 4 steer and 16
  others) come out with all the steer messages first, and each class in the order sent.\<close>

theorem mailbox_delivery_order:
  assumes "msgbox_inv box" "steer_list box = []" "normal_list box = []"
    and "length (filter (\<lambda>m. msg_type m = MSG_STEER) ms) \<le> 4"
    and "length (filter (\<lambda>m. msg_type m \<noteq> MSG_STEER) ms) \<le> 16"
  shows "pop_all msgbox_pop (length ms) (push_all msgbox_push box ms)
    = filter (\<lambda>m. msg_type m = MSG_STEER) ms @ filter (\<lambda>m. msg_type m \<noteq> MSG_STEER) ms"
  using mbox.fifo_priority [OF assms(1-3), of ms] assms(4,5)
  by (simp add: msgbox_is_priority_type_def)

theorem mailbox_delivery_order_witness:
  "pop_all msgbox_pop 2 (push_all msgbox_push blank_box [blank_msg, blank_msg\<lparr>msg_type := MSG_STEER\<rparr>])
   = [blank_msg\<lparr>msg_type := MSG_STEER\<rparr>, blank_msg]"
  using mailbox_delivery_order [OF blank_box_queues, of "[blank_msg, blank_msg\<lparr>msg_type := MSG_STEER\<rparr>]"]
  by (simp add: blank_msg_def numeral_2_eq_2)

text \<open>Compaction succeeds on every well-formed mailbox, leaves the steer queue alone and, when
  more than \<open>keep\<close> (clamped to 0..16) normal messages wait, replaces the oldest ones by one
  kernel message of type \<open>MSG_SUMMARY\<close> with a full-size payload, in front of the newest
  \<open>keep\<close> messages in their order.\<close>

theorem msgbox_compact_spec:
  assumes "msgbox_inv box"
  shows "snd (msgbox_compact box keep) = 0 \<and> msgbox_inv (fst (msgbox_compact box keep)) \<and>
    steer_list (fst (msgbox_compact box keep)) = steer_list box \<and>
    (let kept = nat (max 0 (min keep 16)); n = length (normal_list box)
     in if n \<le> kept then normal_list (fst (msgbox_compact box keep)) = normal_list box
        else \<exists>m. normal_list (fst (msgbox_compact box keep)) = m # drop (n - kept) (normal_list box) \<and>
               msg_type m = MSG_SUMMARY \<and> sender_id m = 0 \<and> length (payload m) = MSG_PAYLOAD_SIZE)"
  using msgbox_compact_view [OF assms, of keep]
  by (simp add: Let_def clamp_keep_def compact_summary_fields length_compact_summary)

theorem msgbox_compact_spec_witness:
  "length (normal_list (fst (msgbox_compact
      (push_all msgbox_push blank_box [blank_msg, blank_msg, blank_msg]) 1))) = 2"
proof -
  let ?ms = "[blank_msg, blank_msg, blank_msg]"
  have t: "msg_type blank_msg = 0" by (simp add: blank_msg_def)
  have q: "msgbox_inv (push_all msgbox_push blank_box ?ms) \<and>
      normal_list (push_all msgbox_push blank_box ?ms) = ?ms"
    using mbox.push_all_queues [OF blank_box_queues(1), of ?ms] t
    by (simp add: msgbox_is_priority_type_def)
  show ?thesis using msgbox_compact_spec [OF conjunct1 [OF q], of 1] q
    by (auto simp: Let_def simp del: push_all.simps length_normal_list)
qed

end
