(* ===== verification/Agent_Types.thy ===== *)
theory Agent_Types
  imports Ipc
begin

text \<open>
  The data of \<open>kernel/agent.h\<close>: the trap frame and the agent control block.  A pointer to a trap
  frame is an option (\<open>None\<close> is the null pointer); a page table is the physical address of its
  root table, 0 the null pointer; the entry point is a code address.  An \<open>agent option\<close> stands
  for a \<open>struct agent *\<close> argument.
\<close>

record trapframe =
  tf_ra :: u64
  tf_sp :: u64
  tf_gp :: u64
  tf_tp :: u64
  tf_t0 :: u64
  tf_t1 :: u64
  tf_t2 :: u64
  tf_s0 :: u64
  tf_s1 :: u64
  tf_a0 :: u64
  tf_a1 :: u64
  tf_a2 :: u64
  tf_a3 :: u64
  tf_a4 :: u64
  tf_a5 :: u64
  tf_a6 :: u64
  tf_a7 :: u64
  tf_s2 :: u64
  tf_s3 :: u64
  tf_s4 :: u64
  tf_s5 :: u64
  tf_s6 :: u64
  tf_s7 :: u64
  tf_s8 :: u64
  tf_s9 :: u64
  tf_s10 :: u64
  tf_s11 :: u64
  tf_t3 :: u64
  tf_t4 :: u64
  tf_t5 :: u64
  tf_t6 :: u64
  tf_sepc :: u64
  tf_sstatus :: u64

record agent =
  aid :: int
  aname :: string
  astate :: agent_state
  aphase :: agent_phase
  stack_base :: u64
  atf :: "trapframe option"
  caps :: u32
  inbox :: msgbox
  exit_code :: int
  aentry :: u64
  pagetable :: u64
  heap_base :: u64
  heap_max_pages :: int
  heap_mapped :: int
  home_cpu :: int
  running_cpu :: int

unbundle bit_operations_syntax

definition agent_has_cap :: "agent option \<Rightarrow> u32 \<Rightarrow> bool" where
  "agent_has_cap a cap = (case a of None \<Rightarrow> False | Some ag \<Rightarrow> caps ag AND cap \<noteq> 0)"

definition blank_agent :: agent where
  "blank_agent = \<lparr>aid = 0, aname = [], astate = AGENT_UNUSED, aphase = AGENT_PHASE_IDLE,
     stack_base = 0, atf = None, caps = 0, inbox = blank_box, exit_code = 0, aentry = 0,
     pagetable = 0, heap_base = 0, heap_max_pages = 0, heap_mapped = 0, home_cpu = 0,
     running_cpu = - 1\<rparr>"

definition agent_id_ok :: "agent \<Rightarrow> bool" where
  "agent_id_ok a \<longleftrightarrow> 0 \<le> aid a \<and> aid a < 2147483648"

end
