(* ===== verification/Vm.thy ===== *)
theory Vm
  imports Mem Agent_Types
begin

text \<open>
  The Sv39 page tables and the agent heaps of \<open>kernel/vm.c\<close>.

  A page table is identified by its physical address; \<open>ptes t i\<close> is entry \<open>i\<close> of the table at
  \<open>t\<close>, and a pointer to an entry is the pair \<open>(t, i)\<close>.  Tables come from a pool of 64 pages at
  \<open>pt_base\<close>, the address the linker gives \<open>pt_storage\<close>.  \<open>phys\<close> is the byte memory of the
  pages the tables map; the kernel sees it identity-mapped.  Loops over addresses
  are \<open>partial_function\<close>s: their addresses wrap at \<open>2 ^ 64\<close>, and \<open>None\<close> is a loop
  that does not end.
\<close>

section \<open>Definitions\<close>

record vm =
  kheap :: kmem
  ptes :: "u64 \<Rightarrow> nat \<Rightarrow> u64"
  pt_base :: u64
  pt_next :: nat
  kernel_pt :: u64
  phys :: "u64 \<Rightarrow> char"

abbreviation (input) PT_PAGES :: nat where "PT_PAGES \<equiv> 64"

abbreviation (input) PAGE_SIZE :: u64 where "PAGE_SIZE \<equiv> 4096"

abbreviation (input) PTE_V :: u64 where "PTE_V \<equiv> 1"

abbreviation (input) PTE_R :: u64 where "PTE_R \<equiv> 2"

abbreviation (input) PTE_W :: u64 where "PTE_W \<equiv> 4"

abbreviation (input) PTE_X :: u64 where "PTE_X \<equiv> 8"

abbreviation (input) PTE_U :: u64 where "PTE_U \<equiv> 16"

abbreviation (input) PTE_STD :: u64 where "PTE_STD \<equiv> 192"

abbreviation (input) USER_STACK_BASE :: u64 where "USER_STACK_BASE \<equiv> 0x40000000"

abbreviation (input) USER_HEAP_BASE :: u64 where "USER_HEAP_BASE \<equiv> 0x60000000"

abbreviation (input) USER_STACK_SLOT :: u64 where "USER_STACK_SLOT \<equiv> 12288"

abbreviation (input) AGENT_STACK_SIZE :: u64 where "AGENT_STACK_SIZE \<equiv> 8192"

abbreviation (input) AGENT_HEAP_SIZE :: u64 where "AGENT_HEAP_SIZE \<equiv> 65536"

definition pa_round_down :: "u64 \<Rightarrow> u64" where
  "pa_round_down x = x AND NOT (PAGE_SIZE - 1)"

definition pa_round_up :: "u64 \<Rightarrow> u64" where
  "pa_round_up x = (x + PAGE_SIZE - 1) AND NOT (PAGE_SIZE - 1)"

definition set_pte :: "vm \<Rightarrow> u64 \<times> nat \<Rightarrow> u64 \<Rightarrow> vm" where
  "set_pte vm slot v = vm\<lparr>ptes := (ptes vm)(fst slot := (ptes vm (fst slot))(snd slot := v))\<rparr>"

definition get_pte :: "vm \<Rightarrow> u64 \<times> nat \<Rightarrow> u64" where
  "get_pte vm slot = ptes vm (fst slot) (snd slot)"

definition pt_alloc :: "vm \<Rightarrow> vm \<times> u64 option" where
  "pt_alloc vm =
     (if pt_next vm \<ge> PT_PAGES then (vm, None)
      else
        let pt = pt_base vm + of_nat (pt_next vm) * 4096
        in (vm\<lparr>pt_next := pt_next vm + 1, ptes := (ptes vm)(pt := (\<lambda>_. 0))\<rparr>, Some pt))"

definition vpn :: "nat \<Rightarrow> u64 \<Rightarrow> nat" where
  "vpn level va = unat (drop_bit (12 + 9 * level) va AND 0x1ff)"

definition vm_pte_pa :: "u64 \<Rightarrow> u64" where
  "vm_pte_pa pte = push_bit 12 (drop_bit 10 pte)"

definition pte_valid :: "u64 \<Rightarrow> bool" where
  "pte_valid pte \<longleftrightarrow> pte AND PTE_V \<noteq> 0"

definition table_pte :: "u64 \<Rightarrow> u64" where
  "table_pte child = push_bit 10 (drop_bit 12 child) OR PTE_V"

fun vm_walk_loop :: "vm \<Rightarrow> u64 \<Rightarrow> u64 \<Rightarrow> bool \<Rightarrow> nat \<Rightarrow> vm \<times> (u64 \<times> nat) option" where
  "vm_walk_loop vm pt va alloc 0 = (vm, Some (pt, vpn 0 va))"
| "vm_walk_loop vm pt va alloc (Suc level) =
     (let slot = (pt, vpn (Suc level) va);
          pte = get_pte vm slot
      in if pte_valid pte then vm_walk_loop vm (vm_pte_pa pte) va alloc level
         else if \<not> alloc then (vm, None)
         else (case pt_alloc vm of
                 (vm1, None) \<Rightarrow> (vm1, None)
               | (vm1, Some child) \<Rightarrow>
                   vm_walk_loop (set_pte vm1 slot (table_pte child)) child va alloc level))"

definition vm_walk :: "vm \<Rightarrow> u64 \<Rightarrow> u64 \<Rightarrow> bool \<Rightarrow> vm \<times> (u64 \<times> nat) option" where
  "vm_walk vm pt va alloc = vm_walk_loop vm pt va alloc 2"

definition vm_map_page :: "vm \<Rightarrow> u64 \<Rightarrow> u64 \<Rightarrow> u64 \<Rightarrow> u64 \<Rightarrow> vm \<times> int" where
  "vm_map_page vm pt va pa perm =
     (if va mod PAGE_SIZE \<noteq> 0 \<or> pa mod PAGE_SIZE \<noteq> 0 then (vm, - 1)
      else (case vm_walk vm pt va True of
              (vm1, None) \<Rightarrow> (vm1, - 1)
            | (vm1, Some slot) \<Rightarrow>
                if pte_valid (get_pte vm1 slot) then (vm1, - 1)
                else (set_pte vm1 slot (push_bit 10 (drop_bit 12 pa) OR perm OR PTE_V OR PTE_STD), 0)))"

definition vm_map_user_page :: "vm \<Rightarrow> u64 \<Rightarrow> u64 \<Rightarrow> u64 \<Rightarrow> u64 \<Rightarrow> vm \<times> int" where
  "vm_map_user_page vm pt va pa perm = vm_map_page vm pt va pa perm"

text \<open>The entry a walk without allocation finds, when it is valid.\<close>

definition leaf :: "vm \<Rightarrow> u64 \<Rightarrow> u64 \<Rightarrow> u64 option" where
  "leaf vm pt va =
     (case snd (vm_walk vm pt va False) of
        None \<Rightarrow> None
      | Some slot \<Rightarrow> if pte_valid (get_pte vm slot) then Some (get_pte vm slot) else None)"

definition vm_page_mapped :: "vm \<Rightarrow> u64 \<Rightarrow> u64 \<Rightarrow> bool" where
  "vm_page_mapped vm pt va \<longleftrightarrow> leaf vm pt (va AND NOT (PAGE_SIZE - 1)) \<noteq> None"

partial_function (option) user_check_loop :: "vm \<Rightarrow> u64 \<Rightarrow> u64 \<Rightarrow> u64 \<Rightarrow> bool \<Rightarrow> int option" where
  "user_check_loop vm pt a lim wr =
     (if a < lim then
        (case leaf vm pt a of
           None \<Rightarrow> Some (- 1)
         | Some pte \<Rightarrow>
             if pte AND PTE_U = 0 then Some (- 1)
             else if wr then
               (if pte AND PTE_W = 0 then Some (- 1) else user_check_loop vm pt (a + PAGE_SIZE) lim wr)
             else if pte AND PTE_R = 0 \<and> pte AND PTE_X = 0 then Some (- 1)
             else user_check_loop vm pt (a + PAGE_SIZE) lim wr)
      else Some 0)"

definition vm_user_check :: "vm \<Rightarrow> u64 \<Rightarrow> u64 \<Rightarrow> u64 \<Rightarrow> bool \<Rightarrow> int option" where
  "vm_user_check vm pt ua len wr =
     (if len = 0 then Some 0
      else
        let lim = ua + len
        in if lim < ua then Some (- 1)
           else user_check_loop vm pt (ua AND NOT (PAGE_SIZE - 1)) lim wr)"

definition copy_page :: "vm \<Rightarrow> u64 \<Rightarrow> u64 \<Rightarrow> vm" where
  "copy_page vm dst src =
     vm\<lparr>phys := (\<lambda>x. if x - dst < PAGE_SIZE then phys vm (src + (x - dst)) else phys vm x)\<rparr>"

definition vm_cow_break :: "vm \<Rightarrow> agent \<Rightarrow> u64 \<Rightarrow> vm \<times> int" where
  "vm_cow_break vm a page_va0 =
     (let page_va = page_va0 AND NOT (PAGE_SIZE - 1)
      in case snd (vm_walk vm (pagetable a) page_va False) of
           None \<Rightarrow> (vm, - 1)
         | Some slot \<Rightarrow>
             let pte = get_pte vm slot
             in if \<not> pte_valid pte then (vm, - 1)
                else if pte AND PTE_W \<noteq> 0 then (vm, 0)
                else
                  let old_pa = vm_pte_pa pte;
                      (m, new_pa) = kalloc_page (kheap vm)
                  in if new_pa = 0 then (vm\<lparr>kheap := m\<rparr>, - 1)
                     else
                       (set_pte (copy_page (vm\<lparr>kheap := m\<rparr>) new_pa old_pa) slot
                          (push_bit 10 (drop_bit 12 new_pa) OR PTE_U OR PTE_R OR PTE_W OR PTE_V OR PTE_STD), 0))"

definition cow_map_dst :: "vm \<Rightarrow> agent \<Rightarrow> u64 \<Rightarrow> u64 \<Rightarrow> vm \<times> agent \<times> int" where
  "cow_map_dst vm a dst_va pa =
     (if vm_page_mapped vm (pagetable a) dst_va then
        (case leaf vm (pagetable a) dst_va of
           None \<Rightarrow> (vm, a, EINVAL)
         | Some dst_pte \<Rightarrow> if vm_pte_pa dst_pte \<noteq> pa then (vm, a, EINVAL) else (vm, a, 0))
      else if heap_mapped a \<ge> heap_max_pages a then (vm, a, ENOSPC)
      else (case vm_map_user_page vm (pagetable a) dst_va pa (PTE_U OR PTE_R) of
              (vm1, rc) \<Rightarrow>
                if rc \<noteq> 0 then (vm1, a, ENOSPC)
                else (vm1, a\<lparr>heap_mapped := heap_mapped a + 1\<rparr>, 0)))"

definition cow_set_both :: "vm \<Rightarrow> agent \<Rightarrow> u64 \<Rightarrow> u64 \<times> nat \<Rightarrow> u64 \<Rightarrow> u64 \<Rightarrow> vm \<times> agent option \<times> int" where
  "cow_set_both vm a pt src_pte dst_va ro =
     (let vm1 = set_pte vm src_pte ro
      in case snd (vm_walk vm1 pt dst_va False) of
           None \<Rightarrow> (vm1, Some a, EINVAL)
         | Some dst_pte \<Rightarrow>
             if \<not> pte_valid (get_pte vm1 dst_pte) then (vm1, Some a, EINVAL)
             else (set_pte vm1 dst_pte ro, Some a, wrap32 (uint dst_va)))"

definition vm_heap_cow_alias :: "vm \<Rightarrow> agent option \<Rightarrow> int \<Rightarrow> int \<Rightarrow> vm \<times> agent option \<times> int" where
  "vm_heap_cow_alias vm a0 dst_off src_off =
     (case a0 of
        None \<Rightarrow> (vm, a0, EINVAL)
      | Some a \<Rightarrow>
          if pagetable a = 0 then (vm, a0, EINVAL)
          else if dst_off = src_off then (vm, a0, EINVAL)
          else if src_off < 0 \<or> src_off \<ge> heap_max_pages a then (vm, a0, EINVAL)
          else if dst_off < 0 \<or> dst_off \<ge> heap_max_pages a then (vm, a0, EINVAL)
          else
            let src_va = heap_base a + of_int src_off * PAGE_SIZE;
                dst_va = heap_base a + of_int dst_off * PAGE_SIZE
            in if \<not> vm_page_mapped vm (pagetable a) src_va then (vm, a0, EINVAL)
               else (case snd (vm_walk vm (pagetable a) src_va False) of
                 None \<Rightarrow> (vm, a0, EINVAL)
               | Some src_pte \<Rightarrow>
                   if \<not> pte_valid (get_pte vm src_pte) then (vm, a0, EINVAL)
                   else
                     let pa = vm_pte_pa (get_pte vm src_pte);
                         (vm1, a1, rc) = cow_map_dst vm a dst_va pa
                     in if rc \<noteq> 0 then (vm1, Some a1, rc)
                        else cow_set_both vm1 a1 (pagetable a) src_pte dst_va
                               (push_bit 10 (drop_bit 12 pa) OR PTE_U OR PTE_R OR PTE_V OR PTE_STD)))"

definition in_heap :: "agent \<Rightarrow> u64 \<Rightarrow> bool" where
  "in_heap a va \<longleftrightarrow> \<not> (va < heap_base a \<or> va \<ge> heap_base a + of_int (heap_max_pages a) * PAGE_SIZE)"

definition vm_heap_map_page :: "vm \<Rightarrow> agent option \<Rightarrow> u64 \<Rightarrow> vm \<times> agent option \<times> int" where
  "vm_heap_map_page vm a0 va =
     (case a0 of
        None \<Rightarrow> (vm, a0, - 1)
      | Some a \<Rightarrow>
          if pagetable a = 0 then (vm, a0, - 1)
          else
            let page_va = va AND NOT (PAGE_SIZE - 1)
            in if \<not> in_heap a va then (vm, a0, - 1)
               else if vm_page_mapped vm (pagetable a) page_va then (vm, a0, 0)
               else if heap_mapped a \<ge> heap_max_pages a then (vm, a0, - 1)
               else
                 let (m, pa) = kalloc_page (kheap vm);
                     vm1 = vm\<lparr>kheap := m\<rparr>
                 in if pa = 0 then (vm1, a0, - 1)
                    else (case vm_map_user_page vm1 (pagetable a) page_va pa (PTE_U OR PTE_R OR PTE_W) of
                            (vm2, rc) \<Rightarrow>
                              if rc \<noteq> 0 then (vm2, a0, - 1)
                              else (vm2, Some (a\<lparr>heap_mapped := heap_mapped a + 1\<rparr>), 0)))"

definition vm_heap_fault :: "vm \<Rightarrow> agent option \<Rightarrow> u64 \<Rightarrow> bool \<Rightarrow> vm \<times> agent option \<times> bool" where
  "vm_heap_fault vm a0 va wr =
     (case a0 of
        None \<Rightarrow> (vm, a0, False)
      | Some a \<Rightarrow>
          if pagetable a = 0 then (vm, a0, False)
          else if \<not> in_heap a va then (vm, a0, False)
          else
            let page_va = va AND NOT (PAGE_SIZE - 1)
            in if vm_page_mapped vm (pagetable a) page_va then
                 (if \<not> wr then (vm, a0, False)
                  else (case leaf vm (pagetable a) page_va of
                          None \<Rightarrow> (vm, a0, False)
                        | Some pte \<Rightarrow>
                            if pte AND PTE_W = 0
                            then (case vm_cow_break vm a page_va of (vm1, rc) \<Rightarrow> (vm1, a0, rc = 0))
                            else (vm, a0, False)))
               else (case vm_heap_map_page vm a0 va of (vm1, a1, rc) \<Rightarrow> (vm1, a1, rc = 0)))"

partial_function (option) map_region_loop ::
  "vm \<Rightarrow> u64 \<Rightarrow> u64 \<Rightarrow> u64 \<Rightarrow> u64 \<Rightarrow> u64 \<Rightarrow> (vm \<times> int) option" where
  "map_region_loop vm pt a lim pa_cur perm =
     (if a < lim then
        (case vm_map_page vm pt a pa_cur perm of
           (vm1, rc) \<Rightarrow>
             if rc \<noteq> 0 then Some (vm1, - 1)
             else map_region_loop vm1 pt (a + PAGE_SIZE) lim (pa_cur + PAGE_SIZE) perm)
      else Some (vm, 0))"

definition vm_map_region :: "vm \<Rightarrow> u64 \<Rightarrow> u64 \<Rightarrow> u64 \<Rightarrow> u64 \<Rightarrow> u64 \<Rightarrow> (vm \<times> int) option" where
  "vm_map_region vm pt va pa size0 perm =
     (let a = pa_round_down va;
          lim = pa_round_up (va + size0)
      in map_region_loop vm pt a lim (pa + (a - va)) perm)"

definition vm_map_user_stack :: "vm \<Rightarrow> u64 \<Rightarrow> int \<Rightarrow> u64 \<Rightarrow> u64 \<Rightarrow> (vm \<times> int) option" where
  "vm_map_user_stack vm pt agent_id stack_pa stack_size =
     (let slot = USER_STACK_BASE + of_int agent_id * USER_STACK_SLOT;
          va = slot + PAGE_SIZE
      in vm_map_region vm pt va stack_pa stack_size (PTE_U OR PTE_R OR PTE_W))"

definition vm_create_agent_pt :: "vm \<Rightarrow> vm \<times> u64" where
  "vm_create_agent_pt vm =
     (case pt_alloc vm of
        (vm1, None) \<Rightarrow> (vm1, 0)
      | (vm1, Some pt) \<Rightarrow>
          if kernel_pt vm1 = 0 then (vm1, 0)
          else (vm1\<lparr>ptes := (ptes vm1)(pt := (\<lambda>i. if i < 512 then ptes vm1 (kernel_pt vm1) i else ptes vm1 pt i))\<rparr>, pt))"

definition satp_for :: "u64 \<Rightarrow> u64" where
  "satp_for pt = push_bit 60 8 OR drop_bit 12 pt"

declare user_check_loop.simps [code]
declare map_region_loop.simps [code]

section \<open>Entries\<close>

definition aligned :: "u64 \<Rightarrow> bool" where
  "aligned t \<longleftrightarrow> t mod 4096 = 0"

lemma aligned_bits: "aligned t \<longleftrightarrow> (\<forall>i < 12. \<not> bit t i)"
proof -
  have "t mod 4096 = take_bit 12 t" by (simp add: take_bit_eq_mod)
  then show ?thesis
    by (auto simp: aligned_def bit_eq_iff bit_simps)
qed

lemma vpn_less [simp]: "vpn l va < 512"
proof -
  have "drop_bit (12 + 9 * l) va AND 0x1ff = take_bit 9 (drop_bit (12 + 9 * l) va)"
    by (simp add: take_bit_eq_mask mask_eq_exp_minus_1)
  then have "vpn l va = take_bit 9 (unat (drop_bit (12 + 9 * l) va))"
    by (simp add: vpn_def unsigned_take_bit_eq)
  then show ?thesis by (simp add: take_bit_eq_mod)
qed

lemma pte_pa_make:
  assumes "aligned pa" "f < 1024"
  shows "vm_pte_pa (push_bit 10 (drop_bit 12 pa) OR f) = pa"
proof (rule bit_word_eqI)
  fix n
  assume n: "n < LENGTH(64)"
  have f: "\<not> bit f k" if "10 \<le> k" for k
  proof -
    have "take_bit 10 f = f" using assms(2) 
      by (simp add: take_bit_eq_mod word_unat_eq_iff unat_mod word_less_nat_alt)
    with that show ?thesis by (metis bit_take_bit_iff not_less)
  qed
  show "bit (vm_pte_pa (push_bit 10 (drop_bit 12 pa) OR f)) n = bit pa n"
    using n f [of "n - 2"] assms(1) unfolding vm_pte_pa_def aligned_bits
    by (cases "n < 12") (auto simp: bit_simps)
qed

lemma pte_valid_bit: "pte_valid e \<longleftrightarrow> bit e 0"
  by (simp add: pte_valid_def and_one_eq bit_0 odd_iff_mod_2_eq_one)

lemma table_pte_props [simp]:
  "aligned c \<Longrightarrow> vm_pte_pa (table_pte c) = c" "pte_valid (table_pte c)"
  using pte_pa_make [of c 1] by (simp_all add: table_pte_def pte_valid_bit bit_simps)

lemma invalid_0 [simp]: "\<not> pte_valid 0"
  by (simp add: pte_valid_def)

lemma leaf_unfold:
  "leaf vm pt va =
     (let e2 = ptes vm pt (vpn 2 va); e1 = ptes vm (vm_pte_pa e2) (vpn 1 va); e0 = ptes vm (vm_pte_pa e1) (vpn 0 va)
      in if pte_valid e2 \<and> pte_valid e1 \<and> pte_valid e0 then Some e0 else None)"
  by (simp add: leaf_def vm_walk_def numeral_2_eq_2 get_pte_def Let_def)

lemma leaf_None2: "\<not> pte_valid (ptes vm q (vpn 2 va)) \<Longrightarrow> leaf vm q va = None"
  and leaf_None1: "\<not> pte_valid (ptes vm (vm_pte_pa (ptes vm q (vpn 2 va))) (vpn 1 va)) \<Longrightarrow> leaf vm q va = None"
  and leaf_None0: "\<not> pte_valid (ptes vm (vm_pte_pa (ptes vm (vm_pte_pa (ptes vm q (vpn 2 va))) (vpn 1 va))) (vpn 0 va))
    \<Longrightarrow> leaf vm q va = None"
  by (simp_all add: leaf_unfold Let_def)

section \<open>Page table trees\<close>

definition kids :: "vm \<Rightarrow> u64 \<Rightarrow> u64 set" where
  "kids vm t = {vm_pte_pa (ptes vm t i) |i. i < 512 \<and> pte_valid (ptes vm t i)}"

definition slot_inj :: "vm \<Rightarrow> u64 \<Rightarrow> bool" where
  "slot_inj vm t \<longleftrightarrow> inj_on (\<lambda>i. vm_pte_pa (ptes vm t i)) {i. i < 512 \<and> pte_valid (ptes vm t i)}"

definition pool_table :: "vm \<Rightarrow> nat \<Rightarrow> u64" where
  "pool_table vm k = pt_base vm + of_nat k * 4096"

definition pool :: "vm \<Rightarrow> u64 set" where
  "pool vm = pool_table vm ` {..<pt_next vm}"

definition pool_ok :: "vm \<Rightarrow> bool" where
  "pool_ok vm \<longleftrightarrow> aligned (pt_base vm) \<and> pt_base vm \<noteq> 0 \<and> unat (pt_base vm) < 2 ^ 56 \<and> pt_next vm \<le> PT_PAGES \<and>
     aligned (kernel_pt vm) \<and> kernel_pt vm \<noteq> 0 \<and> (\<forall>k < PT_PAGES. kernel_pt vm \<noteq> pool_table vm k)"

definition tables :: "vm \<Rightarrow> u64 set" where
  "tables vm = insert (kernel_pt vm) (pool vm)"

definition pt_tree :: "vm \<Rightarrow> u64 \<Rightarrow> bool" where
  "pt_tree vm r \<longleftrightarrow> r \<in> tables vm \<and> slot_inj vm r \<and>
     (\<forall>t \<in> kids vm r. t \<noteq> r \<and> t \<in> pool vm \<and> slot_inj vm t \<and>
        (\<forall>u \<in> kids vm r. t \<noteq> u \<longrightarrow> kids vm t \<inter> kids vm u = {}) \<and>
        (\<forall>u \<in> kids vm t. u \<noteq> r \<and> u \<notin> kids vm r \<and> u \<in> pool vm))"

lemma kids_image: "kids vm t = (\<lambda>i. vm_pte_pa (ptes vm t i)) ` {i. i < 512 \<and> pte_valid (ptes vm t i)}"
  by (auto simp: kids_def)

lemma kids_cong: "(\<And>j. j < 512 \<Longrightarrow> ptes vm' x j = ptes vm x j) \<Longrightarrow> kids vm' x = kids vm x"
  unfolding kids_image by (rule image_cong) auto

lemma kids_empty: "(\<And>j. j < 512 \<Longrightarrow> \<not> pte_valid (ptes vm x j)) \<Longrightarrow> kids vm x = {}"
  by (auto simp: kids_def)

lemma slot_inj_cong: "(\<And>j. j < 512 \<Longrightarrow> ptes vm' x j = ptes vm x j) \<Longrightarrow> slot_inj vm' x = slot_inj vm x"
  unfolding slot_inj_def inj_on_def by auto

lemma slot_inj_empty: "kids vm x = {} \<Longrightarrow> slot_inj vm x"
  by (auto simp: slot_inj_def kids_def inj_on_def)

lemma pt_treeI:
  assumes "r \<in> tables vm" "slot_inj vm r" "kids vm r \<subseteq> pool vm - {r}"
    and "\<And>t. t \<in> kids vm r \<Longrightarrow> slot_inj vm t"
    and "\<And>t. t \<in> kids vm r \<Longrightarrow> kids vm t \<subseteq> pool vm - insert r (kids vm r)"
    and "\<And>t u. t \<in> kids vm r \<Longrightarrow> u \<in> kids vm r \<Longrightarrow> t \<noteq> u \<Longrightarrow> kids vm t \<inter> kids vm u = {}"
  shows "pt_tree vm r"
  using assms unfolding pt_tree_def by blast

lemma pt_treeD:
  assumes "pt_tree vm r"
  shows "r \<in> tables vm" "slot_inj vm r" "kids vm r \<subseteq> pool vm - {r}"
    and "t \<in> kids vm r \<Longrightarrow> slot_inj vm t"
    and "t \<in> kids vm r \<Longrightarrow> kids vm t \<subseteq> pool vm - insert r (kids vm r)"
    and "t \<in> kids vm r \<Longrightarrow> u \<in> kids vm r \<Longrightarrow> t \<noteq> u \<Longrightarrow> kids vm t \<inter> kids vm u = {}"
  using assms unfolding pt_tree_def by blast+

lemma unat_pool_table: "pool_ok vm \<Longrightarrow> k < 64 \<Longrightarrow> unat (pool_table vm k) = unat (pt_base vm) + k * 4096"
  by (simp add: pool_ok_def pool_table_def unat_word_ariths unat_of_nat)

lemma aligned_unat: "aligned t \<longleftrightarrow> 4096 dvd unat t"
  by (simp add: aligned_def word_arith_nat_mod dvd_eq_mod_eq_0 unat_of_nat word_unat_eq_iff unat_mod)

lemma pool_table_aligned: "pool_ok vm \<Longrightarrow> k < 64 \<Longrightarrow> aligned (pool_table vm k)"
  by (simp add: aligned_unat unat_pool_table) (simp add: pool_ok_def aligned_unat)

lemma fresh_table:
  assumes "pool_ok vm" "pt_next vm < 64"
  shows "pool_table vm (pt_next vm) \<notin> tables vm"
proof
  assume "pool_table vm (pt_next vm) \<in> tables vm"
  then obtain k where "k < pt_next vm" "pool_table vm (pt_next vm) = pool_table vm k"
    using assms by (auto simp: tables_def pool_def pool_ok_def)
  then show False
    using assms unat_pool_table [OF assms] unat_pool_table [OF assms(1), of k] by auto
qed

subsection \<open>Hanging a fresh table below an empty slot\<close>

definition grow :: "vm \<Rightarrow> u64 \<Rightarrow> nat \<Rightarrow> vm" where
  "grow vm t i = set_pte (fst (pt_alloc vm)) (t, i) (table_pte (pool_table vm (pt_next vm)))"

lemma pt_alloc_full: "pt_next vm \<ge> 64 \<Longrightarrow> pt_alloc vm = (vm, None)"
  by (simp add: pt_alloc_def)

lemma pt_alloc_some:
  "pt_next vm < 64 \<Longrightarrow> pt_alloc vm =
     (vm\<lparr>pt_next := pt_next vm + 1, ptes := (ptes vm)(pool_table vm (pt_next vm) := (\<lambda>_. 0))\<rparr>,
      Some (pool_table vm (pt_next vm)))"
  by (simp add: pt_alloc_def pool_table_def Let_def)

lemma vm_fields [simp]:
  "pt_base (set_pte vm s v) = pt_base vm" "pt_next (set_pte vm s v) = pt_next vm"
  "kernel_pt (set_pte vm s v) = kernel_pt vm" "kheap (set_pte vm s v) = kheap vm" "phys (set_pte vm s v) = phys vm"
  by (simp_all add: set_pte_def)

lemma pool_table_set [simp]: "pool_table (set_pte vm s v) = pool_table vm" "pool (set_pte vm s v) = pool vm"
    "tables (set_pte vm s v) = tables vm" "pool_ok (set_pte vm s v) = pool_ok vm"
  by (simp_all add: pool_table_def fun_eq_iff pool_def tables_def pool_ok_def)

lemma grow_fields:
  assumes "pt_next vm < 64"
  shows "pt_base (grow vm t i) = pt_base vm" "pt_next (grow vm t i) = pt_next vm + 1"
    "kernel_pt (grow vm t i) = kernel_pt vm" "kheap (grow vm t i) = kheap vm" "phys (grow vm t i) = phys vm"
  by (simp_all add: grow_def pt_alloc_some [OF assms])

lemma grow_pool:
  assumes "pt_next vm < 64"
  shows "pool_table (grow vm t i) = pool_table vm"
    "pool (grow vm t i) = insert (pool_table vm (pt_next vm)) (pool vm)"
    "tables (grow vm t i) = insert (pool_table vm (pt_next vm)) (tables vm)"
proof -
  show p: "pool_table (grow vm t i) = pool_table vm"
    by (simp add: fun_eq_iff pool_table_def grow_fields [OF assms])
  then show q: "pool (grow vm t i) = insert (pool_table vm (pt_next vm)) (pool vm)"
    by (simp add: pool_def grow_fields [OF assms] lessThan_Suc)
  show "tables (grow vm t i) = insert (pool_table vm (pt_next vm)) (tables vm)"
    using q by (auto simp: tables_def grow_fields [OF assms])
qed

lemma grow_pool_ok: "pool_ok vm \<Longrightarrow> pt_next vm < 64 \<Longrightarrow> pool_ok (grow vm t i)"
  by (simp add: pool_ok_def grow_pool grow_fields)

lemma grow_ptes:
  assumes "pool_ok vm" "pt_next vm < 64" "t \<in> tables vm"
  shows "ptes (grow vm t i) x j =
    (if x = t \<and> j = i then table_pte (pool_table vm (pt_next vm))
     else if x = pool_table vm (pt_next vm) then 0 else ptes vm x j)"
  using fresh_table [OF assms(1,2)] assms(2,3) by (auto simp: grow_def set_pte_def pt_alloc_some)

lemma grow_kids:
  assumes "pool_ok vm" "pt_next vm < 64" "t \<in> tables vm" "i < 512" "\<not> pte_valid (ptes vm t i)"
  shows "kids (grow vm t i) x =
    (if x = t then insert (pool_table vm (pt_next vm)) (kids vm t)
     else if x = pool_table vm (pt_next vm) then {} else kids vm x)"
proof -
  let ?f = "pool_table vm (pt_next vm)"
  have f: "?f \<notin> tables vm" "aligned ?f"
    using fresh_table [OF assms(1,2)] pool_table_aligned [OF assms(1,2)] by auto
  have "kids (grow vm t i) t = insert ?f (kids vm t)"
  proof (rule set_eqI, rule iffI)
    fix c
    assume "c \<in> kids (grow vm t i) t"
    then show "c \<in> insert ?f (kids vm t)"
      using f assms(3) by (auto simp: kids_def grow_ptes [OF assms(1-3)] split: if_splits)
  next
    fix c
    assume c: "c \<in> insert ?f (kids vm t)"
    show "c \<in> kids (grow vm t i) t"
    proof (cases "c = ?f")
      case True
      with f(2) assms(4) show ?thesis
        unfolding kids_def by (auto simp: grow_ptes [OF assms(1-3)] intro!: exI [of _ i])
    next
      case False
      with c obtain j where "j < 512" "pte_valid (ptes vm t j)" "c = vm_pte_pa (ptes vm t j)"
        by (auto simp: kids_def)
      moreover from this assms(5) have "j \<noteq> i" by auto
      ultimately show ?thesis
        using f assms(3) unfolding kids_def by (auto simp: grow_ptes [OF assms(1-3)])
    qed
  qed
  moreover have "kids (grow vm t i) ?f = {}" if "?f \<noteq> t"
    using that by (intro kids_empty) (simp add: grow_ptes [OF assms(1-3)])
  moreover have "kids (grow vm t i) x = kids vm x" if "x \<noteq> t" "x \<noteq> ?f"
    using that by (intro kids_cong) (simp add: grow_ptes [OF assms(1-3)])
  ultimately show ?thesis by auto
qed

lemma grow_slot_inj:
  assumes "pool_ok vm" "pt_next vm < 64" "t \<in> tables vm" "slot_inj vm x" "kids vm x \<subseteq> pool vm"
  shows "slot_inj (grow vm t i) x"
proof -
  let ?f = "pool_table vm (pt_next vm)"
  have f: "?f \<notin> pool vm" "aligned ?f"
    using fresh_table [OF assms(1,2)] pool_table_aligned [OF assms(1,2)] by (auto simp: tables_def)
  have nf: "vm_pte_pa (ptes vm x j) \<noteq> ?f" if "j < 512" "pte_valid (ptes vm x j)" for j
    using that assms(5) f(1) by (auto simp: kids_def)
  have inj: "j = k" if "j < 512" "k < 512" "pte_valid (ptes vm x j)" "pte_valid (ptes vm x k)"
      "vm_pte_pa (ptes vm x j) = vm_pte_pa (ptes vm x k)" for j k
    using that assms(4) by (auto simp: slot_inj_def inj_on_def)
  show ?thesis
  proof (cases "x = t")
    case True
    show ?thesis
      unfolding slot_inj_def
    proof (rule inj_onI, clarsimp)
      fix j k
      assume "j < 512" "k < 512" "pte_valid (ptes (grow vm t i) x j)" "pte_valid (ptes (grow vm t i) x k)"
        "vm_pte_pa (ptes (grow vm t i) x j) = vm_pte_pa (ptes (grow vm t i) x k)"
      then show "j = k"
        using True nf [of j] nf [of k] inj [of j k] f fresh_table [OF assms(1,2)] assms(3)
        by (cases "j = i"; cases "k = i") (auto simp: grow_ptes [OF assms(1-3)] split: if_splits)
    qed
  next
    case False
    show ?thesis
    proof (cases "x = ?f")
      case True
      with False have "kids (grow vm t i) x = {}"
        by (intro kids_empty) (simp add: grow_ptes [OF assms(1-3)])
      then show ?thesis by (rule slot_inj_empty)
    next
      case nf: False
      with False have "slot_inj (grow vm t i) x = slot_inj vm x"
        by (intro slot_inj_cong) (simp add: grow_ptes [OF assms(1-3)])
      with assms(4) show ?thesis by simp
    qed
  qed
qed

lemma grow_tree:
  assumes "pool_ok vm" "pt_next vm < 64" "pt_tree vm r" "t = r \<or> t \<in> kids vm r" "i < 512" "\<not> pte_valid (ptes vm t i)"
  shows "pt_tree (grow vm t i) r"
proof -
  let ?f = "pool_table vm (pt_next vm)"
  have t: "t \<in> tables vm" using assms(3,4) by (auto simp: pt_tree_def tables_def)
  have f: "?f \<notin> tables vm" using fresh_table [OF assms(1,2)] .
  note k = grow_kids [OF assms(1,2) t assms(5,6)]
  note D = pt_treeD [OF assms(3)]
  have inj: "slot_inj (grow vm t i) r" "\<And>u. u \<in> kids vm r \<Longrightarrow> slot_inj (grow vm t i) u"
    using grow_slot_inj [OF assms(1,2) t] D by blast+
  have fk: "kids (grow vm t i) ?f = {}" using k f t by auto
  note fi = slot_inj_empty [OF fk]
  have kt: "kids (grow vm t i) t = insert ?f (kids vm t)" using k by simp
  have ku: "kids (grow vm t i) u = kids vm u" if "u \<in> tables vm" "u \<noteq> t" for u using k f that by auto
  have sub: "u \<in> tables vm" if "u \<in> kids vm r" for u using that D(3) by (auto simp: tables_def)
  note P = grow_pool [OF assms(2)]
  show ?thesis
  proof (cases "t = r")
    case True
    have kr: "kids (grow vm t i) r = insert ?f (kids vm r)" using kt True by simp
    have ko: "kids (grow vm t i) u = kids vm u" if "u \<in> kids vm r" for u
      using ku [OF sub [OF that]] that D(3) True by auto
    show ?thesis
    proof (rule pt_treeI)
      fix u
      assume "u \<in> kids (grow vm t i) r"
      then show "kids (grow vm t i) u \<subseteq> pool (grow vm t i) - insert r (kids (grow vm t i) r)"
        using kr fk ko D(5) [of u] f P by (cases "u = ?f") (auto simp: tables_def)
    next
      fix u v
      assume "u \<in> kids (grow vm t i) r" "v \<in> kids (grow vm t i) r" "u \<noteq> v"
      then show "kids (grow vm t i) u \<inter> kids (grow vm t i) v = {}"
        using kr fk ko D(6) [of u v] by (cases "u = ?f"; cases "v = ?f") auto
    qed (use kr fk ko fi inj D f P t True in \<open>auto simp: tables_def\<close>)
  next
    case False
    then have tk: "t \<in> kids vm r" using assms(4) by simp
    have kr: "kids (grow vm t i) r = kids vm r" using ku [OF D(1)] False by auto
    have ko: "kids (grow vm t i) u = kids vm u" if "u \<in> kids vm r" "u \<noteq> t" for u
      using ku [OF sub [OF that(1)] that(2)] .
    have nf: "?f \<notin> kids vm u" if "u \<in> kids vm r" for u using D(5) [OF that] f by (auto simp: tables_def)
    show ?thesis
    proof (rule pt_treeI)
      fix u
      assume "u \<in> kids (grow vm t i) r"
      then show "kids (grow vm t i) u \<subseteq> pool (grow vm t i) - insert r (kids (grow vm t i) r)"
        using kr kt ko D(1,3) D(5) [of u] f P by (cases "u = t") (auto simp: tables_def)
    next
      fix u v
      assume "u \<in> kids (grow vm t i) r" "v \<in> kids (grow vm t i) r" "u \<noteq> v"
      then show "kids (grow vm t i) u \<inter> kids (grow vm t i) v = {}"
        using kr kt ko D(6) [of u v] nf by (cases "u = t"; cases "v = t") auto
    qed (use kr inj D P in auto)
  qed
qed

lemma reachable_pools:
  assumes "pt_tree vm q" "t \<in> kids vm q"
  shows "t \<in> pool vm" "t \<noteq> q" "kids vm t \<subseteq> pool vm"
  using pt_treeD [OF assms(1)] assms(2) by blast+

lemma kidI: "i < 512 \<Longrightarrow> pte_valid (ptes vm t i) \<Longrightarrow> vm_pte_pa (ptes vm t i) \<in> kids vm t"
  by (auto simp: kids_def)

lemma grow_leaf:
  assumes "pool_ok vm" "pt_next vm < 64" "pt_tree vm q" "t \<in> tables vm" "\<And>u. u \<in> kids vm q \<Longrightarrow> t \<notin> kids vm u"
    and "\<not> pte_valid (ptes vm t i)"
  shows "leaf (grow vm t i) q va = leaf vm q va"
proof -
  let ?f = "pool_table vm (pt_next vm)" and ?g = "grow vm t i"
  note G = grow_ptes [OF assms(1,2,4)]
  have f: "?f \<notin> tables vm" "aligned ?f" using fresh_table [OF assms(1,2)] pool_table_aligned [OF assms(1,2)] .
  have gf: "ptes ?g ?f j = 0" for j using G f assms(4) by auto
  have q: "q \<noteq> ?f" using pt_treeD(1) [OF assms(3)] f by auto
  let ?e2 = "ptes vm q (vpn 2 va)"
  show ?thesis
  proof (cases "pte_valid ?e2")
    case False
    have "leaf ?g q va = None"
    proof (cases "q = t \<and> vpn 2 va = i")
      case True
      then have "ptes ?g q (vpn 2 va) = table_pte ?f" by (simp add: G)
      with gf f(2) show ?thesis by (intro leaf_None1) simp
    next
      case ne: False
      then have "ptes ?g q (vpn 2 va) = ?e2" using q by (auto simp: G)
      with False show ?thesis by (intro leaf_None2) simp
    qed
    with False show ?thesis by (simp add: leaf_None2)
  next
    case True
    let ?t1 = "vm_pte_pa ?e2"
    have k1: "?t1 \<in> kids vm q" using True by (intro kidI) simp_all
    then have t1: "?t1 \<noteq> ?f" using reachable_pools [OF assms(3)] f by (auto simp: tables_def)
    have e2: "ptes ?g q (vpn 2 va) = ?e2" using q True assms(6) by (auto simp: G)
    let ?e1 = "ptes vm ?t1 (vpn 1 va)"
    show ?thesis
    proof (cases "pte_valid ?e1")
      case False
      have "leaf ?g q va = None"
      proof (cases "?t1 = t \<and> vpn 1 va = i")
        case True
        then have "ptes ?g ?t1 (vpn 1 va) = table_pte ?f" by (simp add: G)
        with gf f(2) e2 show ?thesis by (intro leaf_None0) simp
      next
        case ne: False
        then have "ptes ?g ?t1 (vpn 1 va) = ?e1" using t1 by (auto simp: G)
        with False e2 show ?thesis by (intro leaf_None1) simp
      qed
      with False show ?thesis by (simp add: leaf_None1)
    next
      case v1: True
      let ?t0 = "vm_pte_pa ?e1"
      have k0: "?t0 \<in> kids vm ?t1" using v1 by (intro kidI) simp_all
      then have t0: "?t0 \<noteq> ?f" "?t0 \<noteq> t" using reachable_pools [OF assms(3) k1] f assms(5) [OF k1] by (auto simp: tables_def)
      have "ptes ?g ?t1 (vpn 1 va) = ?e1" using t1 v1 assms(6) by (auto simp: G)
      moreover have "ptes ?g ?t0 (vpn 0 va) = ptes vm ?t0 (vpn 0 va)" using t0 by (simp add: G)
      ultimately show ?thesis using e2 by (simp add: leaf_unfold Let_def)
    qed
  qed
qed

subsection \<open>Frames\<close>

definition reach :: "vm \<Rightarrow> u64 \<Rightarrow> u64 set" where
  "reach vm q = insert q (kids vm q \<union> \<Union> (kids vm ` kids vm q))"

lemma reach_kids: "u \<in> kids vm q \<Longrightarrow> u \<in> reach vm q \<and> kids vm u \<subseteq> reach vm q"
  by (auto simp: reach_def)

lemma reach_tables: "pt_tree vm q \<Longrightarrow> reach vm q \<subseteq> tables vm"
  using pt_treeD(1,3) [of vm q] pt_treeD(5) [of vm q] by (fastforce simp: reach_def tables_def)

lemma tree_frame:
  assumes "pt_tree vm q" "\<And>x j. x \<in> reach vm q \<Longrightarrow> j < 512 \<Longrightarrow> ptes vm' x j = ptes vm x j"
    and "pool vm \<subseteq> pool vm'" "tables vm \<subseteq> tables vm'"
  shows "pt_tree vm' q \<and> reach vm' q = reach vm q \<and> leaf vm' q va = leaf vm q va"
proof -
  note D = pt_treeD [OF assms(1)]
  have k: "kids vm' x = kids vm x" "slot_inj vm' x = slot_inj vm x" if "x \<in> reach vm q" for x
    using assms(2) [OF that] by (auto intro!: kids_cong slot_inj_cong)
  have q: "q \<in> reach vm q" by (simp add: reach_def)
  have u: "kids vm' u = kids vm u" "slot_inj vm' u = slot_inj vm u" if "u \<in> kids vm q" for u
    using k reach_kids [OF that] by auto
  have kq: "kids vm' q = kids vm q" using k(1) [OF q] .
  have "pt_tree vm' q"
  proof (rule pt_treeI)
    show "q \<in> tables vm'" using D(1) assms(4) by auto
    show "slot_inj vm' q" using D(2) k(2) [OF q] by simp
    show "kids vm' q \<subseteq> pool vm' - {q}" using D(3) assms(3) kq by auto
  next
    fix t
    assume t: "t \<in> kids vm' q"
    then show "slot_inj vm' t" using D(4) u(2) kq by simp
    show "kids vm' t \<subseteq> pool vm' - insert q (kids vm' q)" using t D(5) [of t] u(1) [of t] assms(3) kq by auto
  next
    fix t w
    assume "t \<in> kids vm' q" "w \<in> kids vm' q" "t \<noteq> w"
    then show "kids vm' t \<inter> kids vm' w = {}" using D(6) [of t w] u(1) kq by simp
  qed
  moreover have "reach vm' q = reach vm q" using k(1) [OF q] u(1) by (simp add: reach_def)
  moreover have "leaf vm' q va = leaf vm q va"
  proof -
    let ?e2 = "ptes vm q (vpn 2 va)"
    have e2: "ptes vm' q (vpn 2 va) = ?e2" using assms(2) [OF q] by simp
    have e1: "ptes vm' (vm_pte_pa ?e2) j = ptes vm (vm_pte_pa ?e2) j" if "pte_valid ?e2" "j < 512" for j
      using kidI [OF _ that(1)] reach_kids assms(2) that(2) by simp
    let ?e1 = "ptes vm (vm_pte_pa ?e2) (vpn 1 va)"
    have "ptes vm' (vm_pte_pa ?e1) j = ptes vm (vm_pte_pa ?e1) j" if "pte_valid ?e2" "pte_valid ?e1" "j < 512" for j
      using kidI [OF _ that(1)] kidI [OF _ that(2)] reach_kids [of "vm_pte_pa ?e2" vm q] assms(2) that(3) by (simp add: subset_iff)
    with e2 e1 show ?thesis by (auto simp: leaf_unfold Let_def)
  qed
  ultimately show ?thesis by simp
qed

text \<open>Root slot \<open>i\<close> of \<open>r\<close> is private with respect to \<open>q\<close>: \<open>q\<close> reaches neither \<open>r\<close> nor a table below it.\<close>

definition private_slot :: "vm \<Rightarrow> u64 \<Rightarrow> nat \<Rightarrow> u64 \<Rightarrow> bool" where
  "private_slot vm r i q \<longleftrightarrow> r \<notin> reach vm q \<and>
     (pte_valid (ptes vm r i) \<longrightarrow>
        vm_pte_pa (ptes vm r i) \<notin> reach vm q \<and> kids vm (vm_pte_pa (ptes vm r i)) \<inter> reach vm q = {})"

lemma grow_frame:
  assumes "pool_ok vm" "pt_next vm < 64" "pt_tree vm q" "t \<in> tables vm" "t \<notin> reach vm q"
  shows "pt_tree (grow vm t i) q \<and> reach (grow vm t i) q = reach vm q \<and> leaf (grow vm t i) q va = leaf vm q va"
proof (rule tree_frame [OF assms(3)])
  fix x j
  assume "x \<in> reach vm q"
  then have "x \<noteq> t" "x \<noteq> pool_table vm (pt_next vm)"
    using assms(5) reach_tables [OF assms(3)] fresh_table [OF assms(1,2)] by auto
  then show "ptes (grow vm t i) x j = ptes vm x j" by (simp add: grow_ptes [OF assms(1,2,4)])
qed (auto simp: grow_pool [OF assms(2)])

lemma set_pte_frame:
  assumes "pt_tree vm q" "t \<notin> reach vm q"
  shows "pt_tree (set_pte vm (t, i) v) q \<and> reach (set_pte vm (t, i) v) q = reach vm q \<and>
    leaf (set_pte vm (t, i) v) q va = leaf vm q va"
  by (rule tree_frame [OF assms(1)]) (use assms(2) in \<open>auto simp: set_pte_def pool_def tables_def pool_table_def\<close>)

subsection \<open>Walking with allocation\<close>

text \<open>
  \<open>evolves vm vm' r i\<close>: from \<open>vm\<close> to \<open>vm'\<close> only empty tables were added below root slot \<open>i\<close> of
  \<open>r\<close>.  No translation changes, neither under \<open>r\<close> nor under a root for which the slot is
  private, and it stays private.
\<close>

definition unchanged :: "vm \<Rightarrow> vm \<Rightarrow> u64 set \<Rightarrow> bool" where
  "unchanged vm vm' S \<longleftrightarrow> (\<forall>x \<in> S. ptes vm' x = ptes vm x)"

definition evolves :: "vm \<Rightarrow> vm \<Rightarrow> u64 \<Rightarrow> nat \<Rightarrow> bool" where
  "evolves vm vm' r i \<longleftrightarrow> pool_ok vm' \<and> pt_tree vm' r \<and> (\<forall>va. leaf vm' r va = leaf vm r va) \<and>
     reach vm' r \<subseteq> reach vm r \<union> (tables vm' - tables vm) \<and> pool vm \<subseteq> pool vm' \<and> tables vm \<subseteq> tables vm' \<and>
     (\<forall>x j. x \<in> tables vm \<and> pte_valid (ptes vm x j) \<longrightarrow> ptes vm' x j = ptes vm x j) \<and>
     (\<forall>q. pt_tree vm q \<and> private_slot vm r i q \<longrightarrow> private_slot vm' r i q \<and> unchanged vm vm' (reach vm q)) \<and>
     phys vm' = phys vm \<and> kheap vm' = kheap vm \<and> kernel_pt vm' = kernel_pt vm"

lemma unchanged_frame:
  assumes "pt_tree vm q" "unchanged vm vm' (reach vm q)" "pool vm \<subseteq> pool vm'" "tables vm \<subseteq> tables vm'"
  shows "pt_tree vm' q \<and> reach vm' q = reach vm q \<and> leaf vm' q va = leaf vm q va"
  by (rule tree_frame [OF assms(1) _ assms(3,4)]) (use assms(2) in \<open>simp add: unchanged_def\<close>)

lemma evolves_refl: "pool_ok vm \<Longrightarrow> pt_tree vm r \<Longrightarrow> evolves vm vm r i"
  by (simp add: evolves_def unchanged_def)

lemma evolves_trans:
  assumes "evolves vm vm1 r i" "evolves vm1 vm2 r i"
  shows "evolves vm vm2 r i"
proof -
  have "private_slot vm2 r i q \<and> unchanged vm vm2 (reach vm q)" if "pt_tree vm q" "private_slot vm r i q" for q
  proof -
    have u: "private_slot vm1 r i q" "unchanged vm vm1 (reach vm q)" using assms(1) that by (auto simp: evolves_def)
    then have "pt_tree vm1 q" "reach vm1 q = reach vm q"
      using unchanged_frame [OF that(1) u(2)] assms(1) by (auto simp: evolves_def)
    with u assms(2) show ?thesis by (auto simp: evolves_def unchanged_def)
  qed
  moreover have "reach vm2 r \<subseteq> reach vm r \<union> (tables vm2 - tables vm)"
    using assms by (auto simp: evolves_def)
  moreover have "ptes vm2 x j = ptes vm x j" if "x \<in> tables vm" "pte_valid (ptes vm x j)" for x j
  proof -
    have "ptes vm1 x j = ptes vm x j" "x \<in> tables vm1" using assms(1) that by (auto simp: evolves_def)
    with that assms(2) show ?thesis by (auto simp: evolves_def)
  qed
  ultimately show ?thesis using assms by (simp add: evolves_def) blast
qed

lemma grow_reach:
  assumes "pool_ok vm" "pt_next vm < 64" "pt_tree vm r" "t = r \<or> t \<in> kids vm r" "i < 512" "\<not> pte_valid (ptes vm t i)"
  shows "reach (grow vm t i) r \<subseteq> insert (pool_table vm (pt_next vm)) (reach vm r)"
proof -
  let ?f = "pool_table vm (pt_next vm)"
  have t: "t \<in> tables vm" using assms(3,4) by (auto simp: pt_tree_def tables_def)
  note k = grow_kids [OF assms(1,2) t assms(5,6)]
  have sub: "kids (grow vm t i) x \<subseteq> insert ?f (kids vm x)" for x using k by auto
  have "kids (grow vm t i) ?f = {}" using k fresh_table [OF assms(1,2)] t by auto
  then have u: "\<Union> (kids (grow vm t i) ` insert ?f (kids vm r)) \<subseteq> insert ?f (\<Union> (kids vm ` kids vm r))"
    using sub by auto
  have "\<Union> (kids (grow vm t i) ` kids (grow vm t i) r) \<subseteq> insert ?f (\<Union> (kids vm ` kids vm r))"
    by (rule order_trans [OF _ u]) (use sub [of r] in auto)
  then show ?thesis using sub [of r] by (auto simp: reach_def)
qed

lemma evolves_grow:
  assumes "pool_ok vm" "pt_next vm < 64" "pt_tree vm r" "t = r \<or> t \<in> kids vm r" "j < 512" "\<not> pte_valid (ptes vm t j)"
    and "\<And>q. pt_tree vm q \<Longrightarrow> private_slot vm r i q \<Longrightarrow> t \<notin> reach vm q \<and> private_slot (grow vm t j) r i q"
  shows "evolves vm (grow vm t j) r i"
proof -
  let ?f = "pool_table vm (pt_next vm)" and ?g = "grow vm t j"
  note D = pt_treeD [OF assms(3)] and P = grow_pool [OF assms(2)]
  have t: "t \<in> tables vm" using assms(4) D(1,3) by (auto simp: tables_def)
  have f: "?f \<notin> tables vm" using fresh_table [OF assms(1,2)] .
  have "leaf ?g r va = leaf vm r va" for va
    using D(5) assms(4) by (intro grow_leaf [OF assms(1-3) t _ assms(6)]) blast
  moreover have "unchanged vm ?g (reach vm q)" if "pt_tree vm q" "private_slot vm r i q" for q
    using assms(7) [OF that] reach_tables [OF that(1)] f
    by (auto simp: unchanged_def fun_eq_iff grow_ptes [OF assms(1,2) t])
  moreover have "ptes ?g x k = ptes vm x k" if "x \<in> tables vm" "pte_valid (ptes vm x k)" for x k
    using that f assms(6) by (auto simp: grow_ptes [OF assms(1,2) t])
  ultimately show ?thesis
    using grow_tree [OF assms(1-6)] grow_reach [OF assms(1-6)] grow_pool_ok [OF assms(1,2)] assms(7) P f
    by (auto simp: evolves_def grow_fields [OF assms(2)])
qed

lemma evolves_grow_root:
  assumes "pool_ok vm" "pt_next vm < 64" "pt_tree vm r" "i < 512" "\<not> pte_valid (ptes vm r i)"
  shows "evolves vm (grow vm r i) r i"
proof (rule evolves_grow [OF assms(1-3) _ assms(4,5)])
  fix q
  assume q: "pt_tree vm q" "private_slot vm r i q"
  let ?f = "pool_table vm (pt_next vm)" and ?g = "grow vm r i"
  have rt: "r \<in> tables vm" using pt_treeD(1) [OF assms(3)] .
  have f: "?f \<notin> tables vm" "aligned ?f" using fresh_table [OF assms(1,2)] pool_table_aligned [OF assms(1,2)] .
  have r: "r \<notin> reach vm q" using q(2) by (simp add: private_slot_def)
  have "reach ?g q = reach vm q" using grow_frame [OF assms(1,2) q(1) rt r] by auto
  moreover have "ptes ?g r i = table_pte ?f" by (simp add: grow_ptes [OF assms(1,2) rt])
  moreover have "?f \<notin> reach vm q" using reach_tables [OF q(1)] f(1) by auto
  moreover have "kids ?g ?f = {}" using grow_kids [OF assms(1,2) rt assms(4,5)] f(1) rt by auto
  ultimately show "r \<notin> reach vm q \<and> private_slot ?g r i q" using r f(2) by (simp add: private_slot_def)
qed simp

lemma evolves_grow_mid:
  assumes "pool_ok vm" "pt_next vm < 64" "pt_tree vm r" "i < 512" "pte_valid (ptes vm r i)"
    and "j < 512" "\<not> pte_valid (ptes vm (vm_pte_pa (ptes vm r i)) j)"
  shows "evolves vm (grow vm (vm_pte_pa (ptes vm r i)) j) r i"
proof (rule evolves_grow [OF assms(1-3) _ assms(6,7)])
  let ?t = "vm_pte_pa (ptes vm r i)" and ?f = "pool_table vm (pt_next vm)"
  let ?g = "grow vm ?t j"
  have tk: "?t \<in> kids vm r" using assms(4,5) by (rule kidI)
  then show "?t = r \<or> ?t \<in> kids vm r" by simp
  fix q
  assume q: "pt_tree vm q" "private_slot vm r i q"
  have tt: "?t \<in> tables vm" "r \<noteq> ?t" using tk pt_treeD(3) [OF assms(3)] by (auto simp: tables_def)
  have f: "?f \<notin> tables vm" using fresh_table [OF assms(1,2)] .
  have r: "r \<notin> reach vm q" "?t \<notin> reach vm q" "kids vm ?t \<inter> reach vm q = {}"
    using q(2) assms(5) by (auto simp: private_slot_def)
  have "r \<noteq> ?f" using pt_treeD(1) [OF assms(3)] f by auto
  then have "ptes ?g r i = ptes vm r i" using tt(2) by (simp add: grow_ptes [OF assms(1,2) tt(1)])
  moreover have "reach ?g q = reach vm q" using grow_frame [OF assms(1,2) q(1) tt(1) r(2)] by auto
  moreover have "?f \<notin> reach vm q" using reach_tables [OF q(1)] f by auto
  moreover have "kids ?g ?t = insert ?f (kids vm ?t)"
    using grow_kids [OF assms(1,2) tt(1) assms(6,7), of ?t] by simp
  ultimately show "?t \<notin> reach vm q \<and> private_slot ?g r i q" using r by (simp add: private_slot_def)
qed

definition walk_path :: "vm \<Rightarrow> u64 \<Rightarrow> u64 \<Rightarrow> u64 \<times> nat \<Rightarrow> bool" where
  "walk_path vm r va slot \<longleftrightarrow> pte_valid (ptes vm r (vpn 2 va)) \<and>
     pte_valid (ptes vm (vm_pte_pa (ptes vm r (vpn 2 va))) (vpn 1 va)) \<and>
     slot = (vm_pte_pa (ptes vm (vm_pte_pa (ptes vm r (vpn 2 va))) (vpn 1 va)), vpn 0 va)"

lemma walk_level1:
  assumes "pool_ok vm" "pt_tree vm r" "pte_valid (ptes vm r (vpn 2 va))"
    and "vm_walk_loop vm (vm_pte_pa (ptes vm r (vpn 2 va))) va True 1 = (vm', res)"
  shows "evolves vm vm' r (vpn 2 va) \<and> (\<forall>slot. res = Some slot \<longrightarrow> walk_path vm' r va slot)"
proof -
  let ?t = "vm_pte_pa (ptes vm r (vpn 2 va))" and ?f = "pool_table vm (pt_next vm)"
  consider (valid) "pte_valid (ptes vm ?t (vpn 1 va))" | (full) "\<not> pte_valid (ptes vm ?t (vpn 1 va))" "pt_next vm \<ge> 64"
    | (new) "\<not> pte_valid (ptes vm ?t (vpn 1 va))" "pt_next vm < 64" by linarith
  then show ?thesis
  proof cases
    case valid
    with assms show ?thesis by (auto simp: get_pte_def walk_path_def evolves_refl)
  next
    case full
    with assms show ?thesis by (auto simp: get_pte_def evolves_refl pt_alloc_full)
  next
    case new
    let ?g = "grow vm ?t (vpn 1 va)"
    have tk: "?t \<in> kids vm r" using assms(3) by (intro kidI) simp_all
    then have tt: "?t \<in> tables vm" using pt_treeD(3) [OF assms(2)] by (auto simp: tables_def)
    have e: "vm' = ?g" "res = Some (?f, vpn 0 va)"
      using assms(4) new by (auto simp: get_pte_def pt_alloc_some grow_def)
    have ne: "r \<noteq> ?t" "r \<noteq> ?f" using tk pt_treeD(1,3) [OF assms(2)] fresh_table [OF assms(1) new(2)] by auto
    have "ptes ?g r (vpn 2 va) = ptes vm r (vpn 2 va)" "ptes ?g ?t (vpn 1 va) = table_pte ?f"
      using ne by (simp_all add: grow_ptes [OF assms(1) new(2) tt])
    then have "walk_path ?g r va (?f, vpn 0 va)"
      using assms(3) pool_table_aligned [OF assms(1) new(2)] by (simp add: walk_path_def)
    moreover have "evolves vm ?g r (vpn 2 va)"
      using evolves_grow_mid [OF assms(1) new(2) assms(2) _ assms(3) _ new(1)] by simp
    ultimately show ?thesis using e by simp
  qed
qed

lemma walk_alloc:
  assumes "pool_ok vm" "pt_tree vm r" "vm_walk vm r va True = (vm', res)"
  shows "evolves vm vm' r (vpn 2 va) \<and> (\<forall>slot. res = Some slot \<longrightarrow> walk_path vm' r va slot)"
proof -
  let ?f = "pool_table vm (pt_next vm)"
  consider (valid) "pte_valid (ptes vm r (vpn 2 va))" | (full) "\<not> pte_valid (ptes vm r (vpn 2 va))" "pt_next vm \<ge> 64"
    | (new) "\<not> pte_valid (ptes vm r (vpn 2 va))" "pt_next vm < 64" by linarith
  then show ?thesis
  proof cases
    case valid
    then have "vm_walk_loop vm (vm_pte_pa (ptes vm r (vpn 2 va))) va True 1 = (vm', res)"
      using assms(3) by (simp add: vm_walk_def numeral_2_eq_2 get_pte_def Let_def)
    from walk_level1 [OF assms(1,2) valid this] show ?thesis .
  next
    case full
    with assms show ?thesis
      by (auto simp: vm_walk_def numeral_2_eq_2 get_pte_def evolves_refl pt_alloc_full)
  next
    case new
    let ?g = "grow vm r (vpn 2 va)"
    have r: "r \<in> tables vm" using pt_treeD(1) [OF assms(2)] .
    have g: "ptes ?g r (vpn 2 va) = table_pte ?f" by (simp add: grow_ptes [OF assms(1) new(2) r])
    have a: "aligned ?f" using pool_table_aligned [OF assms(1) new(2)] .
    have ev: "evolves vm ?g r (vpn 2 va)"
      using evolves_grow_root [OF assms(1) new(2) assms(2) _ new(1)] by simp
    have "vm_walk_loop ?g ?f va True 1 = (vm', res)"
      using assms(3) new by (simp add: vm_walk_def numeral_2_eq_2 get_pte_def pt_alloc_some grow_def)
    then have "evolves ?g vm' r (vpn 2 va) \<and> (\<forall>slot. res = Some slot \<longrightarrow> walk_path vm' r va slot)"
      using ev g a by (intro walk_level1) (auto simp: evolves_def)
    with ev evolves_trans show ?thesis by blast
  qed
qed

subsection \<open>Setting a leaf\<close>

definition page_key :: "u64 \<Rightarrow> nat \<times> nat \<times> nat" where
  "page_key va = (vpn 2 va, vpn 1 va, vpn 0 va)"

lemma walk_path_kids:
  assumes "walk_path vm r va (t, i)"
  shows "vm_pte_pa (ptes vm r (vpn 2 va)) \<in> kids vm r" "t \<in> kids vm (vm_pte_pa (ptes vm r (vpn 2 va)))"
  using assms kidI [of "vpn 2 va" vm r] kidI [of "vpn 1 va" vm "vm_pte_pa (ptes vm r (vpn 2 va))"]
  by (simp_all add: walk_path_def)

lemma walk_path_unique:
  assumes "pt_tree vm r" "walk_path vm r va (t, i)" "walk_path vm r va' (t, i)"
  shows "page_key va' = page_key va"
proof -
  let ?t1 = "vm_pte_pa (ptes vm r (vpn 2 va))" and ?u1 = "vm_pte_pa (ptes vm r (vpn 2 va'))"
  note k = walk_path_kids [OF assms(2)] and k' = walk_path_kids [OF assms(3)]
  have eq: "?t1 = ?u1" using pt_treeD(6) [OF assms(1) k(1) k'(1)] k(2) k'(2) by auto
  have v: "pte_valid (ptes vm r (vpn 2 va))" "pte_valid (ptes vm r (vpn 2 va'))"
      "pte_valid (ptes vm ?t1 (vpn 1 va))" "pte_valid (ptes vm ?t1 (vpn 1 va'))"
    using assms(2,3) eq by (simp_all add: walk_path_def)
  have two: "vpn 2 va = vpn 2 va'"
    using pt_treeD(2) [OF assms(1)] eq v(1,2) by (auto simp: slot_inj_def inj_on_def)
  have "vm_pte_pa (ptes vm ?t1 (vpn 1 va)) = vm_pte_pa (ptes vm ?t1 (vpn 1 va'))"
    using assms(2,3) eq by (simp add: walk_path_def)
  then have "vpn 1 va = vpn 1 va'"
    using pt_treeD(4) [OF assms(1) k(1)] v(3,4) by (auto simp: slot_inj_def inj_on_def)
  with two assms(2,3) show ?thesis by (simp add: page_key_def walk_path_def)
qed

lemma leaf_walk:
  "leaf vm r va = (if walk_path vm r va (t, i) then (if pte_valid (ptes vm t i) then Some (ptes vm t i) else None) else leaf vm r va)"
  by (auto simp: leaf_unfold walk_path_def Let_def)

lemma leaf_no_walk: "(\<And>s. \<not> walk_path vm r va s) \<Longrightarrow> leaf vm r va = None"
  by (auto simp: leaf_unfold walk_path_def Let_def)

lemma leaf_same:
  assumes "\<And>a s. walk_path vm' r a s = walk_path vm r a s"
    and "\<And>x j. walk_path vm r va (x, j) \<Longrightarrow> ptes vm' x j = ptes vm x j"
  shows "leaf vm' r va = leaf vm r va"
proof (cases "\<exists>x j. walk_path vm r va (x, j)")
  case True
  then obtain x j where w: "walk_path vm r va (x, j)" by blast
  with leaf_walk [of vm' r va x j] leaf_walk [of vm r va x j] assms show ?thesis by simp
next
  case False
  then have "\<not> walk_path vm r va s" for s by (cases s) auto
  with assms(1) show ?thesis by (simp add: leaf_no_walk)
qed

lemma set_leaf:
  fixes v :: u64
  assumes "pool_ok vm" "pt_tree vm r" "walk_path vm r va (t, i)"
  defines "vm' \<equiv> set_pte vm (t, i) v"
  shows "pt_tree vm' r"
    and "leaf vm' r va' = (if page_key va' = page_key va then (if pte_valid v then Some v else None) else leaf vm r va')"
    and "pt_tree vm q \<Longrightarrow> private_slot vm r (vpn 2 va) q \<Longrightarrow>
           private_slot vm' r (vpn 2 va) q \<and> unchanged vm vm' (reach vm q)"
    and "reach vm' r = reach vm r"
proof -
  let ?t1 = "vm_pte_pa (ptes vm r (vpn 2 va))"
  note D = pt_treeD [OF assms(2)] and k = walk_path_kids [OF assms(3)]
  have t: "t \<noteq> r" "t \<notin> kids vm r" using D(5) [OF k(1)] k(2) by auto
  have pt: "ptes vm' x j = (if x = t \<and> j = i then v else ptes vm x j)" for x j
    by (simp add: vm'_def set_pte_def)
  have same: "kids vm' x = kids vm x" "slot_inj vm' x = slot_inj vm x" if "x \<noteq> t" for x
    using that by (auto intro!: kids_cong slot_inj_cong simp: pt)
  have p: "pool vm' = pool vm" "tables vm' = tables vm" by (simp_all add: vm'_def)
  have u: "kids vm' x = kids vm x" "slot_inj vm' x = slot_inj vm x" if "x = r \<or> x \<in> kids vm r" for x
    using same [of x] that t by auto
  show tree: "pt_tree vm' r"
  proof (rule pt_treeI)
    fix x
    assume "x \<in> kids vm' r"
    then show "slot_inj vm' x" "kids vm' x \<subseteq> pool vm' - insert r (kids vm' r)"
      using u [of r] u [of x] D(4,5) [of x] p by auto
  next
    fix x y
    assume "x \<in> kids vm' r" "y \<in> kids vm' r" "x \<noteq> y"
    then show "kids vm' x \<inter> kids vm' y = {}" using u [of r] u [of x] u [of y] D(6) [of x y] by simp
  qed (use u [of r] D p in auto)
  have w: "walk_path vm' r a s = walk_path vm r a s" for a s
  proof -
    have "ptes vm' r j = ptes vm r j" for j using t by (simp add: pt)
    moreover have "ptes vm' x j = ptes vm x j" if "x \<in> kids vm r" for x j using t that by (auto simp: pt)
    ultimately show ?thesis using kidI [of "vpn 2 a" vm r] by (auto simp: walk_path_def)
  qed
  show "leaf vm' r va' = (if page_key va' = page_key va then (if pte_valid v then Some v else None) else leaf vm r va')"
  proof (cases "page_key va' = page_key va")
    case True
    then have "walk_path vm' r va' (t, i)" using assms(3) by (simp add: w) (simp add: page_key_def walk_path_def)
    with True show ?thesis using leaf_walk [of vm' r va' t i] by (simp add: pt)
  next
    case False
    then have n: "\<not> walk_path vm r va' (t, i)" using walk_path_unique [OF assms(2,3)] by auto
    have "ptes vm' x j = ptes vm x j" if "walk_path vm r va' (x, j)" for x j using n that by (auto simp: pt)
    then have "leaf vm' r va' = leaf vm r va'"
      by (rule leaf_same [OF w])
    with False show ?thesis by simp
  qed
  show "reach vm' r = reach vm r" using u by (auto simp: reach_def)
  assume q: "pt_tree vm q" "private_slot vm r (vpn 2 va) q"
  have v2: "pte_valid (ptes vm r (vpn 2 va))" using assms(3) by (simp add: walk_path_def)
  have out: "r \<notin> reach vm q" "?t1 \<notin> reach vm q" "kids vm ?t1 \<inter> reach vm q = {}"
    using q(2) v2 by (auto simp: private_slot_def)
  have "reach vm' q = reach vm q" using set_pte_frame [OF q(1), of t i v] out(3) k(2) by (auto simp: vm'_def)
  moreover have "unchanged vm vm' (reach vm q)" using out(3) k(2) by (auto simp: unchanged_def fun_eq_iff pt)
  moreover have "ptes vm' r (vpn 2 va) = ptes vm r (vpn 2 va)" "kids vm' ?t1 = kids vm ?t1"
    using t(1) pt u(1) [of ?t1] k(1) by auto
  ultimately show "private_slot vm' r (vpn 2 va) q \<and> unchanged vm vm' (reach vm q)"
    using out by (simp add: private_slot_def)
qed

section \<open>Mapping a page\<close>

lemma vm_map_page_cases:
  assumes "pool_ok vm" "pt_tree vm r" "vm_map_page vm r va pa perm = (vm', rc)"
  shows "pool_ok vm' \<and> pt_tree vm' r \<and> (rc = 0 \<or> rc = - 1) \<and> phys vm' = phys vm \<and> kheap vm' = kheap vm \<and>
    leaf vm' r va' =
      (if rc = 0 \<and> page_key va' = page_key va then Some (push_bit 10 (drop_bit 12 pa) OR perm OR PTE_V OR PTE_STD)
       else leaf vm r va') \<and>
    (rc = 0 \<longrightarrow> leaf vm r va = None) \<and> kernel_pt vm' = kernel_pt vm \<and>
    reach vm' r \<subseteq> reach vm r \<union> (tables vm' - tables vm) \<and> pool vm \<subseteq> pool vm' \<and> tables vm \<subseteq> tables vm' \<and>
    (x \<in> tables vm \<and> pte_valid (ptes vm x j) \<longrightarrow> ptes vm' x j = ptes vm x j) \<and>
    (pt_tree vm q \<and> private_slot vm r (vpn 2 va) q \<longrightarrow>
       private_slot vm' r (vpn 2 va) q \<and> unchanged vm vm' (reach vm q))"
proof (cases "va mod 4096 \<noteq> 0 \<or> pa mod 4096 \<noteq> 0")
  case True
  with assms show ?thesis by (auto simp: vm_map_page_def unchanged_def)
next
  case False
  obtain vm1 res where w: "vm_walk vm r va True = (vm1, res)" by (cases "vm_walk vm r va True")
  from walk_alloc [OF assms(1,2) w] have ev: "evolves vm vm1 r (vpn 2 va)"
    and wp: "\<And>slot. res = Some slot \<Longrightarrow> walk_path vm1 r va slot" by auto
  have E: "pool_ok vm1" "pt_tree vm1 r" "\<And>a. leaf vm1 r a = leaf vm r a" "phys vm1 = phys vm" "kheap vm1 = kheap vm"
    "kernel_pt vm1 = kernel_pt vm" "reach vm1 r \<subseteq> reach vm r \<union> (tables vm1 - tables vm)" "pool vm \<subseteq> pool vm1"
    "tables vm \<subseteq> tables vm1" "\<And>x j. x \<in> tables vm \<Longrightarrow> pte_valid (ptes vm x j) \<Longrightarrow> ptes vm1 x j = ptes vm x j"
    "\<And>q. pt_tree vm q \<Longrightarrow> private_slot vm r (vpn 2 va) q \<Longrightarrow>
       private_slot vm1 r (vpn 2 va) q \<and> unchanged vm vm1 (reach vm q)"
    using ev by (auto simp: evolves_def)
  let ?v = "push_bit 10 (drop_bit 12 pa) OR perm OR PTE_V OR PTE_STD"
  show ?thesis
  proof (cases "\<exists>slot. res = Some slot \<and> \<not> pte_valid (get_pte vm1 slot)")
    case True
    then obtain t i where s: "res = Some (t, i)" "\<not> pte_valid (ptes vm1 t i)" by (auto simp: get_pte_def)
    have e: "vm' = set_pte vm1 (t, i) ?v" "rc = 0"
      using assms(3) False w s by (auto simp: vm_map_page_def get_pte_def)
    have v: "pte_valid ?v" by (simp add: pte_valid_bit bit_simps)
    note S = set_leaf [OF E(1,2) wp [OF s(1)]]
    have "leaf vm r va = None" using leaf_walk [of vm1 r va t i] wp [OF s(1)] s(2) E(3) by simp
    moreover have "private_slot vm' r (vpn 2 va) q \<and> unchanged vm vm' (reach vm q)"
      if "pt_tree vm q" "private_slot vm r (vpn 2 va) q"
    proof -
      note u = E(11) [OF that]
      then have "pt_tree vm1 q" "reach vm1 q = reach vm q"
        using unchanged_frame [OF that(1) _ E(8,9)] by auto
      with u S(3) [of q] e(1) show ?thesis by (auto simp: unchanged_def)
    qed
    moreover have "ptes vm' x j = ptes vm x j" if "x \<in> tables vm" "pte_valid (ptes vm x j)"
      using E(10) [OF that] that(2) s(2) e(1) by (auto simp: set_pte_def)
    ultimately show ?thesis using e v S(1,2,4) E(1-9) by auto
  next
    case no: False
    then have "vm' = vm1" "rc = - 1" using assms(3) False w by (auto simp: vm_map_page_def split: option.splits if_splits)
    with E show ?thesis by auto
  qed
qed

text \<open>C6: Mapping a page adds exactly one translation.  On a well-formed page table, \<open>vm_map_page\<close> either
  fails and changes no translation, or maps the page, which was not mapped before, to the
  given frame with the given permissions and leaves every other page of the address space as it
  was; the tables stay a tree in either case.\<close>

theorem vm_map_page_spec:
  assumes "pool_ok vm" "pt_tree vm r"
  shows "(let (vm', rc) = vm_map_page vm r va pa perm
     in pool_ok vm' \<and> pt_tree vm' r \<and>
        (if rc = 0
         then leaf vm r va = None \<and>
              (\<forall>va'. leaf vm' r va' =
                 (if page_key va' = page_key va then Some (push_bit 10 (drop_bit 12 pa) OR perm OR PTE_V OR PTE_STD)
                  else leaf vm r va'))
         else rc = - 1 \<and> (\<forall>va'. leaf vm' r va' = leaf vm r va')))"
proof -
  obtain vm' rc where e: "vm_map_page vm r va pa perm = (vm', rc)" by (cases "vm_map_page vm r va pa perm")
  from vm_map_page_cases [OF assms e] e show ?thesis by auto
qed

definition boot_vm :: vm where
  "boot_vm = \<lparr>kheap = mem_init, ptes = (\<lambda>_ _. 0), pt_base = 0x80500000, pt_next = 0, kernel_pt = 0x80400000,
     phys = (\<lambda>_. NUL)\<rparr>"

lemma boot_vm_ok [simp]: "pool_ok boot_vm"
proof -
  have "unat (pool_table boot_vm k) = 0x80500000 + k * 4096" if "k < 64" for k
    using that by (simp add: pool_table_def boot_vm_def unat_word_ariths unat_of_nat)
  moreover have "unat (kernel_pt boot_vm) = 0x80400000" by (simp add: boot_vm_def)
  ultimately have "unat (kernel_pt boot_vm) \<noteq> unat (pool_table boot_vm k)" if "k < 64" for k
    using that by simp
  then have "\<forall>k < 64. kernel_pt boot_vm \<noteq> pool_table boot_vm k" by metis
  then show ?thesis by (simp add: pool_ok_def aligned_def) (simp add: boot_vm_def)
qed

lemma boot_vm_tree [simp]: "pt_tree boot_vm (kernel_pt boot_vm)"
proof -
  have "kids boot_vm t = {}" for t by (rule kids_empty) (simp add: boot_vm_def)
  then show ?thesis by (intro pt_treeI) (auto simp: tables_def slot_inj_empty)
qed

theorem vm_map_page_spec_witness:
  "leaf (fst (vm_map_page boot_vm 0x80400000 0x40001000 0x80600000 (PTE_U OR PTE_R))) 0x80400000 0x40001234
     = Some (push_bit 10 0x80600 OR 0xd3)"
proof -
  have "snd (vm_map_page boot_vm 0x80400000 0x40001000 0x80600000 (PTE_U OR PTE_R)) = 0" by code_simp
  moreover have "page_key 0x40001234 = page_key 0x40001000" by code_simp
  moreover have "push_bit 10 (drop_bit 12 0x80600000) OR (PTE_U OR PTE_R) OR PTE_V OR PTE_STD = (push_bit 10 0x80600 OR 0xd3 :: u64)"
    by code_simp
  moreover have "kernel_pt boot_vm = 0x80400000" by (simp add: boot_vm_def)
  ultimately show ?thesis
    using vm_map_page_spec [OF boot_vm_ok boot_vm_tree, of "0x40001000" "0x80600000" "PTE_U OR PTE_R"]
    by (auto simp: case_prod_unfold Let_def)
qed

section \<open>Isolation of agents\<close>

text \<open>
  The root tables \<open>R\<close> of the agents: every root is a tree, the kernel table has nothing in root slot
  1, the gigabyte that holds all user stacks and heaps, and that slot of an agent is private
  with respect to the kernel table and to every other agent.
\<close>

definition vm_isolated :: "vm \<Rightarrow> u64 set \<Rightarrow> bool" where
  "vm_isolated vm R \<longleftrightarrow> pool_ok vm \<and> (\<forall>r \<in> insert (kernel_pt vm) R. pt_tree vm r) \<and> kernel_pt vm \<notin> R \<and>
     \<not> pte_valid (ptes vm (kernel_pt vm) 1) \<and>
     (\<forall>r \<in> R. \<forall>q \<in> insert (kernel_pt vm) R. q \<noteq> r \<longrightarrow> private_slot vm r 1 q)"

text \<open>None of this depends on the allocator or on the contents of the frames.\<close>

lemma ptes_only [simp]:
  "kids (vm\<lparr>kheap := m\<rparr>) = kids vm" "slot_inj (vm\<lparr>kheap := m\<rparr>) = slot_inj vm"
  "pool_table (vm\<lparr>kheap := m\<rparr>) = pool_table vm" "leaf (vm\<lparr>kheap := m\<rparr>) = leaf vm"
  "walk_path (vm\<lparr>kheap := m\<rparr>) = walk_path vm"
  "kids (vm\<lparr>phys := f\<rparr>) = kids vm" "slot_inj (vm\<lparr>phys := f\<rparr>) = slot_inj vm"
  "pool_table (vm\<lparr>phys := f\<rparr>) = pool_table vm" "leaf (vm\<lparr>phys := f\<rparr>) = leaf vm"
  "walk_path (vm\<lparr>phys := f\<rparr>) = walk_path vm"
  by (simp_all add: fun_eq_iff kids_def slot_inj_def pool_table_def leaf_unfold walk_path_def)

lemma pool_only [simp]:
  "pool (vm\<lparr>kheap := m\<rparr>) = pool vm" "pool (vm\<lparr>phys := f\<rparr>) = pool vm"
  "tables (vm\<lparr>kheap := m\<rparr>) = tables vm" "tables (vm\<lparr>phys := f\<rparr>) = tables vm"
  "pool_ok (vm\<lparr>kheap := m\<rparr>) = pool_ok vm" "pool_ok (vm\<lparr>phys := f\<rparr>) = pool_ok vm"
  by (simp_all add: pool_def tables_def pool_ok_def)

lemma tree_only [simp]:
  "pt_tree (vm\<lparr>kheap := m\<rparr>) = pt_tree vm" "pt_tree (vm\<lparr>phys := f\<rparr>) = pt_tree vm"
  "reach (vm\<lparr>kheap := m\<rparr>) = reach vm" "reach (vm\<lparr>phys := f\<rparr>) = reach vm"
  by (simp_all add: fun_eq_iff pt_tree_def reach_def)

lemma isolated_only [simp]:
  "private_slot (vm\<lparr>kheap := m\<rparr>) = private_slot vm" "vm_isolated (vm\<lparr>kheap := m\<rparr>) = vm_isolated vm"
  by (simp_all add: fun_eq_iff private_slot_def vm_isolated_def)

definition new_root :: "vm \<Rightarrow> vm" where
  "new_root vm = fst (vm_create_agent_pt vm)"

lemma vm_create_full: "pt_next vm \<ge> 64 \<Longrightarrow> vm_create_agent_pt vm = (vm, 0)"
  by (simp add: vm_create_agent_pt_def pt_alloc_full)

lemma vm_create_some:
  assumes "pool_ok vm" "pt_next vm < 64"
  shows "snd (vm_create_agent_pt vm) = pool_table vm (pt_next vm)"
    and "ptes (new_root vm) x j =
      (if x = pool_table vm (pt_next vm) then (if j < 512 then ptes vm (kernel_pt vm) j else 0) else ptes vm x j)"
    and "pt_base (new_root vm) = pt_base vm" "pt_next (new_root vm) = pt_next vm + 1"
    and "kernel_pt (new_root vm) = kernel_pt vm"
    and "pool (new_root vm) = insert (pool_table vm (pt_next vm)) (pool vm)"
    and "tables (new_root vm) = insert (pool_table vm (pt_next vm)) (tables vm)"
    and "pool_ok (new_root vm)"
proof -
  have k: "kernel_pt vm \<noteq> 0" "kernel_pt vm \<noteq> pool_table vm (pt_next vm)" using assms by (auto simp: pool_ok_def)
  let ?vm = "new_root vm"
  have e: "vm_create_agent_pt vm =
     (let vm1 = fst (pt_alloc vm); pt = pool_table vm (pt_next vm)
      in (vm1\<lparr>ptes := (ptes vm1)(pt := (\<lambda>i. if i < 512 then ptes vm1 (kernel_pt vm1) i else ptes vm1 pt i))\<rparr>, pt))"
    using k by (simp add: vm_create_agent_pt_def pt_alloc_some [OF assms(2)] Let_def)
  show "snd (vm_create_agent_pt vm) = pool_table vm (pt_next vm)" by (simp add: e Let_def)
  show "ptes (new_root vm) x j =
      (if x = pool_table vm (pt_next vm) then (if j < 512 then ptes vm (kernel_pt vm) j else 0) else ptes vm x j)"
    using k by (simp add: new_root_def e pt_alloc_some [OF assms(2)] Let_def)
  show f: "pt_base ?vm = pt_base vm" "pt_next ?vm = pt_next vm + 1" "kernel_pt ?vm = kernel_pt vm"
    by (simp_all add: new_root_def e pt_alloc_some [OF assms(2)] Let_def)
  then have p: "pool_table ?vm = pool_table vm" by (simp add: fun_eq_iff pool_table_def)
  then show q: "pool ?vm = insert (pool_table vm (pt_next vm)) (pool vm)"
    by (simp add: pool_def f lessThan_Suc)
  then show "tables ?vm = insert (pool_table vm (pt_next vm)) (tables vm)" using f by (auto simp: tables_def)
  show "pool_ok ?vm" using assms p f by (simp add: pool_ok_def)
qed

lemma pool_table_nonzero: "pool_ok vm \<Longrightarrow> k < 64 \<Longrightarrow> pool_table vm k \<noteq> 0"
  using unat_pool_table [of vm k] by (auto simp: pool_ok_def unat_eq_0)

lemma private_mono:
  assumes "private_slot vm r i q" "reach vm' q' \<subseteq> reach vm q \<union> N" "ptes vm' r i = ptes vm r i"
    and "pte_valid (ptes vm r i) \<Longrightarrow> kids vm' (vm_pte_pa (ptes vm r i)) = kids vm (vm_pte_pa (ptes vm r i))"
    and "r \<notin> N" "pte_valid (ptes vm r i) \<Longrightarrow> vm_pte_pa (ptes vm r i) \<notin> N \<and> kids vm (vm_pte_pa (ptes vm r i)) \<inter> N = {}"
  shows "private_slot vm' r i q'"
  using assms by (auto simp: private_slot_def)

lemma new_root_frame:
  assumes "pool_ok vm" "pt_next vm < 64" "pt_tree vm q"
  shows "pt_tree (new_root vm) q \<and> reach (new_root vm) q = reach vm q \<and> leaf (new_root vm) q va = leaf vm q va"
proof (rule tree_frame [OF assms(3)])
  fix x j
  assume "x \<in> reach vm q"
  then have "x \<noteq> pool_table vm (pt_next vm)" using reach_tables [OF assms(3)] fresh_table [OF assms(1,2)] by auto
  then show "ptes (new_root vm) x j = ptes vm x j" by (simp add: vm_create_some [OF assms(1,2)])
qed (auto simp: vm_create_some [OF assms(1,2)])

lemma new_root_tree:
  assumes "pool_ok vm" "pt_next vm < 64" "pt_tree vm (kernel_pt vm)"
  defines "f \<equiv> pool_table vm (pt_next vm)"
  shows "pt_tree (new_root vm) f" "reach (new_root vm) f \<subseteq> insert f (reach vm (kernel_pt vm))"
    and "leaf (new_root vm) f va = leaf vm (kernel_pt vm) va"
proof -
  let ?n = "new_root vm" and ?k = "kernel_pt vm"
  note D = pt_treeD [OF assms(3)] and C = vm_create_some [OF assms(1,2)]
  have f: "f \<notin> tables vm" using fresh_table [OF assms(1,2)] by (simp add: f_def)
  have kf: "kids ?n f = kids vm ?k" "slot_inj ?n f = slot_inj vm ?k"
    unfolding kids_image slot_inj_def inj_on_def by (auto simp: C(2) f_def image_def)
  have o: "kids ?n x = kids vm x" "slot_inj ?n x = slot_inj vm x" if "x \<in> tables vm" for x
    using that f by (auto intro!: kids_cong slot_inj_cong simp: C(2) f_def)
  have sub: "u \<in> tables vm" if "u \<in> kids vm ?k" for u using D(3) that by (auto simp: tables_def)
  show "pt_tree ?n f"
  proof (rule pt_treeI)
    fix t
    assume "t \<in> kids ?n f"
    then have t: "t \<in> kids vm ?k" using kf by simp
    show "slot_inj ?n t" using o [OF sub [OF t]] D(4) [OF t] by simp
    show "kids ?n t \<subseteq> pool ?n - insert f (kids ?n f)"
      using o [OF sub [OF t]] D(5) [OF t] kf f C(6) by (auto simp: tables_def)
  next
    fix t u
    assume "t \<in> kids ?n f" "u \<in> kids ?n f" "t \<noteq> u"
    then show "kids ?n t \<inter> kids ?n u = {}" using kf D(6) [of t u] o(1) sub by simp
  qed (use kf D f C in \<open>auto simp: tables_def f_def\<close>)
  show "reach ?n f \<subseteq> insert f (reach vm ?k)" using kf o(1) sub by (auto simp: reach_def)
  have "walk_path ?n f a s = walk_path vm ?k a s" for a s
    using kidI [of "vpn 2 a" vm ?k] sub f by (auto simp: walk_path_def C(2) f_def)
  show "leaf ?n f va = leaf vm ?k va"
  proof -
    let ?e2 = "ptes vm ?k (vpn 2 va)"
    have e2: "ptes ?n f (vpn 2 va) = ?e2" by (simp add: C(2) f_def)
    have e1: "ptes ?n (vm_pte_pa ?e2) j = ptes vm (vm_pte_pa ?e2) j" if "pte_valid ?e2" for j
      using kidI [OF _ that] sub f by (auto simp: C(2) f_def)
    let ?e1 = "ptes vm (vm_pte_pa ?e2) (vpn 1 va)"
    have "ptes ?n (vm_pte_pa ?e1) j = ptes vm (vm_pte_pa ?e1) j" if "pte_valid ?e2" "pte_valid ?e1" for j
    proof -
      have "vm_pte_pa ?e1 \<in> pool vm" using kidI [OF _ that(1)] kidI [OF _ that(2)] D(5) by auto
      with f show ?thesis by (auto simp: C(2) f_def tables_def)
    qed
    with e2 e1 show ?thesis by (auto simp: leaf_unfold Let_def)
  qed
qed

lemma vm_isolated_create:
  assumes "vm_isolated vm R" "pt_next vm < 64"
  defines "f \<equiv> pool_table vm (pt_next vm)"
  shows "vm_isolated (new_root vm) (insert f R)"
proof -
  let ?n = "new_root vm" and ?k = "kernel_pt vm"
  have ok: "pool_ok vm" and trees: "\<And>r. r \<in> insert ?k R \<Longrightarrow> pt_tree vm r" and kR: "?k \<notin> R"
    and k1: "\<not> pte_valid (ptes vm ?k 1)"
    and priv: "\<And>r q. r \<in> R \<Longrightarrow> q \<in> insert ?k R \<Longrightarrow> q \<noteq> r \<Longrightarrow> private_slot vm r 1 q"
    using assms(1) by (auto simp: vm_isolated_def)
  note C = vm_create_some [OF ok assms(2)] and N = new_root_tree [OF ok assms(2) trees [of ?k], simplified]
  have f: "f \<notin> tables vm" using fresh_table [OF ok assms(2)] by (simp add: f_def)
  have F: "pt_tree ?n q" "reach ?n q = reach vm q" if "q \<in> insert ?k R" for q
    using new_root_frame [OF ok assms(2) trees [OF that]] by auto
  have rt: "q \<in> tables vm" "reach vm q \<subseteq> tables vm" if "q \<in> insert ?k R" for q
    using trees [OF that] pt_treeD(1) reach_tables by auto
  have new: "private_slot ?n f 1 q" if "q \<in> insert ?k R" for q
  proof -
    have "ptes ?n f 1 = ptes vm ?k 1" by (simp add: C(2) f_def)
    moreover have "f \<notin> reach ?n q" using F(2) [OF that] rt(2) [OF that] f by auto
    ultimately show ?thesis using k1 by (simp add: private_slot_def)
  qed
  have pt_r: "ptes ?n r 1 = ptes vm r 1" if "r \<in> R" for r using rt(1) [of r] that f by (auto simp: C(2) f_def)
  have sub: "vm_pte_pa (ptes vm r 1) \<in> tables vm \<and> kids vm (vm_pte_pa (ptes vm r 1)) \<subseteq> tables vm"
    if "r \<in> R" "pte_valid (ptes vm r 1)" for r
    using rt(2) [of r] that kidI [of 1 vm r] reach_kids [of "vm_pte_pa (ptes vm r 1)" vm r] by auto
  have kid: "kids ?n x = kids vm x" if "x \<in> tables vm" for x
    using that f by (intro kids_cong) (auto simp: C(2) f_def)
  have old: "private_slot ?n r 1 q" if "r \<in> R" "q \<in> insert ?k R" "q \<noteq> r" for r q
    using priv [OF that] F(2) [OF that(2)] pt_r [OF that(1)] sub [OF that(1)] kid
    by (auto simp: private_slot_def)
  have to_new: "private_slot ?n r 1 f" if "r \<in> R" for r
  proof (rule private_mono [of vm r 1 ?k ?n f "{f}"])
    show "private_slot vm r 1 ?k" using priv [OF that, of ?k] kR that by auto
    show "reach ?n f \<subseteq> reach vm ?k \<union> {f}" using N(2) by (auto simp: f_def)
    show "r \<notin> {f}" using rt(1) [of r] that f by auto
  qed (use pt_r [OF that] sub [OF that] kid f in auto)
  have "ptes ?n ?k 1 = ptes vm ?k 1" using f by (auto simp: C(2) f_def tables_def)
  then show ?thesis
    using C(5,8) F(1) N(1) kR k1 new old to_new f rt(1)
    by (auto simp: vm_isolated_def f_def tables_def)
qed

lemma vm_isolated_map:
  assumes "vm_isolated vm R" "r \<in> R" "vpn 2 va = 1" "vm_map_page vm r va pa perm = (vm', rc)"
  shows "vm_isolated vm' R \<and> (\<forall>q \<in> insert (kernel_pt vm) R. \<forall>va'. q \<noteq> r \<longrightarrow> leaf vm' q va' = leaf vm q va')"
proof -
  let ?k = "kernel_pt vm"
  have ok: "pool_ok vm" and trees: "\<And>r. r \<in> insert ?k R \<Longrightarrow> pt_tree vm r" and kR: "?k \<notin> R"
    and k1: "\<not> pte_valid (ptes vm ?k 1)"
    and priv: "\<And>r q. r \<in> R \<Longrightarrow> q \<in> insert ?k R \<Longrightarrow> q \<noteq> r \<Longrightarrow> private_slot vm r 1 q"
    using assms(1) by (auto simp: vm_isolated_def)
  note M = vm_map_page_cases [OF ok trees [of r] assms(4), unfolded assms(3)]
  have m: "pool_ok vm'" "pt_tree vm' r" "kernel_pt vm' = ?k" "pool vm \<subseteq> pool vm'" "tables vm \<subseteq> tables vm'"
      "reach vm' r \<subseteq> reach vm r \<union> (tables vm' - tables vm)"
    using M assms(2) by auto
  have Q: "private_slot vm' r 1 q" "unchanged vm vm' (reach vm q)" if "q \<in> insert ?k R" "q \<noteq> r" for q
    using M [of _ _ _ q] trees [OF that(1)] priv [OF assms(2) that] assms(2) by auto
  have F: "pt_tree vm' q \<and> reach vm' q = reach vm q \<and> leaf vm' q va' = leaf vm q va'"
    if "q \<in> insert ?k R" "q \<noteq> r" for q va'
    using unchanged_frame [OF trees [OF that(1)] Q(2) [OF that] m(4,5)] .
  have rt: "reach vm q \<subseteq> tables vm" if "q \<in> insert ?k R" for q using reach_tables [OF trees [OF that]] .
  have old: "private_slot vm' s 1 q" if "s \<in> R" "s \<noteq> r" "q \<in> insert ?k R" "q \<noteq> s" for s q
  proof (rule private_mono [of vm s 1 q vm' q "tables vm' - tables vm"])
    let ?c = "vm_pte_pa (ptes vm s 1)"
    have sr: "s \<in> insert ?k R" using that(1) by simp
    have u: "ptes vm' x = ptes vm x" if "x \<in> reach vm s" for x
      using Q(2) [OF sr \<open>s \<noteq> r\<close>] that by (simp add: unchanged_def)
    have s: "s \<in> reach vm s" by (simp add: reach_def)
    show "private_slot vm s 1 q" using priv [OF that(1,3,4)] .
    show "reach vm' q \<subseteq> reach vm q \<union> (tables vm' - tables vm)"
      using F [OF that(3)] m(6) by (cases "q = r") auto
    show "ptes vm' s 1 = ptes vm s 1" using u [OF s] by simp
    show "s \<notin> tables vm' - tables vm" using rt [OF sr] s by auto
    assume "pte_valid (ptes vm s 1)"
    then have c: "?c \<in> kids vm s" by (intro kidI) simp_all
    show "kids vm' ?c = kids vm ?c" using u reach_kids [OF c] by (intro kids_cong) simp
    show "?c \<notin> tables vm' - tables vm \<and> kids vm ?c \<inter> (tables vm' - tables vm) = {}"
      using reach_kids [OF c] rt [OF sr] by auto
  qed
  have "?k \<noteq> r" using assms(2) kR by auto
  then have "ptes vm' ?k 1 = ptes vm ?k 1"
    using Q(2) [of ?k] by (simp add: unchanged_def reach_def)
  moreover have "private_slot vm' s 1 q" if "s \<in> R" "q \<in> insert ?k R" "q \<noteq> s" for s q
    using Q(1) [OF that(2)] old [OF that(1) _ that(2,3)] that(3) by (cases "s = r") auto
  moreover have "pt_tree vm' q" if "q \<in> insert ?k R" for q using F [OF that] m(2) by (cases "q = r") auto
  ultimately have "vm_isolated vm' R"
    using m(1,3) kR k1 by (simp add: vm_isolated_def)
  with F show ?thesis by blast
qed

text \<open>C5: Agents cannot reach each other's stacks and heaps through the page tables.  Creating an agent's
  address space keeps all existing ones isolated, and the new one translates exactly what
  the kernel table does.  Mapping a page of the user region into one agent's address space
  changes no translation of the kernel table or of any other agent, and keeps them isolated.\<close>

theorem vm_agents_isolated:
  assumes "vm_isolated vm R" "r \<in> R" "vpn 2 va = 1"
  shows "(let (vm', rc) = vm_map_page vm r va pa perm
          in vm_isolated vm' R \<and> (\<forall>q \<in> insert (kernel_pt vm) R. \<forall>va'. q \<noteq> r \<longrightarrow> leaf vm' q va' = leaf vm q va')) \<and>
    (let (vm', pt) = vm_create_agent_pt vm
     in if pt = 0 then vm' = vm
        else pt \<notin> insert (kernel_pt vm) R \<and> vm_isolated vm' (insert pt R) \<and>
             (\<forall>va'. leaf vm' pt va' = leaf vm (kernel_pt vm) va') \<and>
             (\<forall>q \<in> insert (kernel_pt vm) R. \<forall>va'. leaf vm' q va' = leaf vm q va'))"
proof -
  obtain vm1 rc where m: "vm_map_page vm r va pa perm = (vm1, rc)" by (cases "vm_map_page vm r va pa perm")
  let ?k = "kernel_pt vm" and ?f = "pool_table vm (pt_next vm)"
  have ok: "pool_ok vm" and trees: "\<And>r. r \<in> insert ?k R \<Longrightarrow> pt_tree vm r" using assms(1) by (auto simp: vm_isolated_def)
  have "let (vm', pt) = vm_create_agent_pt vm
     in if pt = 0 then vm' = vm
        else pt \<notin> insert ?k R \<and> vm_isolated vm' (insert pt R) \<and> (\<forall>va'. leaf vm' pt va' = leaf vm ?k va') \<and>
             (\<forall>q \<in> insert ?k R. \<forall>va'. leaf vm' q va' = leaf vm q va')"
  proof (cases "pt_next vm < 64")
    case True
    have e: "vm_create_agent_pt vm = (new_root vm, ?f)"
      using vm_create_some(1) [OF ok True] by (simp add: new_root_def prod_eq_iff)
    have "?f \<noteq> 0" using pool_table_nonzero [OF ok True] .
    moreover have "?f \<notin> insert ?k R" using fresh_table [OF ok True] pt_treeD(1) [OF trees] by auto
    moreover have "leaf (new_root vm) ?f va' = leaf vm ?k va'" for va'
      using new_root_tree(3) [OF ok True trees [of ?k]] by simp
    moreover have "leaf (new_root vm) q va' = leaf vm q va'" if "q \<in> insert ?k R" for q va'
      using new_root_frame [OF ok True trees [OF that]] by simp
    ultimately show ?thesis using e vm_isolated_create [OF assms(1) True] by simp
  next
    case False
    then show ?thesis by (simp add: vm_create_full)
  qed
  with m vm_isolated_map [OF assms m] show ?thesis by simp
qed

lemma boot_vm_isolated: "vm_isolated (new_root boot_vm) {0x80500000}"
proof -
  have "vm_isolated boot_vm {}" by (simp add: vm_isolated_def) (simp add: boot_vm_def)
  moreover have "pt_next boot_vm = 0" "pool_table boot_vm 0 = 0x80500000" by (simp_all add: boot_vm_def pool_table_def)
  ultimately show ?thesis using vm_isolated_create [of boot_vm "{}"] by simp
qed

theorem vm_agents_isolated_witness:
  "vm_isolated (fst (vm_map_page (new_root boot_vm) 0x80500000 0x40001000 0x80600000 22)) {0x80500000}"
proof -
  have "vpn 2 0x40001000 = 1" by code_simp
  then show ?thesis
    using vm_agents_isolated [OF boot_vm_isolated, of "0x80500000" "0x40001000" "0x80600000" 22]
    by (simp add: case_prod_unfold Let_def)
qed

section \<open>Checking user ranges\<close>

definition access_ok :: "u64 option \<Rightarrow> bool \<Rightarrow> bool" where
  "access_ok pte wr =
     (case pte of
        None \<Rightarrow> False
      | Some e \<Rightarrow> e AND PTE_U \<noteq> 0 \<and> (if wr then e AND PTE_W \<noteq> 0 else e AND PTE_R \<noteq> 0 \<or> e AND PTE_X \<noteq> 0))"

lemma vpn_round: "vpn l (va AND - 4096) = vpn l va"
proof -
  have "(- 4096 :: u64) = NOT (mask 12)" by (simp add: mask_eq_exp_minus_1)
  moreover have "drop_bit (12 + 9 * l) (va AND NOT (mask 12)) = drop_bit (12 + 9 * l) va"
    by (rule bit_eqI) (auto simp: bit_simps dest: bit_imp_le_length)
  ultimately show ?thesis by (simp add: vpn_def)
qed

lemma leaf_key: "page_key va = page_key va' \<Longrightarrow> leaf vm pt va = leaf vm pt va'"
  by (simp add: page_key_def leaf_unfold)

lemma leaf_round: "leaf vm pt (va AND NOT 4095) = leaf vm pt va"
  by (rule leaf_key) (simp add: page_key_def vpn_round)

lemma user_check_unfold:
  "user_check_loop vm pt a lim wr =
     (if a < lim then (if access_ok (leaf vm pt a) wr then user_check_loop vm pt (a + 4096) lim wr else Some (- 1))
      else Some 0)"
  by (subst user_check_loop.simps) (auto simp: access_ok_def split: option.splits)

lemma user_check_loop_decides:
  assumes "unat lim \<le> 2 ^ 64 - 4096"
  shows "user_check_loop vm pt a lim wr =
    Some (if \<forall>k. unat a + 4096 * k < unat lim \<longrightarrow> access_ok (leaf vm pt (a + of_nat (4096 * k))) wr then 0 else - 1)"
proof (induction "unat lim - unat a" arbitrary: a rule: less_induct)
  case less
  let ?P = "\<lambda>a k. unat a + 4096 * k < unat lim \<longrightarrow> access_ok (leaf vm pt (a + of_nat (4096 * k))) wr"
  show ?case
  proof (cases "a < lim")
    case True
    then have lt: "unat a < unat lim" by (simp add: word_less_nat_alt)
    have s: "unat (a + 4096) = unat a + 4096" using lt assms by (simp add: unat_word_ariths)
    have "(\<forall>k. ?P a k) \<longleftrightarrow> access_ok (leaf vm pt a) wr \<and> (\<forall>k. ?P (a + 4096) k)"
    proof
      assume all: "\<forall>k. ?P a k"
      have "?P (a + 4096) k" for k using all [rule_format, of "Suc k"] s by (simp add: algebra_simps)
      moreover have "access_ok (leaf vm pt a) wr" using all [rule_format, of 0] lt by simp
      ultimately show "access_ok (leaf vm pt a) wr \<and> (\<forall>k. ?P (a + 4096) k)" by blast
    next
      assume r: "access_ok (leaf vm pt a) wr \<and> (\<forall>k. ?P (a + 4096) k)"
      show "\<forall>k. ?P a k"
      proof
        fix k
        show "?P a k" using r s by (cases k) (auto simp: algebra_simps)
      qed
    qed
    with less.hyps [of "a + 4096"] s lt True show ?thesis by (subst user_check_unfold) simp
  next
    case False
    then have "\<not> unat a < unat lim" by (simp add: word_less_nat_alt)
    then have "\<forall>k. ?P a k" by simp
    with False show ?thesis by (subst user_check_unfold) simp
  qed
qed


lemma page_of_byte:
  assumes "unat ua \<le> x" "x < unat ua + n" "unat ua + n \<le> 2 ^ 64 - 4096"
  defines "k \<equiv> (x - unat ua div 4096 * 4096) div 4096"
  shows "(ua AND NOT 4095) + of_nat (4096 * k) = of_nat x AND NOT (4095 :: u64)"
    and "unat (ua AND NOT 4095) + 4096 * k < unat ua + n"
proof -
  let ?b = "unat ua div 4096"
  have b: "unat (ua AND NOT 4095) = ?b * 4096" using unat_round_down [of ua 12] by (simp add: mask_12)
  have le: "?b * 4096 \<le> x" using assms(1) by (meson div_times_less_eq_dividend order_trans)
  then obtain y where y: "x = ?b * 4096 + y" by (metis le_Suc_ex)
  then have k: "k = y div 4096" by (simp add: k_def)
  have "x div 4096 = ?b + y div 4096" by (subst y) simp
  then have e: "?b * 4096 + 4096 * k = x div 4096 * 4096" using k by (simp add: algebra_simps)
  have x: "unat (of_nat x AND NOT (4095 :: u64)) = x div 4096 * 4096"
    using unat_round_down [of "of_nat x :: u64" 12] assms(2,3) by (simp add: mask_12 unat_of_nat64)
  have lt: "x div 4096 * 4096 < unat ua + n" using assms(2) by (meson div_times_less_eq_dividend order_le_less_trans)
  then have "unat ((ua AND NOT 4095) + of_nat (4096 * k)) = ?b * 4096 + 4096 * k"
    using b e assms(3) by (simp add: unat_word_ariths unat_of_nat del: of_nat_mult)
  then show "(ua AND NOT 4095) + of_nat (4096 * k) = of_nat x AND NOT (4095 :: u64)"
    using x e by (simp add: word_unat_eq_iff)
  show "unat (ua AND NOT 4095) + 4096 * k < unat ua + n" using b e lt by simp
qed

lemma byte_of_page:
  assumes "unat (ua AND NOT 4095) + 4096 * k < unat ua + n" "0 < n" "unat ua + n \<le> 2 ^ 64 - 4096"
  shows "\<exists>x. unat ua \<le> x \<and> x < unat ua + n \<and> (ua AND NOT 4095) + of_nat (4096 * k) = of_nat x AND NOT (4095 :: u64)"
proof -
  let ?b = "unat ua div 4096"
  have b: "unat (ua AND NOT 4095) = ?b * 4096" using unat_round_down [of ua 12] by (simp add: mask_12)
  show ?thesis
  proof (cases k)
    case 0
    with assms(2) show ?thesis by (intro exI [of _ "unat ua"]) simp
  next
    case (Suc j)
    let ?x = "?b * 4096 + 4096 * k"
    have "unat ua < ?b * 4096 + 4096" using div_mult_mod_eq [of "unat ua" 4096] mod_less_divisor [of 4096 "unat ua"] by linarith
    then have le: "unat ua \<le> ?x" using Suc by simp
    have lt: "?x < unat ua + n" using assms(1) b by simp
    have "k = (?x - ?b * 4096) div 4096" by simp
    with page_of_byte(1) [OF le lt assms(3)] le lt show ?thesis by (intro exI [of _ ?x]) simp
  qed
qed

lemma user_check_range:
  assumes "0 < unat len" "unat ua + unat len \<le> 2 ^ 64 - 4096"
  shows "vm_user_check vm pt ua len wr =
    Some (if \<forall>x. unat ua \<le> x \<and> x < unat ua + unat len \<longrightarrow> access_ok (leaf vm pt (of_nat x)) wr then 0 else - 1)"
proof -
  have lim: "unat (ua + len) = unat ua + unat len" using assms(2) by (simp add: unat_word_ariths)
  have "\<not> ua + len < ua" using lim by (simp add: word_less_nat_alt)
  moreover have "len \<noteq> 0" using assms(1) by auto
  moreover have "(\<forall>k. unat (ua AND NOT 4095) + 4096 * k < unat (ua + len) \<longrightarrow>
        access_ok (leaf vm pt ((ua AND NOT 4095) + of_nat (4096 * k))) wr) \<longleftrightarrow>
      (\<forall>x. unat ua \<le> x \<and> x < unat ua + unat len \<longrightarrow> access_ok (leaf vm pt (of_nat x)) wr)" (is "?K = ?X")
  proof
    assume ?K
    show ?X
    proof (intro allI impI)
      fix x
      assume "unat ua \<le> x \<and> x < unat ua + unat len"
      then have x: "unat ua \<le> x" "x < unat ua + unat len" by auto
      from page_of_byte [OF x assms(2)] \<open>?K\<close> show "access_ok (leaf vm pt (of_nat x)) wr"
        using leaf_round [of vm pt "of_nat x"] by (metis lim)
    qed
  next
    assume ?X
    show ?K
    proof (intro allI impI)
      fix k
      assume "unat (ua AND NOT 4095) + 4096 * k < unat (ua + len)"
      then obtain x where "unat ua \<le> x" "x < unat ua + unat len"
          "(ua AND NOT 4095) + of_nat (4096 * k) = of_nat x AND NOT (4095 :: u64)"
        using byte_of_page [OF _ assms] lim by metis
      with \<open>?X\<close> leaf_round [of vm pt "of_nat x"] show "access_ok (leaf vm pt ((ua AND NOT 4095) + of_nat (4096 * k))) wr"
        by metis
    qed
  qed
  ultimately show ?thesis
    using user_check_loop_decides [of "ua + len" vm pt "ua AND NOT 4095" wr] assms(2) lim
    by (simp add: vm_user_check_def Let_def)
qed

text \<open>C7: The range check before every access to user memory is exact.  For a non-empty range that ends
  below the last page of the address space the check terminates, and accepts exactly when
  every byte of the range lies on a mapped user page that is writable, or for reads readable or
  executable.\<close>

theorem vm_user_check_exact:
  assumes "0 < unat len" "unat ua + unat len \<le> 2 ^ 64 - 4096"
  shows "vm_user_check vm pt ua len wr =
    Some (if \<forall>x. unat ua \<le> x \<and> x < unat ua + unat len \<longrightarrow> access_ok (leaf vm pt (of_nat x)) wr then 0 else - 1)"
  by (rule user_check_range [OF assms])

theorem vm_user_check_exact_witness:
  "vm_user_check (fst (vm_map_page boot_vm 0x80400000 0x40001000 0x80600000 (PTE_U OR PTE_R))) 0x80400000 0x40001000 1 False = Some 0"
proof -
  let ?vm = "fst (vm_map_page boot_vm 0x80400000 0x40001000 0x80600000 (PTE_U OR PTE_R))"
  have "access_ok (leaf ?vm 0x80400000 0x40001000) False" by code_simp
  moreover have "x = 0x40001000" if "unat (0x40001000 :: u64) \<le> x" "x < unat (0x40001000 :: u64) + unat (1 :: u64)" for x
    using that by simp
  ultimately have "\<forall>x. unat (0x40001000 :: u64) \<le> x \<and> x < unat (0x40001000 :: u64) + unat (1 :: u64) \<longrightarrow>
      access_ok (leaf ?vm 0x80400000 (of_nat x)) False" by (metis of_nat_numeral)
  then show ?thesis
    using vm_user_check_exact [of 1 "0x40001000" ?vm "0x80400000" False] by simp
qed

section \<open>Agent heaps\<close>

lemma walk_path_iff: "snd (vm_walk vm pt va False) = Some slot \<longleftrightarrow> walk_path vm pt va slot"
  by (auto simp: vm_walk_def numeral_2_eq_2 get_pte_def walk_path_def Let_def)

lemma leaf_SomeD:
  assumes "leaf vm pt va = Some e"
  obtains t i where "walk_path vm pt va (t, i)" "ptes vm t i = e" "pte_valid e"
  using assms by (auto simp: leaf_unfold walk_path_def Let_def split: if_splits)

lemma walk_path_key: "page_key va = page_key va' \<Longrightarrow> walk_path vm pt va = walk_path vm pt va'"
  by (auto simp: page_key_def walk_path_def fun_eq_iff)

lemma page_key_round: "page_key (va AND - 4096) = page_key va"
  by (simp add: page_key_def vpn_round)

lemma aligned_pte_pa [simp]: "aligned (vm_pte_pa e)"
  unfolding aligned_bits by (auto simp: vm_pte_pa_def bit_simps)

lemma and_bit: "e AND (2 :: u64) ^ n \<noteq> 0 \<longleftrightarrow> bit e n"
  by (simp add: and_exp_eq_0_iff_not_bit)

lemma leaf_pte:
  assumes "aligned pa" "f < 1024" "bit f 0"
  defines "e \<equiv> push_bit 10 (drop_bit 12 pa) OR f"
  shows "pte_valid e" "vm_pte_pa e = pa" "e AND 2 \<noteq> 0 \<longleftrightarrow> f AND 2 \<noteq> 0" "e AND 4 \<noteq> 0 \<longleftrightarrow> f AND 4 \<noteq> 0"
    "e AND 16 \<noteq> 0 \<longleftrightarrow> f AND 16 \<noteq> 0"
  using pte_pa_make [OF assms(1,2)] assms(3) and_bit [of e 1] and_bit [of e 2] and_bit [of e 4]
    and_bit [of f 1] and_bit [of f 2] and_bit [of f 4]
  by (simp_all add: e_def pte_valid_bit bit_simps)

lemma set_leaf_walk:
  assumes "pool_ok vm" "pt_tree vm r" "walk_path vm r va slot"
  shows "pt_tree (set_pte vm slot v) r"
    and "leaf (set_pte vm slot v) r va' = (if page_key va' = page_key va then (if pte_valid v then Some v else None) else leaf vm r va')"
  using assms set_leaf [OF assms(1,2), of va "fst slot" "snd slot" v] by simp_all

text \<open>C8: Breaking copy-on-write.  When a write faults on a read-only heap page, \<open>vm_cow_break\<close> either
  fails and changes no translation and no byte, or gives the page a frame of its own: a frame
  allocated just now, writable, with the same 4096 bytes.  No other page changes its translation and no
  byte outside the new frame changes, so the other pages that share the old frame keep
  their contents.\<close>

theorem vm_cow_break_spec:
  assumes "pool_ok vm" "pt_tree vm (pagetable a)" "kmem_inv (kheap vm)"
    and "leaf vm (pagetable a) va = Some e" "e AND PTE_W = 0"
  shows "(let (vm', rc) = vm_cow_break vm a va
     in pt_tree vm' (pagetable a) \<and>
        (if rc = 0
         then \<exists>new. unat (heap_ptr (kheap vm)) \<le> unat new \<and> 4096 dvd unat new \<and>
                (\<exists>e'. leaf vm' (pagetable a) va = Some e' \<and> vm_pte_pa e' = new \<and> e' AND PTE_W \<noteq> 0 \<and> e' AND PTE_U \<noteq> 0) \<and>
                (\<forall>off < 4096. phys vm' (new + off) = phys vm (vm_pte_pa e + off)) \<and>
                (\<forall>x. \<not> x - new < 4096 \<longrightarrow> phys vm' x = phys vm x) \<and>
                (\<forall>va'. page_key va' \<noteq> page_key va \<longrightarrow> leaf vm' (pagetable a) va' = leaf vm (pagetable a) va')
         else phys vm' = phys vm \<and> (\<forall>va'. leaf vm' (pagetable a) va' = leaf vm (pagetable a) va')))"
proof -
  let ?pt = "pagetable a"
  obtain t i where w: "walk_path vm ?pt va (t, i)" and e: "ptes vm t i = e" "pte_valid e"
    using leaf_SomeD [OF assms(4)] .
  have s: "snd (vm_walk vm ?pt (va AND - 4096) False) = Some (t, i)"
    using w walk_path_key [OF page_key_round, of vm ?pt va] by (simp add: walk_path_iff)
  obtain m new where k: "kalloc_page (kheap vm) = (m, new)" by (cases "kalloc_page (kheap vm)")
  show ?thesis
  proof (cases "new = 0")
    case True
    with s e k assms(2,5) show ?thesis by (simp add: vm_cow_break_def get_pte_def)
  next
    case False
    then have new: "unat (heap_ptr (kheap vm)) \<le> unat new" "4096 dvd unat new"
      using kalloc_page_cases [OF assms(3) k] by auto
    let ?v = "push_bit 10 (drop_bit 12 new) OR PTE_U OR PTE_R OR PTE_W OR PTE_V OR PTE_STD"
    let ?c = "copy_page (vm\<lparr>kheap := m\<rparr>) new (vm_pte_pa e)"
    have c: "pool_ok ?c" "pt_tree ?c ?pt" "walk_path ?c ?pt va (t, i)" "leaf ?c ?pt va' = leaf vm ?pt va'" for va'
      using assms(1,2) w by (simp_all add: copy_page_def)
    have r: "vm_cow_break vm a va = (set_pte ?c (t, i) ?v, 0)"
      using s e k False assms(5) by (simp add: vm_cow_break_def get_pte_def)
    have "aligned new" using new(2) by (simp add: aligned_unat)
    then have v: "pte_valid ?v" "vm_pte_pa ?v = new" "?v AND PTE_W \<noteq> 0" "?v AND PTE_U \<noteq> 0"
      using leaf_pte [of new 215] by simp_all
    have ph: "phys (set_pte ?c (t, i) ?v) x = (if x - new < 4096 then phys vm (vm_pte_pa e + (x - new)) else phys vm x)" for x
      by (simp add: copy_page_def)
    note L = set_leaf_walk [OF c(1-3), of ?v]
    show ?thesis
      unfolding r using L v new ph c(4) by (auto intro!: exI [of _ new])
  qed
qed

definition ro_vm :: vm where
  "ro_vm = fst (vm_map_page boot_vm 0x80400000 0x60000000 0x80700000 (PTE_U OR PTE_R))"

definition ro_agent :: agent where
  "ro_agent = blank_agent\<lparr>pagetable := 0x80400000, heap_base := USER_HEAP_BASE, heap_max_pages := 16, heap_mapped := 1\<rparr>"

lemma ro_vm_ok: "pool_ok ro_vm" "pt_tree ro_vm 0x80400000" "kmem_inv (kheap ro_vm)"
proof -
  obtain vm' rc where e: "vm_map_page boot_vm 0x80400000 0x60000000 0x80700000 (PTE_U OR PTE_R) = (vm', rc)"
    by (cases "vm_map_page boot_vm 0x80400000 0x60000000 0x80700000 (PTE_U OR PTE_R)")
  have "kernel_pt boot_vm = 0x80400000" "kheap boot_vm = mem_init" by (simp_all add: boot_vm_def)
  with vm_map_page_cases [OF boot_vm_ok, of "0x80400000" "0x60000000" "0x80700000" "PTE_U OR PTE_R" vm' rc] boot_vm_tree e
  show "pool_ok ro_vm" "pt_tree ro_vm 0x80400000" "kmem_inv (kheap ro_vm)" by (auto simp: ro_vm_def)
qed

theorem vm_cow_break_spec_witness:
  "\<exists>e'. leaf (fst (vm_cow_break ro_vm ro_agent 0x60000010)) 0x80400000 0x60000010 = Some e' \<and> e' AND PTE_W \<noteq> 0"
proof -
  have "leaf ro_vm 0x80400000 0x60000010 = Some 0x201c00d3" by code_simp
  moreover have "snd (vm_cow_break ro_vm ro_agent 0x60000010) = 0" by code_simp
  moreover have "pagetable ro_agent = 0x80400000" by (simp add: ro_agent_def)
  ultimately show ?thesis
    using vm_cow_break_spec [of ro_vm ro_agent "0x60000010" "0x201c00d3"] ro_vm_ok
    by (auto simp: case_prod_unfold Let_def)
qed

lemma vpn_unat: "vpn l va = unat va div 2 ^ (12 + 9 * l) mod 512"
proof -
  have "drop_bit (12 + 9 * l) va AND 0x1ff = take_bit 9 (drop_bit (12 + 9 * l) va)"
    by (simp add: take_bit_eq_mask mask_eq_exp_minus_1)
  moreover have "unat va < 2 ^ LENGTH(64)" by (rule unsigned_less)
  then have "take_bit 64 (unat va) = unat va" by (simp add: take_bit_nat_eq_self)
  ultimately have "vpn l va = take_bit 9 (drop_bit (12 + 9 * l) (unat va))"
    by (simp add: vpn_def unsigned_take_bit_eq unsigned_drop_bit_eq)
  then show ?thesis by (simp add: take_bit_eq_mod drop_bit_eq_div)
qed

text \<open>The heap window the kernel gives an agent: 16 pages at an address that depends on its id.\<close>

definition heap_shape :: "agent \<Rightarrow> bool" where
  "heap_shape a \<longleftrightarrow> 0 \<le> aid a \<and> aid a < 12 \<and> heap_base a = USER_HEAP_BASE + of_int (aid a) * AGENT_HEAP_SIZE \<and>
     heap_max_pages a = 16 \<and> 0 \<le> heap_mapped a \<and> heap_mapped a \<le> 16 \<and> pagetable a \<noteq> 0"

definition heap_va :: "agent \<Rightarrow> int \<Rightarrow> u64" where
  "heap_va a off = heap_base a + of_int off * PAGE_SIZE"

lemma unat_heap_va:
  assumes "heap_shape a" "0 \<le> off" "off < 16"
  shows "unat (heap_va a off) = 0x60000000 + nat (aid a) * 65536 + nat off * 4096"
proof -
  define i k where "i = nat (aid a)" and "k = nat off"
  with assms have i: "aid a = int i" "off = int k" "i < 12" "k < 16" by (auto simp: heap_shape_def)
  with assms(1) show ?thesis
    by (simp add: heap_va_def heap_shape_def unat_word_ariths unat_of_nat)
qed

lemma heap_page_key:
  assumes "heap_shape a" "0 \<le> off" "off < 16"
  shows "page_key (heap_va a off) = (1, 256, nat (aid a) * 16 + nat off)"
proof -
  define n where "n = nat (aid a) * 16 + nat off"
  have n: "n < 192" using assms by (auto simp: n_def heap_shape_def nat_less_iff)
  have u: "unat (heap_va a off) = (0x60000 + n) * 4096"
    using unat_heap_va [OF assms] by (simp add: n_def algebra_simps)
  have "vpn 0 (heap_va a off) = (0x60000 + n) mod 512" by (simp add: vpn_unat u)
  moreover have "vpn 1 (heap_va a off) = (0x60000 + n) div 512 mod 512"
    by (simp add: vpn_unat u div_mult2_eq [of _ 4096 512, simplified])
  moreover have "vpn 2 (heap_va a off) = (0x60000 + n) div 262144 mod 512"
    by (simp add: vpn_unat u div_mult2_eq [of _ 4096 262144, simplified])
  moreover have "(0x60000 + n) mod 512 = n" using n mod_mult_self3 [of 768 512 n] by simp
  moreover have "(0x60000 + n) div 512 = 768" "(0x60000 + n) div 262144 = 1"
    using n by auto
  ultimately show ?thesis by (simp add: page_key_def n_def)
qed

lemma leaf_round': "leaf vm pt (va AND - 4096) = leaf vm pt va"
  using leaf_round [of vm pt va] by simp

lemma walk_path_keeps:
  assumes "pt_tree vm r" "walk_path vm r va slot"
    and "\<And>x j. x \<in> tables vm \<Longrightarrow> pte_valid (ptes vm x j) \<Longrightarrow> ptes vm' x j = ptes vm x j"
  shows "walk_path vm' r va slot"
proof -
  have "r \<in> tables vm" using pt_treeD(1) [OF assms(1)] .
  moreover have "vm_pte_pa (ptes vm r (vpn 2 va)) \<in> tables vm"
    using walk_path_kids(1) [of vm r va "fst slot" "snd slot"] assms(2) pt_treeD(3) [OF assms(1)] by (auto simp: tables_def)
  ultimately show ?thesis using assms(2,3) by (simp add: walk_path_def)
qed

lemma cow_map_dst_rc: "cow_map_dst vm a dst_va pa = (vm1, a1, rc1) \<Longrightarrow> rc1 \<le> 0"
  by (auto simp: cow_map_dst_def split: if_splits option.splits prod.splits)

lemma cow_map_dst_ok:
  assumes "pool_ok vm" "pt_tree vm (pagetable a)" "heap_shape a" "cow_map_dst vm a va pa = (vm1, a1, 0)"
    and "page_key sv \<noteq> page_key va" "walk_path vm (pagetable a) sv slot"
  shows "pool_ok vm1 \<and> pt_tree vm1 (pagetable a) \<and> heap_shape a1 \<and> phys vm1 = phys vm \<and>
    walk_path vm1 (pagetable a) sv slot \<and> (\<exists>dp. leaf vm1 (pagetable a) va = Some dp) \<and>
    (\<forall>va'. page_key va' \<noteq> page_key va \<longrightarrow> leaf vm1 (pagetable a) va' = leaf vm (pagetable a) va')"
proof (cases "leaf vm (pagetable a) va")
  case (Some dp)
  with assms show ?thesis by (auto simp: cow_map_dst_def vm_page_mapped_def leaf_round' split: if_splits)
next
  case None
  obtain mrc where m: "vm_map_page vm (pagetable a) va pa (PTE_U OR PTE_R) = (vm1, mrc)"
      "mrc = 0" "a1 = a\<lparr>heap_mapped := heap_mapped a + 1\<rparr>" "heap_mapped a < 16"
    using assms(3,4) None
    by (auto simp: cow_map_dst_def vm_page_mapped_def leaf_round' vm_map_user_page_def heap_shape_def
        split: if_splits prod.splits)
  note M = vm_map_page_cases [OF assms(1,2) m(1)]
  have "walk_path vm1 (pagetable a) sv slot" using M by (intro walk_path_keeps [OF assms(2,6)]) auto
  with M [of va] M m(2-4) assms(3) show ?thesis by (auto simp: heap_shape_def)
qed

lemma cow_set_both_ok:
  assumes "pool_ok vm" "pt_tree vm pt" "walk_path vm pt sv slot" "leaf vm pt dv = Some dp" "page_key sv \<noteq> page_key dv"
    and "pte_valid ro"
  shows "\<exists>vm3. cow_set_both vm a pt slot dv ro = (vm3, Some a, wrap32 (uint dv)) \<and> pt_tree vm3 pt \<and> phys vm3 = phys vm \<and>
    (\<forall>va. leaf vm3 pt va = (if page_key va = page_key sv \<or> page_key va = page_key dv then Some ro else leaf vm pt va))"
proof -
  let ?vm2 = "set_pte vm slot ro"
  note S = set_leaf_walk [OF assms(1-3), of ro]
  have ok: "pool_ok ?vm2" using assms(1) by simp
  have "leaf ?vm2 pt dv = Some dp" using S(2) [of dv] assms(4,5) by simp
  then obtain t i where w: "walk_path ?vm2 pt dv (t, i)" "ptes ?vm2 t i = dp" "pte_valid dp" using leaf_SomeD by blast
  note S2 = set_leaf_walk [OF ok S(1) w(1), of ro]
  have "cow_set_both vm a pt slot dv ro = (set_pte ?vm2 (t, i) ro, Some a, wrap32 (uint dv))"
    using w walk_path_iff [THEN iffD2, OF w(1)] by (simp add: cow_set_both_def get_pte_def Let_def)
  with S(2) S2 assms(5,6) show ?thesis by auto
qed

text \<open>Sharing a heap page copy-on-write.  When \<open>vm_heap_cow_alias\<close> succeeds, the source page and
  the destination page of the agent's heap map the same frame, the one the source page had
  before, both read-only and user-accessible; every other page keeps its translation, no byte
  of memory changes, and the count of mapped pages stays within the window.\<close>

theorem vm_heap_cow_alias_spec:
  assumes "pool_ok vm" "pt_tree vm (pagetable a)" "heap_shape a"
    and "vm_heap_cow_alias vm (Some a) d s = (vm', Some a', rc)" "rc \<ge> 0"
  shows "0 \<le> s \<and> s < 16 \<and> 0 \<le> d \<and> d < 16 \<and> s \<noteq> d \<and> heap_shape a' \<and> phys vm' = phys vm \<and> pt_tree vm' (pagetable a) \<and>
    (\<exists>e ro. leaf vm (pagetable a) (heap_va a s) = Some e \<and> leaf vm' (pagetable a) (heap_va a s) = Some ro \<and>
       leaf vm' (pagetable a) (heap_va a d) = Some ro \<and> vm_pte_pa ro = vm_pte_pa e \<and>
       ro AND PTE_W = 0 \<and> ro AND PTE_U \<noteq> 0 \<and> ro AND PTE_R \<noteq> 0) \<and>
    (\<forall>va. page_key va \<noteq> page_key (heap_va a s) \<and> page_key va \<noteq> page_key (heap_va a d) \<longrightarrow>
       leaf vm' (pagetable a) va = leaf vm (pagetable a) va)"
proof -
  let ?pt = "pagetable a" and ?s = "heap_va a s" and ?d = "heap_va a d"
  have off: "0 \<le> s" "s < 16" "0 \<le> d" "d < 16" "s \<noteq> d"
    using assms(3-5) by (auto simp: vm_heap_cow_alias_def heap_shape_def split: if_splits)
  have sk: "page_key ?s \<noteq> page_key ?d"
    using heap_page_key [OF assms(3) off(1,2)] heap_page_key [OF assms(3) off(3,4)] off by auto
  have pn: "?pt \<noteq> 0" "heap_max_pages a = 16" using assms(3) by (auto simp: heap_shape_def)
  obtain e where e: "leaf vm ?pt ?s = Some e"
    using assms(4,5) pn off
    by (cases "leaf vm ?pt ?s") (auto simp: vm_heap_cow_alias_def vm_page_mapped_def leaf_round' heap_va_def)
  obtain t i where w: "walk_path vm ?pt ?s (t, i)" and te: "ptes vm t i = e" "pte_valid e" using leaf_SomeD [OF e] .
  let ?pa = "vm_pte_pa e"
  let ?ro = "push_bit 10 (drop_bit 12 ?pa) OR PTE_U OR PTE_R OR PTE_V OR PTE_STD"
  have ro: "pte_valid ?ro" "vm_pte_pa ?ro = ?pa" "?ro AND PTE_W = 0" "?ro AND PTE_U \<noteq> 0" "?ro AND PTE_R \<noteq> 0"
    using leaf_pte [of ?pa 211] by simp_all
  obtain vm1 a1 rc1 where m: "cow_map_dst vm a ?d ?pa = (vm1, a1, rc1)" by (cases "cow_map_dst vm a ?d ?pa") auto
  have eq: "vm_heap_cow_alias vm (Some a) d s =
      (if rc1 \<noteq> 0 then (vm1, Some a1, rc1) else cow_set_both vm1 a1 ?pt (t, i) ?d ?ro)"
    using pn off e te m walk_path_iff [THEN iffD2, OF w]
    by (simp add: vm_heap_cow_alias_def vm_page_mapped_def leaf_round' get_pte_def Let_def flip: heap_va_def)
  have rc1: "rc1 = 0" using eq assms(4,5) cow_map_dst_rc [OF m] by (auto split: if_splits)
  from cow_map_dst_ok [OF assms(1-3) m [unfolded rc1] sk w]
  have M: "pool_ok vm1" "pt_tree vm1 ?pt" "heap_shape a1" "phys vm1 = phys vm" "walk_path vm1 ?pt ?s (t, i)"
      "\<exists>dp. leaf vm1 ?pt ?d = Some dp" "\<And>va. page_key va \<noteq> page_key ?d \<Longrightarrow> leaf vm1 ?pt va = leaf vm ?pt va"
    by auto
  from cow_set_both_ok [OF M(1,2,5) _ sk ro(1), of _ a1] M(6)
  obtain vm3 where F: "cow_set_both vm1 a1 ?pt (t, i) ?d ?ro = (vm3, Some a1, wrap32 (uint ?d))"
      "pt_tree vm3 ?pt" "phys vm3 = phys vm1"
      "\<And>va. leaf vm3 ?pt va = (if page_key va = page_key ?s \<or> page_key va = page_key ?d then Some ?ro else leaf vm1 ?pt va)"
    by auto
  have "vm' = vm3" "a' = a1" using eq rc1 F(1) assms(4) by auto
  with F(2-4) M(3,4,7) e ro sk off show ?thesis by auto
qed

theorem vm_heap_cow_alias_spec_witness:
  "leaf (fst (vm_heap_cow_alias ro_vm (Some ro_agent) 3 0)) 0x80400000 0x60003000 =
   leaf (fst (vm_heap_cow_alias ro_vm (Some ro_agent) 3 0)) 0x80400000 0x60000000"
proof -
  obtain vm' a' rc where e: "vm_heap_cow_alias ro_vm (Some ro_agent) 3 0 = (vm', a', rc)"
    by (cases "vm_heap_cow_alias ro_vm (Some ro_agent) 3 0") auto
  have "snd (snd (vm_heap_cow_alias ro_vm (Some ro_agent) 3 0)) = 0x60003000" by code_simp
  moreover have "fst (snd (vm_heap_cow_alias ro_vm (Some ro_agent) 3 0)) \<noteq> None" by code_simp
  moreover have "heap_shape ro_agent" by (simp add: heap_shape_def ro_agent_def blank_agent_def)
  moreover have "heap_va ro_agent 3 = 0x60003000" "heap_va ro_agent 0 = 0x60000000" "pagetable ro_agent = 0x80400000"
    by (simp_all add: heap_va_def ro_agent_def)
  ultimately show ?thesis
    using vm_heap_cow_alias_spec [of ro_vm ro_agent 3 0 vm' _ rc] ro_vm_ok e by auto
qed

lemma in_heap_bounds:
  assumes "heap_shape a"
  shows "in_heap a va \<longleftrightarrow> 0x60000000 + nat (aid a) * 65536 \<le> unat va \<and> unat va < 0x60000000 + nat (aid a) * 65536 + 65536"
proof -
  define i where "i = nat (aid a)"
  with assms have i: "aid a = int i" "i < 12" by (auto simp: heap_shape_def)
  have b: "unat (heap_base a) = 0x60000000 + i * 65536"
    using assms i by (simp add: heap_shape_def unat_word_ariths unat_of_nat)
  have "unat (heap_base a + of_int (heap_max_pages a) * 4096) = 0x60000000 + i * 65536 + 65536"
    using assms i by (simp add: heap_shape_def unat_word_ariths unat_of_nat)
  with b show ?thesis by (auto simp: in_heap_def word_less_nat_alt word_le_nat_alt i_def)
qed

lemma heap_vpn2: "heap_shape a \<Longrightarrow> in_heap a va \<Longrightarrow> vpn 2 va = 1"
proof -
  assume h: "heap_shape a" and v: "in_heap a va"
  have "nat (aid a) < 12" using h by (auto simp: heap_shape_def)
  with v have "0x60000000 \<le> unat va" "unat va < 0x60100000" using in_heap_bounds [OF h] by auto
  then have "unat va div 1073741824 = 1" by auto
  then show ?thesis by (simp add: vpn_unat)
qed

text \<open>Demand paging of an agent's heap.  A fault handled by mapping a page succeeds only for
  addresses inside the agent's own 16-page window; it maps a frame that the allocator has just
  handed out, readable and writable, at that page and nowhere else, never maps more than 16 pages, keeps
  every other agent and the kernel table as they were and all of them isolated.\<close>

theorem vm_heap_map_page_spec:
  assumes "vm_isolated vm R" "pagetable a \<in> R" "heap_shape a" "kmem_inv (kheap vm)"
    and "leaf vm (pagetable a) va = None"
  shows "(let (vm', a', rc) = vm_heap_map_page vm (Some a) va
     in vm_isolated vm' R \<and>
        (\<forall>q \<in> insert (kernel_pt vm) R. \<forall>va'. q \<noteq> pagetable a \<longrightarrow> leaf vm' q va' = leaf vm q va') \<and>
        (if rc = 0
         then 0x60000000 + nat (aid a) * 65536 \<le> unat va \<and> unat va < 0x60000000 + nat (aid a) * 65536 + 65536 \<and>
              (\<exists>e. leaf vm' (pagetable a) va = Some e \<and> e AND PTE_W \<noteq> 0 \<and>
                   unat (heap_ptr (kheap vm)) \<le> unat (vm_pte_pa e) \<and> unat (vm_pte_pa e) + 4096 \<le> unat (heap_end (kheap vm))) \<and>
              (\<forall>va'. page_key va' \<noteq> page_key va \<longrightarrow> leaf vm' (pagetable a) va' = leaf vm (pagetable a) va') \<and>
              (\<exists>b. a' = Some b \<and> heap_shape b \<and> heap_mapped b = heap_mapped a + 1)
         else (\<forall>va'. leaf vm' (pagetable a) va' = leaf vm (pagetable a) va') \<and> a' = Some a))"
proof -
  let ?pt = "pagetable a"
  obtain m pa where k: "kalloc_page (kheap vm) = (m, pa)" by (cases "kalloc_page (kheap vm)")
  let ?vm1 = "vm\<lparr>kheap := m\<rparr>"
  obtain vm2 rc where mp: "vm_map_page ?vm1 ?pt (va AND - 4096) pa (PTE_U OR PTE_R OR PTE_W) = (vm2, rc)"
    by (cases "vm_map_page ?vm1 ?pt (va AND - 4096) pa (PTE_U OR PTE_R OR PTE_W)")
  have iso: "vm_isolated ?vm1 R" and lv: "\<And>q va'. leaf ?vm1 q va' = leaf vm q va'"
    using assms(1) by simp_all
  have um: "\<not> vm_page_mapped vm ?pt (va AND - 4096)" using assms(5) by (simp add: vm_page_mapped_def leaf_round')
  have ne: "?pt \<noteq> 0" "heap_max_pages a = 16" using assms(3) by (auto simp: heap_shape_def)
  consider (out) "\<not> in_heap a va \<or> heap_mapped a \<ge> 16" | (full) "in_heap a va" "heap_mapped a < 16" "pa = 0"
    | (go) "in_heap a va" "heap_mapped a < 16" "pa \<noteq> 0" by linarith
  then show ?thesis
  proof cases
    case out
    then have "vm_heap_map_page vm (Some a) va = (vm, Some a, - 1)"
      using ne um by (auto simp: vm_heap_map_page_def Let_def)
    with assms(1) show ?thesis by simp
  next
    case full
    then have "vm_heap_map_page vm (Some a) va = (?vm1, Some a, - 1)"
      using ne um k by (simp add: vm_heap_map_page_def)
    with iso lv show ?thesis by simp
  next
    case go
    have r: "vm_heap_map_page vm (Some a) va =
        (if rc \<noteq> 0 then (vm2, Some a, - 1) else (vm2, Some (a\<lparr>heap_mapped := heap_mapped a + 1\<rparr>), 0))"
      using ne um k go mp by (simp add: vm_heap_map_page_def vm_map_user_page_def)
    have K: "unat (heap_ptr (kheap vm)) \<le> unat pa" "unat pa + 4096 \<le> unat (heap_end (kheap vm))" "4096 dvd unat pa"
      using kalloc_page_cases [OF assms(4) k] go(3) by (auto simp: kmem_inv_def)
    have "aligned pa" using K(3) by (simp add: aligned_unat)
    from leaf_pte [OF this, of 215] have P: "vm_pte_pa (push_bit 10 (drop_bit 12 pa) OR 215) = pa"
        "(push_bit 10 (drop_bit 12 pa) OR 215) AND PTE_W \<noteq> 0" by simp_all
    have v2: "vpn 2 (va AND - 4096) = 1" using heap_vpn2 [OF assms(3) go(1)] by (simp add: vpn_round)
    have pt1: "pool_ok ?vm1" "pt_tree ?vm1 ?pt" using iso assms(2) by (auto simp: vm_isolated_def)
    note M = vm_map_page_cases [OF pt1 mp, unfolded page_key_round]
    note I = vm_isolated_map [OF iso assms(2) v2 mp]
    have "heap_shape (a\<lparr>heap_mapped := heap_mapped a + 1\<rparr>)" using assms(3) go(2) by (simp add: heap_shape_def)
    moreover have "leaf vm2 ?pt va' = (if rc = 0 \<and> page_key va' = page_key va then Some (push_bit 10 (drop_bit 12 pa) OR 215)
        else leaf vm ?pt va')" for va'
      using M [of va'] lv by simp
    ultimately show ?thesis
      using r I lv P K in_heap_bounds [OF assms(3), of va] go(1) by auto
  qed
qed

lemma heap_witness_vm:
  defines "a \<equiv> blank_agent\<lparr>aid := 1, pagetable := 0x80500000, heap_base := 0x60010000, heap_max_pages := 16\<rparr>"
  shows "pagetable a \<in> {0x80500000}" "heap_shape a" "kmem_inv (kheap (new_root boot_vm))"
    and "leaf (new_root boot_vm) (pagetable a) 0x60012345 = None"
proof -
  show "pagetable a \<in> {0x80500000}" "heap_shape a" by (simp_all add: a_def heap_shape_def blank_agent_def)
  have "kheap (new_root boot_vm) = mem_init"
    by (simp add: new_root_def vm_create_agent_pt_def pt_alloc_def boot_vm_def Let_def)
  then show "kmem_inv (kheap (new_root boot_vm))" by simp
  show "leaf (new_root boot_vm) (pagetable a) 0x60012345 = None" unfolding a_def by code_simp
qed

theorem vm_heap_map_page_spec_witness:
  "(let (vm', a', rc) = vm_heap_map_page (new_root boot_vm)
       (Some (blank_agent\<lparr>aid := 1, pagetable := 0x80500000, heap_base := 0x60010000, heap_max_pages := 16\<rparr>)) 0x60012345
    in rc = 0 \<and> vm_isolated vm' {0x80500000} \<and> leaf vm' 0x80500000 0x60012000 \<noteq> None)"
proof -
  let ?a = "blank_agent\<lparr>aid := 1, pagetable := 0x80500000, heap_base := 0x60010000, heap_max_pages := 16\<rparr>"
  have "snd (snd (vm_heap_map_page (new_root boot_vm) (Some ?a) 0x60012345)) = 0" by code_simp
  moreover have "page_key 0x60012000 = page_key 0x60012345" by code_simp
  then have "leaf vm' 0x80500000 0x60012000 = leaf vm' 0x80500000 0x60012345" for vm' by (rule leaf_key)
  ultimately show ?thesis
    using vm_heap_map_page_spec [OF boot_vm_isolated heap_witness_vm]
    by (auto simp: case_prod_unfold Let_def)
qed

end
