(* ===== verification/Uaccess.thy ===== *)
theory Uaccess
  imports Vm
begin

text \<open>
  Copies between the kernel and the current agent (\<open>kernel/uaccess.c\<close>).  The kernel runs on the
  agent's page table, so a load from a user address reads the frame its entry points to:
  \<open>user_byte\<close>.  A copy from user memory returns the bytes it stores in the kernel buffer beside the
  return code.  A range check that does not terminate counts as refused; \<open>user_check_returns\<close>
  shows that it terminates whenever page 0 is not mapped.
\<close>

section \<open>Definitions\<close>

definition user_pa :: "vm \<Rightarrow> u64 \<Rightarrow> u64 \<Rightarrow> u64" where
  "user_pa vm pt va = (case leaf vm pt va of None \<Rightarrow> 0 | Some e \<Rightarrow> vm_pte_pa e + (va AND 4095))"

definition user_byte :: "vm \<Rightarrow> u64 \<Rightarrow> u64 \<Rightarrow> char" where
  "user_byte vm pt va = phys vm (user_pa vm pt va)"

definition user_access_ok :: "vm \<Rightarrow> agent option \<Rightarrow> u64 \<Rightarrow> u64 \<Rightarrow> bool \<Rightarrow> bool" where
  "user_access_ok vm cur user_ptr len wr =
     (case cur of
        None \<Rightarrow> False
      | Some a \<Rightarrow>
          if pagetable a = 0 \<or> user_ptr = 0 then False
          else vm_user_check vm (pagetable a) user_ptr len wr = Some 0)"

definition copy_from_user :: "vm \<Rightarrow> agent option \<Rightarrow> u64 \<Rightarrow> u64 \<Rightarrow> int \<times> string" where
  "copy_from_user vm cur user_src len =
     (if user_src = 0 then (EFAULT, [])
      else if len = 0 then (0, [])
      else if \<not> user_access_ok vm cur user_src len False then (EFAULT, [])
      else (uint len, map (\<lambda>i. user_byte vm (pagetable (the cur)) (user_src + of_nat i)) [0..<unat len]))"

fun store_user :: "vm \<Rightarrow> u64 \<Rightarrow> u64 \<Rightarrow> string \<Rightarrow> vm" where
  "store_user vm pt va [] = vm"
| "store_user vm pt va (c # cs) = store_user (vm\<lparr>phys := (phys vm)(user_pa vm pt va := c)\<rparr>) pt (va + 1) cs"

definition copy_to_user :: "vm \<Rightarrow> agent option \<Rightarrow> u64 \<Rightarrow> string \<Rightarrow> vm \<times> int" where
  "copy_to_user vm cur user_dst src =
     (let len = of_nat (length src) :: u64
      in if user_dst = 0 then (vm, EFAULT)
         else if len = 0 then (vm, 0)
         else if \<not> user_access_ok vm cur user_dst len True then (vm, EFAULT)
         else (store_user vm (pagetable (the cur)) user_dst src, uint len))"

fun strnlen_loop :: "vm \<Rightarrow> agent option \<Rightarrow> u64 \<Rightarrow> nat \<Rightarrow> nat \<Rightarrow> int" where
  "strnlen_loop vm cur s n 0 = int n"
| "strnlen_loop vm cur s n (Suc k) =
     (if \<not> user_access_ok vm cur (s + of_nat n) 1 False then EFAULT
      else (case copy_from_user vm cur (s + of_nat n) 1 of
              (rc, buf) \<Rightarrow>
                if rc \<noteq> 1 then EFAULT
                else if buf ! 0 = NUL then int n
                else strnlen_loop vm cur s (n + 1) k))"

definition user_strnlen :: "vm \<Rightarrow> agent option \<Rightarrow> u64 \<Rightarrow> int \<Rightarrow> int" where
  "user_strnlen vm cur user_s n =
     (if user_s = 0 \<or> n \<le> 0 then EFAULT else strnlen_loop vm cur user_s 0 (nat n))"

section \<open>Lemmas\<close>

text \<open>The accesses depend on the agent only through its page table.\<close>

lemma access_ok_agent:
  "pagetable a = pagetable b \<Longrightarrow> user_access_ok v (Some a) p n w = user_access_ok v (Some b) p n w"
  by (simp add: user_access_ok_def)

lemma copy_from_user_agent:
  "pagetable a = pagetable b \<Longrightarrow> copy_from_user v (Some a) p n = copy_from_user v (Some b) p n"
  using access_ok_agent [of a b v p n False] by (simp add: copy_from_user_def)

lemma user_strnlen_agent:
  assumes "pagetable a = pagetable b"
  shows "user_strnlen v (Some a) p n = user_strnlen v (Some b) p n"
proof -
  have "strnlen_loop v (Some a) p m k = strnlen_loop v (Some b) p m k" for m k
    by (induction k arbitrary: m) (simp_all add: access_ok_agent [OF assms] copy_from_user_agent [OF assms] split: prod.splits)
  then show ?thesis by (simp add: user_strnlen_def)
qed

lemma user_check_loop_returns:
  assumes "leaf vm pt 0 = None" "aligned a"
  shows "\<exists>y. user_check_loop vm pt a lim wr = Some y"
  using assms(2)
proof (induction "2 ^ 64 - unat a" arbitrary: a rule: less_induct)
  case less
  have z: "\<exists>y. user_check_loop vm pt 0 lim wr = Some y"
    using assms(1) by (subst user_check_unfold) (simp add: access_ok_def)
  have d: "4096 dvd unat a" using less.prems by (simp add: aligned_unat)
  have b: "unat a < 2 ^ 64" using unsigned_less [of a] by simp
  have "unat a + 4096 \<le> 2 ^ 64"
  proof -
    obtain k where k: "unat a = 4096 * k" using d by (auto simp: dvd_def)
    with b have "k < 2 ^ 52" by simp
    with k show ?thesis by simp
  qed
  then consider (wrap) "a + 4096 = 0" | (up) "unat (a + 4096) = unat a + 4096"
    by (cases "unat a + 4096 = 2 ^ 64") (auto simp: unat_word_ariths word_unat_eq_iff)
  then have "\<exists>y. user_check_loop vm pt (a + 4096) lim wr = Some y"
  proof cases
    case wrap
    with z show ?thesis by simp
  next
    case up
    with d b show ?thesis by (intro less.hyps) (auto simp: aligned_unat)
  qed
  then show ?case by (subst user_check_unfold) auto
qed

lemma aligned_round: "aligned (va AND - 4096)"
proof -
  have "(- 4096 :: u64) = NOT (mask 12)" by (simp add: mask_eq_exp_minus_1)
  then show ?thesis by (simp only: aligned_bits bit_and_iff bit_not_iff bit_mask_iff) auto
qed

lemma user_check_returns: "leaf vm pt 0 = None \<Longrightarrow> \<exists>y. vm_user_check vm pt ua len wr = Some y"
  using user_check_loop_returns [OF _ aligned_round] by (auto simp: vm_user_check_def Let_def)

lemma copy_from_user_cases:
  "copy_from_user vm cur src len = (rc, bytes) \<Longrightarrow>
     (rc < 0 \<and> bytes = []) \<or> (rc = uint len \<and> length bytes = unat len)"
  by (auto simp: copy_from_user_def split: if_splits)

lemma access_one:
  assumes "user_access_ok vm (Some a) s 1 wr" "unat s < 2 ^ 64 - 4096"
  shows "access_ok (leaf vm (pagetable a) s) wr"
proof -
  have "vm_user_check vm (pagetable a) s 1 wr = Some 0" using assms(1) by (auto simp: user_access_ok_def split: if_splits)
  with user_check_range [of 1 s vm "pagetable a" wr] assms(2)
  have "\<forall>x. unat s \<le> x \<and> x < unat s + 1 \<longrightarrow> access_ok (leaf vm (pagetable a) (of_nat x)) wr"
    by (auto split: if_splits)
  from this [rule_format, of "unat s"] show ?thesis by simp
qed

lemma strnlen_loop_spec:
  assumes "strnlen_loop vm (Some a) s n k = r" "0 \<le> r"
  shows "int n \<le> r \<and> r \<le> int (n + k) \<and>
    (\<forall>j. n \<le> j \<and> int j < r \<longrightarrow> user_byte vm (pagetable a) (s + of_nat j) \<noteq> NUL) \<and>
    (r < int (n + k) \<longrightarrow> user_byte vm (pagetable a) (s + of_nat (nat r)) = NUL)"
  using assms
proof (induction k arbitrary: n)
  case 0
  then show ?case by auto
next
  case (Suc k)
  let ?b = "user_byte vm (pagetable a) (s + of_nat n)"
  have c: "copy_from_user vm (Some a) (s + of_nat n) 1 = (1, [?b])"
    and ok: "user_access_ok vm (Some a) (s + of_nat n) 1 False"
    using Suc.prems by (auto simp: copy_from_user_def user_access_ok_def split: if_splits)
  show ?case
  proof (cases "?b = NUL")
    case True
    with Suc.prems c ok have "r = int n" by simp
    with True show ?thesis by auto
  next
    case False
    with Suc.prems c ok have r: "strnlen_loop vm (Some a) s (n + 1) k = r" by simp
    note IH = Suc.IH [OF r Suc.prems(2)]
    have "user_byte vm (pagetable a) (s + of_nat j) \<noteq> NUL" if "n \<le> j" "int j < r" for j
      using IH that False by (cases "j = n") auto
    with IH show ?thesis by auto
  qed
qed


lemma store_user_frame:
  "store_user vm pt va cs = vm\<lparr>phys := phys (store_user vm pt va cs)\<rparr> \<and>
   (\<forall>x. x \<notin> (\<lambda>i. user_pa vm pt (va + of_nat i)) ` {..<length cs} \<longrightarrow> phys (store_user vm pt va cs) x = phys vm x)"
proof (induction cs arbitrary: vm va)
  case Nil
  then show ?case by simp
next
  case (Cons c cs)
  let ?vm = "vm\<lparr>phys := (phys vm)(user_pa vm pt va := c)\<rparr>"
  have pa: "user_pa ?vm = user_pa vm" by (simp add: fun_eq_iff user_pa_def)
  have im: "(\<lambda>i. user_pa vm pt (va + of_nat i)) ` {..<length (c # cs)} =
      insert (user_pa vm pt va) ((\<lambda>i. user_pa vm pt (va + 1 + of_nat i)) ` {..<length cs})"
    by (simp add: lessThan_Suc_eq_insert_0 image_image add.assoc)
  show ?case using Cons.IH [of ?vm "va + 1"] unfolding im by (auto simp: pa)
qed

section \<open>Properties\<close>

text \<open>C9: A copy to user memory can only write where the current agent could write itself.  For a range that
  ends below the last page, the copy either refuses and changes nothing, or stores only into
  frames of pages that the agent's table maps user-accessible and writable; the page tables and every
  other byte of memory are unchanged.\<close>

theorem copy_to_user_confined:
  assumes "copy_to_user vm (Some a) dst src = (vm', rc)" "unat dst + length src \<le> 2 ^ 64 - 4096"
  shows "(rc < 0 \<and> vm' = vm) \<or>
    (rc = int (length src) \<and> vm' = vm\<lparr>phys := phys vm'\<rparr> \<and>
     (\<forall>i < length src. access_ok (leaf vm (pagetable a) (dst + of_nat i)) True) \<and>
     (\<forall>x. (\<forall>i < length src. x \<noteq> user_pa vm (pagetable a) (dst + of_nat i)) \<longrightarrow> phys vm' x = phys vm x))"
proof -
  let ?len = "of_nat (length src) :: u64"
  have l: "unat ?len = length src" using assms(2) by (simp add: unat_of_nat64)
  have e: "copy_to_user vm (Some a) dst src =
      (if dst = 0 then (vm, EFAULT) else if ?len = 0 then (vm, 0)
       else if \<not> user_access_ok vm (Some a) dst ?len True then (vm, EFAULT)
       else (store_user vm (pagetable a) dst src, uint ?len))"
    by (simp add: copy_to_user_def Let_def)
  show ?thesis
  proof (cases "dst \<noteq> 0 \<and> ?len \<noteq> 0 \<and> user_access_ok vm (Some a) dst ?len True")
    case False
    then have "(rc < 0 \<and> vm' = vm) \<or> (?len = 0 \<and> vm' = vm \<and> rc = 0)" using assms(1) e by (auto split: if_splits)
    moreover have "?len = 0 \<Longrightarrow> src = []" using l by simp
    ultimately show ?thesis by auto
  next
    case True
    then have ok: "src \<noteq> []" "user_access_ok vm (Some a) dst ?len True" "vm' = store_user vm (pagetable a) dst src" "rc = uint ?len"
      using assms(1) e by auto
    have "vm_user_check vm (pagetable a) dst ?len True = Some 0"
      using ok(2) by (auto simp: user_access_ok_def split: if_splits)
    with user_check_range [of ?len dst vm "pagetable a" True] ok(1) assms(2) l
    have acc: "access_ok (leaf vm (pagetable a) (of_nat x)) True" if "unat dst \<le> x" "x < unat dst + length src" for x
      using that by (auto split: if_splits)
    have "access_ok (leaf vm (pagetable a) (dst + of_nat i)) True" if "i < length src" for i
      using acc [of "unat dst + i"] that by simp
    moreover have "rc = int (length src)" using ok(4) l by (metis of_nat_unat)
    ultimately show ?thesis using store_user_frame [of vm "pagetable a" dst src] ok(3) by auto
  qed
qed

theorem copy_to_user_confined_witness:
  "snd (copy_to_user boot_vm (Some ro_agent) 0x60000000 ''abc'') < 0 \<and>
   fst (copy_to_user boot_vm (Some ro_agent) 0x60000000 ''abc'') = boot_vm"
proof -
  have "leaf boot_vm p va = None" for p va by (rule leaf_None2) (simp add: boot_vm_def)
  then have "snd (copy_to_user boot_vm (Some ro_agent) 0x60000000 ''abc'') \<noteq> 3"
    using user_check_range [of 3 "0x60000000" boot_vm "pagetable ro_agent" True]
    by (auto simp: copy_to_user_def user_access_ok_def access_ok_def split: if_splits)
  then show ?thesis
    using copy_to_user_confined [of boot_vm ro_agent "0x60000000" "''abc''"]
    by (cases "copy_to_user boot_vm (Some ro_agent) 0x60000000 ''abc''") auto
qed

text \<open>C10: Reading a string from user memory.  When \<open>user_strnlen\<close> reports a length \<open>n\<close>, the copy of
  \<open>n + 1\<close> bytes that follows it in every caller yields, if it succeeds, the \<open>n + 1\<close> bytes the agent has at that address.  The
  first \<open>n\<close> are not NUL; when \<open>n\<close> is below the bound, the last one is, so the copy is exactly the user's
  string with its terminator.\<close>

theorem user_string_copied:
  assumes "user_strnlen vm (Some a) s m = n" "0 \<le> n" "m < 2147483648"
    and "copy_from_user vm (Some a) s (of_int n + 1) = (rc, bytes)" "rc \<ge> 0"
  shows "0 \<le> n \<and> n \<le> m \<and> bytes = map (\<lambda>i. user_byte vm (pagetable a) (s + of_nat i)) [0..<nat n + 1] \<and>
    length bytes = nat n + 1 \<and> NUL \<notin> set (take (nat n) bytes) \<and>
    (n < m \<longrightarrow> cstr bytes = take (nat n) bytes \<and> bytes ! nat n = NUL)"
proof -
  have s: "strnlen_loop vm (Some a) s 0 (nat m) = n" "0 < m"
    using assms(1,2) by (auto simp: user_strnlen_def split: if_splits)
  note S = strnlen_loop_spec [OF s(1) assms(2)]
  have n: "n \<le> m" using S s(2) by simp
  have l: "unat (of_int n + 1 :: u64) = nat n + 1"
    using unat_of_nat64 [of "nat n + 1"] n assms(2,3) by (simp add: of_nat_nat add.commute)
  have len: "length bytes = nat n + 1" and b: "bytes = map (\<lambda>i. user_byte vm (pagetable a) (s + of_nat i)) [0..<nat n + 1]"
    using assms(4,5) l by (auto simp: copy_from_user_def split: if_splits)
  have t: "take (nat n) bytes = map (\<lambda>i. user_byte vm (pagetable a) (s + of_nat i)) [0..<nat n]" by (simp add: b)
  have "user_byte vm (pagetable a) (s + of_nat x) \<noteq> NUL" if "x < nat n" for x
    using S [THEN conjunct2, THEN conjunct2, THEN conjunct1, rule_format, of x] that by simp
  then have nn: "NUL \<notin> set (take (nat n) bytes)" by (force simp: t)
  moreover have "cstr bytes = take (nat n) bytes \<and> bytes ! nat n = NUL" if "n < m"
  proof -
    have z: "bytes ! nat n = NUL" using S that assms(2) by (simp add: b nth_append)
    have "bytes = take (nat n) bytes @ [NUL]" using take_Suc_conv_app_nth [of "nat n" bytes] z len by simp
    with nn z show ?thesis by (metis cstr_append_NUL)
  qed
  ultimately show ?thesis using n len b assms(2) by blast
qed

theorem user_string_copied_witness:
  "snd (copy_from_user (ro_vm\<lparr>phys := (\<lambda>x. if x = 0x80700000 then CHR ''k'' else NUL)\<rparr>) (Some ro_agent) 0x60000000 2) = ''k'' @ [NUL]"
proof -
  let ?vm = "ro_vm\<lparr>phys := (\<lambda>x. if x = 0x80700000 then CHR ''k'' else NUL)\<rparr>"
  obtain rc bytes where c: "copy_from_user ?vm (Some ro_agent) 0x60000000 2 = (rc, bytes)"
    by (cases "copy_from_user ?vm (Some ro_agent) 0x60000000 2")
  have "user_strnlen ?vm (Some ro_agent) 0x60000000 63 = 1" by code_simp
  moreover have "fst (copy_from_user ?vm (Some ro_agent) 0x60000000 2) = 2" by code_simp
  moreover have "user_byte ?vm (pagetable ro_agent) 0x60000000 = CHR ''k''" by code_simp
  ultimately show ?thesis
    using user_string_copied [of ?vm ro_agent "0x60000000" 63 1 rc bytes] c by (auto simp: upt_rec)
qed

end
