(* ===== verification/Ramfs.thy ===== *)
theory Ramfs
  imports Agentos
begin

text \<open>
  The in-memory file system of \<open>kernel/ramfs.c\<close>: a table of 64 slots, each a path of at most 63
  characters, an 8192-byte data array, a size and a used flag.

  A data array is a function of the index; only the indices below 8192 exist.  The field \<open>oob\<close> of
  the state is a ghost flag that is set when a store would leave the array.  Kernel callers
  pass non-null paths and buffers, so the null tests of the C functions have no counterpart; the
  tests on lengths do.  A read returns the bytes it stores into the caller's buffer beside the
  return code.

  The lemmas relate the table to the map \<open>fs_map\<close> from paths to contents: reads, writes and puts
  are the operations of that map, for paths that fit a slot.  The locale \<open>file_store\<close> is this contract; the
  components that keep their data in files (audit, namespace, tenant, session, policy,
  persist) use it through the interpretation \<open>rfs\<close>.
\<close>

section \<open>Definitions\<close>

record ramfs_file =
  fpath :: string
  fdata :: "nat \<Rightarrow> char"
  fsize :: nat
  fused :: bool

record ramfs =
  files :: "ramfs_file list"
  oob :: bool

fun str_eq :: "string \<Rightarrow> string \<Rightarrow> bool" where
  "str_eq (a # as) (b # bs) = (if a \<noteq> b then False else str_eq as bs)"
| "str_eq as bs = (as = [] \<and> bs = [])"

definition str_copy :: "nat \<Rightarrow> string \<Rightarrow> string" where
  "str_copy cap src = take (cap - 1) src"

definition ramfs_find :: "ramfs \<Rightarrow> string \<Rightarrow> nat option" where
  "ramfs_find fs path = find_idx (\<lambda>f. fused f \<and> str_eq (fpath f) path) (files fs)"

definition ramfs_lookup :: "ramfs \<Rightarrow> string \<Rightarrow> bool \<Rightarrow> ramfs \<times> nat option" where
  "ramfs_lookup fs path create =
     (case ramfs_find fs path of
        Some i \<Rightarrow> (fs, Some i)
      | None \<Rightarrow>
          if \<not> create then (fs, None)
          else (case find_idx (\<lambda>f. \<not> fused f) (files fs) of
                  Some i \<Rightarrow>
                    (fs\<lparr>files := (files fs)[i := (files fs ! i)\<lparr>fused := True, fsize := 0,
                       fpath := str_copy RAMFS_PATH_MAX path\<rparr>]\<rparr>, Some i)
                | None \<Rightarrow> (fs, None)))"

fun store_bytes :: "u64 \<Rightarrow> string \<Rightarrow> (nat \<Rightarrow> char) \<times> bool \<Rightarrow> (nat \<Rightarrow> char) \<times> bool" where
  "store_bytes off [] (d, bad) = (d, bad)"
| "store_bytes off (c # cs) (d, bad) =
     store_bytes (off + 1) cs
       (if unat off < RAMFS_FILE_SIZE then (d(unat off := c), bad) else (d, True))"

definition ramfs_seed :: "ramfs \<Rightarrow> string \<Rightarrow> string \<Rightarrow> ramfs" where
  "ramfs_seed fs path content =
     (case ramfs_lookup fs path True of
        (fs1, None) \<Rightarrow> fs1
      | (fs1, Some i) \<Rightarrow>
          let bs = take (RAMFS_FILE_SIZE - 1) content;
              (d, bad) = store_bytes 0 (bs @ [NUL]) (fdata (files fs1 ! i), oob fs1)
          in fs1\<lparr>files := (files fs1)[i := (files fs1 ! i)\<lparr>fdata := d, fsize := length bs\<rparr>],
                 oob := bad\<rparr>)"

definition ramfs_init :: "ramfs \<Rightarrow> ramfs" where
  "ramfs_init fs =
     (let fs0 = fs\<lparr>files := map (\<lambda>f. f\<lparr>fused := False\<rparr>) (files fs)\<rparr>;
          fs1 = ramfs_seed fs0 ''/sys/version'' ''OpenAgentOS v1.0''
      in ramfs_seed fs1 ''/sys/tick_hz'' ''10000000'')"

definition ramfs_read :: "ramfs \<Rightarrow> string \<Rightarrow> u64 \<Rightarrow> int \<Rightarrow> int \<times> string" where
  "ramfs_read fs path offset len =
     (if len \<le> 0 then (EINVAL, [])
      else
        (case ramfs_lookup fs path False of
           (_, None) \<Rightarrow> (ENOENT, [])
         | (_, Some i) \<Rightarrow>
             let f = files fs ! i
             in if offset \<ge> of_nat (fsize f) then (0, [])
                else
                  let n = (if offset + of_int len > of_nat (fsize f)
                           then int (fsize f) - wrap32 (uint offset) else len)
                  in (n, map (\<lambda>k. fdata f (unat (offset + of_nat k))) [0..<nat n])))"

definition ramfs_write :: "ramfs \<Rightarrow> string \<Rightarrow> u64 \<Rightarrow> string \<Rightarrow> int \<Rightarrow> ramfs \<times> int" where
  "ramfs_write fs path offset buf len =
     (if len \<le> 0 then (fs, EINVAL)
      else
        (case ramfs_lookup fs path True of
           (fs1, None) \<Rightarrow> (fs1, ENOSPC)
         | (fs1, Some i) \<Rightarrow>
             if offset + of_int len \<ge> of_nat RAMFS_FILE_SIZE then (fs1, EINVAL)
             else
               let f = files fs1 ! i;
                   (d, bad) = store_bytes offset (take (nat len) buf) (fdata f, oob fs1);
                   sz = (if offset + of_int len > of_nat (fsize f)
                         then nat (wrap32 (uint (offset + of_int len))) else fsize f)
               in (fs1\<lparr>files := (files fs1)[i := f\<lparr>fdata := d, fsize := sz\<rparr>], oob := bad\<rparr>, len)))"

definition is_sys_path :: "string \<Rightarrow> bool" where
  "is_sys_path path \<longleftrightarrow> match_at path 1 ''sys''"

definition ramfs_put :: "ramfs \<Rightarrow> string \<Rightarrow> string \<Rightarrow> int \<Rightarrow> ramfs \<times> int" where
  "ramfs_put fs path buf sz =
     (if sz \<le> 0 \<or> sz \<ge> int RAMFS_FILE_SIZE then (fs, EINVAL)
      else
        (case ramfs_lookup fs path True of
           (fs1, None) \<Rightarrow> (fs1, ENOSPC)
         | (fs1, Some i) \<Rightarrow>
             let f = files fs1 ! i;
                 (d, bad) = store_bytes 0 (take (nat sz) buf @ [NUL]) (fdata f, oob fs1)
             in (fs1\<lparr>files := (files fs1)[i := f\<lparr>fdata := d, fsize := nat sz\<rparr>], oob := bad\<rparr>, 0)))"

definition ramfs_path_exists :: "ramfs \<Rightarrow> string \<Rightarrow> bool" where
  "ramfs_path_exists fs path \<longleftrightarrow> snd (ramfs_lookup fs path False) \<noteq> None"

definition agent_prefix :: "int \<Rightarrow> string" where
  "agent_prefix agent_id = ''/agent/'' @ dec_str agent_id @ ''/''"

definition ramfs_count_agent_files :: "ramfs \<Rightarrow> int \<Rightarrow> int" where
  "ramfs_count_agent_files fs agent_id =
     int (length (filter (\<lambda>f. fused f \<and> \<not> is_sys_path (fpath f) \<and>
                              match_at (fpath f) 0 (agent_prefix agent_id)) (files fs)))"

definition ramfs_clear_user :: "ramfs \<Rightarrow> ramfs" where
  "ramfs_clear_user fs =
     fs\<lparr>files := map (\<lambda>f. if fused f \<and> \<not> is_sys_path (fpath f) then f\<lparr>fused := False\<rparr> else f) (files fs)\<rparr>"

definition user_files :: "ramfs \<Rightarrow> ramfs_file list" where
  "user_files fs = filter (\<lambda>f. fused f \<and> \<not> is_sys_path (fpath f)) (files fs)"

definition ramfs_user_count :: "ramfs \<Rightarrow> int" where
  "ramfs_user_count fs = int (length (user_files fs))"

definition fcontents :: "ramfs_file \<Rightarrow> string" where
  "fcontents f = map (fdata f) [0..<fsize f]"

definition ramfs_user_get :: "ramfs \<Rightarrow> nat \<Rightarrow> int \<Rightarrow> int \<times> string \<times> string" where
  "ramfs_user_get fs idx cap =
     (if cap \<le> 0 then (EINVAL, [], [])
      else if idx < length (user_files fs) then
        (let f = user_files fs ! idx;
             p = str_copy RAMFS_PATH_MAX (fpath f)
         in if int (fsize f) \<ge> cap then (EINVAL, p, [])
            else (int (fsize f), p, fcontents f))
      else (ENOENT, [], []))"

subsection \<open>The size probe\<close>

text \<open>
  Several components find the size of a file by reading one byte at a growing offset;
  \<open>r off\<close> is the return code of that read.
\<close>

function size_loop :: "(nat \<Rightarrow> int) \<Rightarrow> nat \<Rightarrow> int" where
  "size_loop r off =
     (if off < RAMFS_FILE_SIZE then (if r off \<le> 0 then int off else size_loop r (off + 1))
      else int RAMFS_FILE_SIZE)"
  by pat_completeness auto
termination
  by (relation "measure (\<lambda>(r, off). RAMFS_FILE_SIZE - off)") auto

definition file_usage :: "ramfs \<Rightarrow> string \<Rightarrow> int" where
  "file_usage fs path =
     (if fst (ramfs_read fs path 0 1) < 0 then 0
      else size_loop (\<lambda>off. fst (ramfs_read fs path (of_nat off) 1)) 1)"

subsection \<open>The map a table stands for\<close>

definition fs_map :: "ramfs \<Rightarrow> string \<Rightarrow> string option" where
  "fs_map fs path = map_option (\<lambda>i. fcontents (files fs ! i)) (ramfs_find fs path)"

definition path_fits :: "string \<Rightarrow> bool" where
  "path_fits path \<longleftrightarrow> length path < RAMFS_PATH_MAX"

definition ramfs_inv :: "ramfs \<Rightarrow> bool" where
  "ramfs_inv fs \<longleftrightarrow>
     length (files fs) = RAMFS_MAX_FILES \<and> \<not> oob fs \<and>
     (\<forall>i < length (files fs). fused (files fs ! i) \<longrightarrow>
        path_fits (fpath (files fs ! i)) \<and> fsize (files fs ! i) < RAMFS_FILE_SIZE) \<and>
     (\<forall>i < length (files fs). \<forall>j < length (files fs).
        fused (files fs ! i) \<and> fused (files fs ! j) \<and> fpath (files fs ! i) = fpath (files fs ! j)
        \<longrightarrow> i = j)"

declare size_loop.simps [simp del]

section \<open>Slots and paths\<close>

lemma str_eq_iff [simp]: "str_eq a b \<longleftrightarrow> a = b"
  by (induction a b rule: str_eq.induct) auto

lemma str_copy_fits [simp]: "path_fits p \<Longrightarrow> str_copy RAMFS_PATH_MAX p = p"
  by (simp add: str_copy_def path_fits_def)

lemma length_fcontents [simp]: "length (fcontents f) = fsize f"
  by (simp add: fcontents_def)

lemma store_bytes_in_range:
  "unat off + length bs \<le> RAMFS_FILE_SIZE \<Longrightarrow>
   store_bytes off bs (d, bad) =
     (\<lambda>j. if unat off \<le> j \<and> j < unat off + length bs then bs ! (j - unat off) else d j, bad)"
proof (induction bs arbitrary: off d)
  case Nil
  then show ?case by (auto simp: fun_eq_iff)
next
  case (Cons c cs)
  have u: "unat off < RAMFS_FILE_SIZE" using Cons.prems by simp
  have s: "unat (off + 1) = unat off + 1"
    using u by (simp add: unat_word_ariths)
  have "store_bytes off (c # cs) (d, bad) = store_bytes (off + 1) cs (d(unat off := c), bad)"
    using u by simp
  also have "\<dots> = (\<lambda>j. if unat (off + 1) \<le> j \<and> j < unat (off + 1) + length cs
      then cs ! (j - unat (off + 1)) else (d(unat off := c)) j, bad)"
    by (rule Cons.IH) (use Cons.prems s in simp)
  also have "\<dots> = (\<lambda>j. if unat off \<le> j \<and> j < unat off + length (c # cs)
      then (c # cs) ! (j - unat off) else d j, bad)"
  proof -
    have "(c # cs) ! (j - unat off) = cs ! (j - (unat off + 1))" if "unat off < j" for j
      using that by (simp add: nth_Cons')
    then show ?thesis by (auto simp: fun_eq_iff s)
  qed
  finally show ?case .
qed

lemma store_bytes_0:
  "length bs \<le> RAMFS_FILE_SIZE \<Longrightarrow>
   store_bytes 0 bs (d, bad) = (\<lambda>j. if j < length bs then bs ! j else d j, bad)"
  using store_bytes_in_range [of 0 bs d bad] by (simp cong: if_cong)

lemma ramfs_find_iff:
  assumes "ramfs_inv fs"
  shows "ramfs_find fs p = Some i \<longleftrightarrow>
    i < length (files fs) \<and> fused (files fs ! i) \<and> fpath (files fs ! i) = p"
proof
  assume "ramfs_find fs p = Some i"
  then show "i < length (files fs) \<and> fused (files fs ! i) \<and> fpath (files fs ! i) = p"
    by (auto simp: ramfs_find_def dest: find_idx_SomeD)
next
  assume i: "i < length (files fs) \<and> fused (files fs ! i) \<and> fpath (files fs ! i) = p"
  show "ramfs_find fs p = Some i"
    unfolding ramfs_find_def
    by (rule find_idx_unique) (use i assms in \<open>auto simp: ramfs_inv_def\<close>)
qed

lemma ramfs_find_None_iff:
  "ramfs_find fs p = None \<longleftrightarrow> (\<forall>i < length (files fs). \<not> (fused (files fs ! i) \<and> fpath (files fs ! i) = p))"
  by (auto simp: ramfs_find_def find_idx_None_iff all_set_conv_all_nth)

definition slot_for :: "ramfs \<Rightarrow> nat \<Rightarrow> string \<Rightarrow> bool" where
  "slot_for fs i p \<longleftrightarrow> i < length (files fs) \<and>
     (ramfs_find fs p = Some i \<or> ramfs_find fs p = None \<and> \<not> fused (files fs ! i))"

lemma set_slot_find:
  assumes "ramfs_inv fs" "slot_for fs i p" "fused f" "fpath f = p"
  shows "find_idx (\<lambda>f. fused f \<and> fpath f = q) ((files fs)[i := f]) =
    (if q = p then Some i else ramfs_find fs q)"
proof (cases "q = p")
  case True
  have "find_idx (\<lambda>f. fused f \<and> fpath f = p) ((files fs)[i := f]) = Some i"
  proof (rule find_idx_unique)
    fix j
    assume "j < length ((files fs)[i := f])"
      and "fused ((files fs)[i := f] ! j) \<and> fpath ((files fs)[i := f] ! j) = p"
    then show "j = i"
      using assms by (cases "j = i") (auto simp: slot_for_def ramfs_find_iff ramfs_find_None_iff ramfs_inv_def)
  qed (use assms in \<open>auto simp: slot_for_def\<close>)
  with True show ?thesis by simp
next
  case False
  have "find_idx (\<lambda>f. fused f \<and> fpath f = q) ((files fs)[i := f]) =
        find_idx (\<lambda>f. fused f \<and> str_eq (fpath f) q) (files fs)"
  proof (rule find_idx_cong)
    fix j
    assume "j < length ((files fs)[i := f])"
    then show "(fused ((files fs)[i := f] ! j) \<and> fpath ((files fs)[i := f] ! j) = q)
        = (fused (files fs ! j) \<and> str_eq (fpath (files fs ! j)) q)"
      using assms False by (cases "j = i") (auto simp: slot_for_def ramfs_find_iff)
  qed simp
  with False show ?thesis by (simp add: ramfs_find_def)
qed

lemma set_slot_inv:
  assumes "ramfs_inv fs" "slot_for fs i p" "fused f" "fpath f = p" "path_fits p"
    "fsize f < RAMFS_FILE_SIZE"
  shows "ramfs_inv (fs\<lparr>files := (files fs)[i := f]\<rparr>)"
proof -
  have "j = k" if "j < length (files fs)" "k < length (files fs)"
      "fused ((files fs)[i := f] ! j)" "fused ((files fs)[i := f] ! k)"
      "fpath ((files fs)[i := f] ! j) = fpath ((files fs)[i := f] ! k)" for j k
    using that assms
    by (cases "j = i"; cases "k = i") (auto simp: slot_for_def ramfs_find_iff ramfs_find_None_iff ramfs_inv_def)
  moreover have "path_fits (fpath ((files fs)[i := f] ! j)) \<and> fsize ((files fs)[i := f] ! j) < RAMFS_FILE_SIZE"
    if "j < length (files fs)" "fused ((files fs)[i := f] ! j)" for j
    using that assms by (cases "j = i") (auto simp: ramfs_inv_def)
  ultimately show ?thesis using assms(1) by (simp add: ramfs_inv_def)
qed

lemma set_slot_map:
  assumes "ramfs_inv fs" "slot_for fs i p" "fused f" "fpath f = p"
  shows "fs_map (fs\<lparr>files := (files fs)[i := f]\<rparr>) = (fs_map fs)(p \<mapsto> fcontents f)"
proof
  fix q
  have "ramfs_find fs q \<noteq> Some i" if "q \<noteq> p"
    using that assms by (auto simp: slot_for_def ramfs_find_iff)
  moreover have "i < length (files fs)" using assms(2) by (simp add: slot_for_def)
  ultimately show "fs_map (fs\<lparr>files := (files fs)[i := f]\<rparr>) q = ((fs_map fs)(p \<mapsto> fcontents f)) q"
    using set_slot_find [OF assms, of q]
    by (cases "ramfs_find fs q") (auto simp: fs_map_def ramfs_find_def [of "fs\<lparr>files := _\<rparr>"])
qed


lemma ramfs_lookup_existing: "ramfs_find fs p = Some i \<Longrightarrow> ramfs_lookup fs p c = (fs, Some i)"
  by (simp add: ramfs_lookup_def)

lemma ramfs_lookup_read: "ramfs_lookup fs p False = (fs, ramfs_find fs p)"
  by (simp add: ramfs_lookup_def split: option.splits)

definition has_room :: "ramfs \<Rightarrow> string \<Rightarrow> bool" where
  "has_room fs p \<longleftrightarrow> ramfs_find fs p \<noteq> None \<or> (\<exists>f \<in> set (files fs). \<not> fused f)"

text \<open>Looking a fitting path up for writing yields its slot, empty when it is new.\<close>

definition opened :: "ramfs \<Rightarrow> string \<Rightarrow> nat \<Rightarrow> ramfs_file" where
  "opened fs p i =
     (if ramfs_find fs p = Some i then files fs ! i
      else (files fs ! i)\<lparr>fused := True, fsize := 0, fpath := p\<rparr>)"

lemma ramfs_lookup_create:
  assumes "ramfs_inv fs" "path_fits p" "has_room fs p"
  obtains i where "slot_for fs i p"
    "ramfs_lookup fs p True = (fs\<lparr>files := (files fs)[i := opened fs p i]\<rparr>, Some i)"
proof (cases "ramfs_find fs p")
  case (Some i)
  show ?thesis
  proof (rule that [of i])
    show "slot_for fs i p" using Some assms(1) ramfs_find_iff by (auto simp: slot_for_def)
    show "ramfs_lookup fs p True = (fs\<lparr>files := (files fs)[i := opened fs p i]\<rparr>, Some i)"
      using Some by (simp add: ramfs_lookup_existing opened_def)
  qed
next
  case None
  with assms(3) obtain i where i: "find_idx (\<lambda>f. \<not> fused f) (files fs) = Some i"
    using find_idx_None_iff [of "\<lambda>f. \<not> fused f" "files fs"] by (auto simp: has_room_def)
  show ?thesis
  proof (rule that [of i])
    show "slot_for fs i p" using None find_idx_SomeD [OF i] by (simp add: slot_for_def)
    show "ramfs_lookup fs p True = (fs\<lparr>files := (files fs)[i := opened fs p i]\<rparr>, Some i)"
      using None i assms(2) by (simp add: ramfs_lookup_def opened_def)
  qed
qed

lemma ramfs_lookup_full: "\<not> has_room fs p \<Longrightarrow> ramfs_lookup fs p True = (fs, None)"
  by (auto simp: ramfs_lookup_def has_room_def find_idx_None_iff split: option.splits)

lemma opened_props [simp]:
  assumes "ramfs_inv fs" "slot_for fs i p"
  shows "fused (opened fs p i)" "fpath (opened fs p i) = p"
  using assms by (auto simp: opened_def ramfs_find_iff slot_for_def)

lemma opened_contents:
  assumes "ramfs_inv fs" "slot_for fs i p"
  shows "fcontents (opened fs p i) = (case fs_map fs p of None \<Rightarrow> [] | Some c \<Rightarrow> c)"
  using assms by (auto simp: opened_def slot_for_def fs_map_def fcontents_def split: option.splits)

lemma opened_size:
  assumes "ramfs_inv fs" "slot_for fs i p"
  shows "fsize (opened fs p i) < RAMFS_FILE_SIZE"
  using assms by (auto simp: opened_def slot_for_def ramfs_find_iff ramfs_inv_def)

section \<open>The operations on the map\<close>

lemma fs_map_size: "ramfs_inv fs \<Longrightarrow> fs_map fs p = Some c \<Longrightarrow> length c < RAMFS_FILE_SIZE"
  by (auto simp: fs_map_def ramfs_find_iff ramfs_inv_def)

lemma fs_map_fits: "ramfs_inv fs \<Longrightarrow> fs_map fs p = Some c \<Longrightarrow> path_fits p"
  by (auto simp: fs_map_def ramfs_find_iff ramfs_inv_def)

lemma ramfs_read_none:
  "0 < len \<Longrightarrow> fs_map fs p = None \<Longrightarrow> ramfs_read fs p off len = (ENOENT, [])"
  by (simp add: ramfs_read_def ramfs_lookup_read fs_map_def)

lemma ramfs_read_some:
  assumes "ramfs_inv fs" "0 < len" "len < 2147483648" "off < 2147483648" "fs_map fs p = Some c"
  shows "ramfs_read fs p (of_nat off) len =
    (int (length (take (nat len) (drop off c))), take (nat len) (drop off c))"
proof -
  from assms(5) obtain i where i: "ramfs_find fs p = Some i" and c: "c = fcontents (files fs ! i)"
    by (auto simp: fs_map_def)
  let ?f = "files fs ! i"
  have sz: "fsize ?f < 8192" using assms(1) i by (auto simp: ramfs_find_iff ramfs_inv_def)
  have o: "unat (of_nat off :: u64) = off" using assms(4) by (simp add: unat_of_nat64)
  obtain n where n: "len = int n" "0 < n" "n < 2147483648"
    using assms(2,3) nonneg_int_cases [of len] by (metis of_nat_0_less_iff of_nat_less_numeral_iff order_less_imp_le)
  have s: "unat (of_nat (fsize ?f) :: u64) = fsize ?f" using sz by (simp add: unat_of_nat64)
  have on: "unat (of_nat off + of_nat n :: u64) = off + n"
    using assms(4) n(3) by (simp add: unat_of_nat64 flip: of_nat_add)
  have ok: "unat (of_nat off + of_nat k :: u64) = off + k" if "k < n" for k
    using assms(4) n(3) that by (simp add: unat_of_nat64 flip: of_nat_add)
  have len: "int (fsize ?f) - wrap32 (uint (of_nat off :: u64)) = int (fsize ?f) - int off"
    using assms(4) by (simp add: uint_of_nat64)
  show ?thesis
  proof (cases "fsize ?f \<le> off")
    case True
    then have "of_nat off \<ge> (of_nat (fsize ?f) :: u64)" by (simp add: word_le_nat_alt o s)
    with True i c n show ?thesis by (simp add: ramfs_read_def ramfs_lookup_read)
  next
    case False
    then have lt: "\<not> of_nat off \<ge> (of_nat (fsize ?f) :: u64)" by (simp add: word_le_nat_alt o s)
    have gt: "(of_nat off + of_nat n > (of_nat (fsize ?f) :: u64)) = (off + n > fsize ?f)"
      by (simp add: word_less_nat_alt on s)
    let ?m = "min n (fsize ?f - off)"
    have m: "(if of_nat off + of_nat n > (of_nat (fsize ?f) :: u64)
        then int (fsize ?f) - wrap32 (uint (of_nat off :: u64)) else int n) = int ?m"
      using False by (simp add: gt len)
    have "map (\<lambda>k. fdata ?f (unat (of_nat off + of_nat k :: u64))) [0..<?m] = take n (drop off c)"
      by (rule nth_equalityI) (use False ok in \<open>auto simp: c fcontents_def\<close>)
    moreover have "length (take n (drop off c)) = ?m" by (simp add: c)
    ultimately show ?thesis
      using i lt m n by (simp add: ramfs_read_def ramfs_lookup_read Let_def)
  qed
qed


lemma fs_oob: "fs\<lparr>files := fl, oob := b\<rparr> = (fs\<lparr>files := fl\<rparr>)\<lparr>oob := b\<rparr>"
  by simp

lemma fs_oob_same: "oob fs = b \<Longrightarrow> (fs\<lparr>files := fl\<rparr>)\<lparr>oob := b\<rparr> = fs\<lparr>files := fl\<rparr>"
  by (cases fs) simp

lemma inv_oob: "ramfs_inv fs \<Longrightarrow> oob fs = False"
  by (simp add: ramfs_inv_def)

lemma ramfs_put_take [simp]: "ramfs_put fs p (take (nat n) d) n = ramfs_put fs p d n"
  unfolding ramfs_put_def by (simp only: take_take min.idem)

lemma ramfs_put_einval: "n \<le> 0 \<or> n \<ge> 8192 \<Longrightarrow> ramfs_put fs p d n = (fs, EINVAL)"
  by (simp add: ramfs_put_def)

lemma ramfs_put_full:
  "0 < n \<Longrightarrow> n < 8192 \<Longrightarrow> \<not> has_room fs p \<Longrightarrow> ramfs_put fs p d n = (fs, ENOSPC)"
  by (simp add: ramfs_put_def ramfs_lookup_full)

lemma ramfs_put_ok:
  assumes "ramfs_inv fs" "path_fits p" "has_room fs p" "0 < n" "n < 8192" "nat n \<le> length d"
  shows "snd (ramfs_put fs p d n) = 0 \<and> ramfs_inv (fst (ramfs_put fs p d n)) \<and>
    fs_map (fst (ramfs_put fs p d n)) = (fs_map fs)(p \<mapsto> take (nat n) d)"
proof -
  obtain i where i: "slot_for fs i p"
    and l: "ramfs_lookup fs p True = (fs\<lparr>files := (files fs)[i := opened fs p i]\<rparr>, Some i)"
    using ramfs_lookup_create [OF assms(1-3)] .
  let ?bs = "take (nat n) d @ [NUL]"
  let ?d = "\<lambda>j. if j < length ?bs then ?bs ! j else fdata (opened fs p i) j"
  let ?f = "(opened fs p i)\<lparr>fdata := ?d, fsize := nat n\<rparr>"
  have il: "i < length (files fs)" using i by (simp add: slot_for_def)
  have "store_bytes 0 ?bs (fdata (opened fs p i), oob fs) = (?d, oob fs)"
    using assms(5,6) by (intro store_bytes_0) simp
  then have e: "ramfs_put fs p d n = (fs\<lparr>files := (files fs)[i := ?f]\<rparr>, 0)"
    using assms(4,5) l il by (simp add: ramfs_put_def Let_def fs_oob_same)
  have "fcontents ?f = take (nat n) d"
    by (rule nth_equalityI) (use assms(6) in \<open>auto simp: fcontents_def nth_append\<close>)
  moreover have "fused ?f" "fpath ?f = p" "fsize ?f < RAMFS_FILE_SIZE"
    using opened_props [OF assms(1) i] assms(4,5) by auto
  ultimately show ?thesis
    using e set_slot_inv [OF assms(1) i _ _ assms(2)] set_slot_map [OF assms(1) i] by simp
qed

lemma ramfs_write_einval: "n \<le> 0 \<Longrightarrow> ramfs_write fs p off d n = (fs, EINVAL)"
  by (simp add: ramfs_write_def)

lemma ramfs_write_full: "0 < n \<Longrightarrow> \<not> has_room fs p \<Longrightarrow> ramfs_write fs p off d n = (fs, ENOSPC)"
  by (simp add: ramfs_write_def ramfs_lookup_full)

lemma word64_of_int: "0 \<le> n \<Longrightarrow> n < 18446744073709551616 \<Longrightarrow> unat (of_int n :: u64) = nat n"
  using unat_of_nat64 [of "nat n"] by simp

lemma ramfs_write_ok:
  assumes "ramfs_inv fs" "path_fits p" "has_room fs p" "0 < n" "n < 8192" "nat n \<le> length d"
  shows "snd (ramfs_write fs p 0 d n) = n \<and> ramfs_inv (fst (ramfs_write fs p 0 d n)) \<and>
    fs_map (fst (ramfs_write fs p 0 d n)) =
      (fs_map fs)(p \<mapsto> take (nat n) d @ drop (nat n) (case fs_map fs p of None \<Rightarrow> [] | Some c \<Rightarrow> c))"
proof -
  obtain i where i: "slot_for fs i p"
    and l: "ramfs_lookup fs p True = (fs\<lparr>files := (files fs)[i := opened fs p i]\<rparr>, Some i)"
    using ramfs_lookup_create [OF assms(1-3)] .
  let ?bs = "take (nat n) d"
  let ?o = "opened fs p i"
  let ?d = "\<lambda>j. if j < length ?bs then ?bs ! j else fdata ?o j"
  let ?f = "?o\<lparr>fdata := ?d, fsize := max (nat n) (fsize ?o)\<rparr>"
  have il: "i < length (files fs)" using i by (simp add: slot_for_def)
  have w: "unat (of_int n :: u64) = nat n" using assms(4,5) by (intro word64_of_int) auto
  have sz: "fsize ?o < 8192" using opened_size [OF assms(1) i] by simp
  have s: "unat (of_nat (fsize ?o) :: u64) = fsize ?o" using sz by (simp add: unat_of_nat64)
  have c1: "\<not> (of_int n :: u64) \<ge> of_nat RAMFS_FILE_SIZE"
    using assms(5) w by (simp add: word_le_nat_alt)
  have c2: "((of_int n :: u64) > of_nat (fsize ?o)) = (nat n > fsize ?o)"
    by (simp add: word_less_nat_alt w s)
  have c3: "uint (of_int n :: u64) = n" using w assms(4) by (metis int_nat_eq of_nat_unat order_less_imp_le)
  have "store_bytes 0 ?bs (fdata ?o, oob fs) = (?d, oob fs)"
    using assms(5,6) by (intro store_bytes_0) simp
  then have e: "ramfs_write fs p 0 d n = (fs\<lparr>files := (files fs)[i := ?f]\<rparr>, n)"
    using assms(4,5) l il c1 c2 c3 by (simp add: ramfs_write_def Let_def fs_oob_same max_def)
  have "fcontents ?f = ?bs @ drop (nat n) (fcontents ?o)"
    by (rule nth_equalityI) (use assms(6) in \<open>auto simp: fcontents_def nth_append\<close>)
  moreover have "fused ?f" "fpath ?f = p" "fsize ?f < RAMFS_FILE_SIZE"
    using opened_props [OF assms(1) i] assms(4,5) sz by auto
  ultimately show ?thesis
    using e set_slot_inv [OF assms(1) i _ _ assms(2)] set_slot_map [OF assms(1) i]
      opened_contents [OF assms(1) i] by simp
qed

lemma ramfs_write_too_long:
  assumes "ramfs_inv fs" "path_fits p" "has_room fs p" "8192 \<le> n" "n < 2147483648"
  shows "snd (ramfs_write fs p 0 d n) = EINVAL \<and> ramfs_inv (fst (ramfs_write fs p 0 d n)) \<and>
    fs_map (fst (ramfs_write fs p 0 d n)) =
      (fs_map fs)(p \<mapsto> (case fs_map fs p of None \<Rightarrow> [] | Some c \<Rightarrow> c))"
proof -
  obtain i where i: "slot_for fs i p"
    and l: "ramfs_lookup fs p True = (fs\<lparr>files := (files fs)[i := opened fs p i]\<rparr>, Some i)"
    using ramfs_lookup_create [OF assms(1-3)] .
  have w: "unat (of_int n :: u64) = nat n" using assms(4,5) by (intro word64_of_int) auto
  have c1: "(of_int n :: u64) \<ge> of_nat RAMFS_FILE_SIZE"
    using assms(4) w by (simp add: word_le_nat_alt)
  then have e: "ramfs_write fs p 0 d n = (fs\<lparr>files := (files fs)[i := opened fs p i]\<rparr>, EINVAL)"
    using assms(4) l by (simp add: ramfs_write_def)
  show ?thesis
    using e set_slot_inv [OF assms(1) i _ _ assms(2)] set_slot_map [OF assms(1) i]
      opened_contents [OF assms(1) i] opened_size [OF assms(1) i] opened_props [OF assms(1) i] by simp
qed


section \<open>The file store contract\<close>

text \<open>
  The contract the file-backed components use.  \<open>cont\<close> is the map from paths to contents,
  \<open>room\<close> says that a path has a slot or can get one.  The lemmas of the locale are the access
  patterns these components share: the size probe, and reading a whole file.
\<close>

locale file_store =
  fixes rd :: "'s \<Rightarrow> string \<Rightarrow> u64 \<Rightarrow> int \<Rightarrow> int \<times> string"
    and pt :: "'s \<Rightarrow> string \<Rightarrow> string \<Rightarrow> int \<Rightarrow> 's \<times> int"
    and wr :: "'s \<Rightarrow> string \<Rightarrow> u64 \<Rightarrow> string \<Rightarrow> int \<Rightarrow> 's \<times> int"
    and cont :: "'s \<Rightarrow> string \<Rightarrow> string option"
    and room :: "'s \<Rightarrow> string \<Rightarrow> bool"
    and invar :: "'s \<Rightarrow> bool"
  assumes cont_size: "invar s \<Longrightarrow> cont s p = Some c \<Longrightarrow> length c < 8192"
    and cont_room: "invar s \<Longrightarrow> cont s p = Some c \<Longrightarrow> room s p"
    and read_none: "0 < len \<Longrightarrow> cont s p = None \<Longrightarrow> rd s p off len = (ENOENT, [])"
    and read_some: "invar s \<Longrightarrow> 0 < len \<Longrightarrow> len < 2147483648 \<Longrightarrow> o1 < 2147483648 \<Longrightarrow> cont s p = Some c \<Longrightarrow>
      rd s p (of_nat o1) len = (int (length (take (nat len) (drop o1 c))), take (nat len) (drop o1 c))"
    and put_einval: "n \<le> 0 \<or> n \<ge> 8192 \<Longrightarrow> pt s p d n = (s, EINVAL)"
    and put_full: "0 < n \<Longrightarrow> n < 8192 \<Longrightarrow> \<not> room s p \<Longrightarrow> pt s p d n = (s, ENOSPC)"
    and put_ok: "invar s \<Longrightarrow> path_fits p \<Longrightarrow> room s p \<Longrightarrow> 0 < n \<Longrightarrow> n < 8192 \<Longrightarrow> nat n \<le> length d \<Longrightarrow>
      snd (pt s p d n) = 0 \<and> invar (fst (pt s p d n)) \<and>
      cont (fst (pt s p d n)) = (cont s)(p \<mapsto> take (nat n) d)"
    and write_ok: "invar s \<Longrightarrow> path_fits p \<Longrightarrow> room s p \<Longrightarrow> 0 < n \<Longrightarrow> n < 8192 \<Longrightarrow> nat n \<le> length d \<Longrightarrow>
      snd (wr s p 0 d n) = n \<and> invar (fst (wr s p 0 d n)) \<and>
      cont (fst (wr s p 0 d n)) =
        (cont s)(p \<mapsto> take (nat n) d @ drop (nat n) (case cont s p of None \<Rightarrow> [] | Some c \<Rightarrow> c))"
    and write_full: "0 < n \<Longrightarrow> \<not> room s p \<Longrightarrow> wr s p off d n = (s, ENOSPC)"
begin

lemma read0: "invar s \<Longrightarrow> 0 < len \<Longrightarrow> len < 2147483648 \<Longrightarrow> cont s p = Some c \<Longrightarrow>
    rd s p 0 len = (int (length (take (nat len) c)), take (nat len) c)"
  using read_some [of s len 0 p c] by simp

lemma read_all: "invar s \<Longrightarrow> int (length c) \<le> len \<Longrightarrow> 0 < len \<Longrightarrow> len < 2147483648 \<Longrightarrow> cont s p = Some c \<Longrightarrow>
    rd s p 0 len = (int (length c), c)"
  using read0 [of s len p c] by simp

lemma put_frame:
  assumes "invar s" "path_fits p" "0 < n \<and> n < 8192 \<longrightarrow> nat n \<le> length d"
  shows "invar (fst (pt s p d n)) \<and> (\<forall>q. q \<noteq> p \<longrightarrow> cont (fst (pt s p d n)) q = cont s q)"
proof (cases "0 < n \<and> n < 8192 \<and> room s p")
  case True
  with put_ok [OF assms(1,2), of n d] assms(3) show ?thesis by auto
next
  case False
  then have "fst (pt s p d n) = s"
    using put_einval [of n s p d] put_full [of n s p d] by (cases "0 < n \<and> n < 8192") auto
  with assms(1) show ?thesis by simp
qed

lemma probe_byte: "invar s \<Longrightarrow> o1 < 2147483648 \<Longrightarrow> cont s p = Some c \<Longrightarrow>
    fst (rd s p (of_nat o1) 1) = (if o1 < length c then 1 else 0)"
  using read_some [of s 1 o1 p c] by (auto simp: min_def)

lemma size_loop_length:
  assumes "invar s" "cont s p = Some c" "k \<le> 8192" "k \<le> length c \<or> k = 1"
  shows "size_loop (\<lambda>o1. fst (rd s p (of_nat o1) 1)) k = int (max k (length c))"
  using assms(3,4)
proof (induction "8192 - k" arbitrary: k rule: less_induct)
  case less
  have c: "length c < 8192" using cont_size [OF assms(1,2)] .
  show ?case
  proof (cases "k < 8192")
    case True
    have "fst (rd s p (of_nat k) 1) = (if k < length c then 1 else 0)"
      using True probe_byte [OF assms(1) _ assms(2), of k] by simp
    moreover have "size_loop (\<lambda>o1. fst (rd s p (of_nat o1) 1)) (k + 1) = int (max (k + 1) (length c))"
      if "k < length c"
      using True that less.hyps [of "k + 1"] by simp
    ultimately show ?thesis using True less.prems
      by (subst size_loop.simps) (simp split: if_splits)
  next
    case False
    with less.prems c show ?thesis by (subst size_loop.simps) simp
  qed
qed

lemma size_probe: "invar s \<Longrightarrow> cont s p = Some c \<Longrightarrow>
    size_loop (\<lambda>o1. fst (rd s p (of_nat o1) 1)) 1 = int (max 1 (length c))"
  by (rule size_loop_length) auto

end

interpretation rfs: file_store ramfs_read ramfs_put ramfs_write fs_map has_room ramfs_inv
proof unfold_locales
qed (use fs_map_size ramfs_read_none ramfs_read_some ramfs_put_einval ramfs_put_full ramfs_put_ok
      ramfs_write_ok ramfs_write_full in \<open>auto simp: fs_map_def has_room_def\<close>)


lemma file_usage_map:
  assumes "ramfs_inv fs"
  shows "file_usage fs p = (case fs_map fs p of None \<Rightarrow> 0 | Some c \<Rightarrow> int (max 1 (length c)))"
proof (cases "fs_map fs p")
  case None
  then show ?thesis by (simp add: file_usage_def rfs.read_none)
next
  case (Some c)
  with rfs.size_probe [OF assms Some] rfs.read0 [OF assms _ _ Some, of 1] show ?thesis
    by (simp add: file_usage_def)
qed

lemma file_usage_nonneg: "ramfs_inv fs \<Longrightarrow> 0 \<le> file_usage fs p"
  by (simp add: file_usage_map split: option.splits)

lemma ramfs_path_exists_map: "ramfs_path_exists fs p \<longleftrightarrow> fs_map fs p \<noteq> None"
  by (simp add: ramfs_path_exists_def ramfs_lookup_read fs_map_def)

section \<open>Initialisation and clearing\<close>

lemma ramfs_clear_user_find:
  assumes "ramfs_inv fs"
  shows "ramfs_find (ramfs_clear_user fs) p = (if is_sys_path p then ramfs_find fs p else None)"
proof (cases "is_sys_path p")
  case True
  have "ramfs_find (ramfs_clear_user fs) p = ramfs_find fs p"
    unfolding ramfs_find_def
    by (rule find_idx_cong) (use True in \<open>auto simp: ramfs_clear_user_def\<close>)
  with True show ?thesis by simp
next
  case False
  then show ?thesis by (auto simp: ramfs_find_None_iff ramfs_clear_user_def)
qed

lemma ramfs_clear_user_map:
  assumes "ramfs_inv fs"
  shows "fs_map (ramfs_clear_user fs) p = (if is_sys_path p then fs_map fs p else None)"
proof (cases "ramfs_find (ramfs_clear_user fs) p")
  case None
  with ramfs_clear_user_find [OF assms, of p] show ?thesis by (auto simp: fs_map_def)
next
  case (Some i)
  with ramfs_clear_user_find [OF assms, of p] have i: "is_sys_path p" "ramfs_find fs p = Some i"
    by (auto split: if_splits)
  then have "files (ramfs_clear_user fs) ! i = files fs ! i"
    using assms by (simp add: ramfs_clear_user_def ramfs_find_iff)
  with Some i show ?thesis by (simp add: fs_map_def)
qed

lemma ramfs_clear_user_nth:
  "i < length (files fs) \<Longrightarrow> fused (files (ramfs_clear_user fs) ! i) \<Longrightarrow>
   files (ramfs_clear_user fs) ! i = files fs ! i \<and> fused (files fs ! i)"
  by (auto simp: ramfs_clear_user_def split: if_splits)

lemma ramfs_clear_user_frame [simp]:
  "length (files (ramfs_clear_user fs)) = length (files fs)" "oob (ramfs_clear_user fs) = oob fs"
  by (simp_all add: ramfs_clear_user_def)

lemma ramfs_clear_user_inv [inv_intros]:
  assumes "ramfs_inv fs"
  shows "ramfs_inv (ramfs_clear_user fs)"
proof -
  let ?g = "files (ramfs_clear_user fs)"
  have "path_fits (fpath (?g ! i)) \<and> fsize (?g ! i) < RAMFS_FILE_SIZE"
    if "i < length (files fs)" "fused (?g ! i)" for i
    using ramfs_clear_user_nth [OF that] that(1) assms by (simp add: ramfs_inv_def)
  moreover have "i = j" if "i < length (files fs)" "j < length (files fs)"
      "fused (?g ! i)" "fused (?g ! j)" "fpath (?g ! i) = fpath (?g ! j)" for i j
    using ramfs_clear_user_nth [OF that(1,3)] ramfs_clear_user_nth [OF that(2,4)] that assms
    by (simp add: ramfs_inv_def)
  ultimately show ?thesis using assms by (simp add: ramfs_inv_def)
qed

definition blank_file :: ramfs_file where
  "blank_file = \<lparr>fpath = [], fdata = (\<lambda>_. NUL), fsize = 0, fused = False\<rparr>"

definition blank_fs :: ramfs where
  "blank_fs = \<lparr>files = replicate RAMFS_MAX_FILES blank_file, oob = False\<rparr>"

lemma blank_fs_inv [simp]: "ramfs_inv blank_fs"
  by (simp add: ramfs_inv_def blank_fs_def blank_file_def)

lemma blank_fs_map [simp]: "fs_map blank_fs = Map.empty"
  by (auto simp: fs_map_def ramfs_find_None_iff blank_fs_def blank_file_def)

lemma blank_fs_room [simp]: "has_room blank_fs p"
  by (simp add: has_room_def blank_fs_def blank_file_def)

lemma ramfs_seed_put:
  assumes "ramfs_inv fs" "path_fits p" "has_room fs p" "0 < length c" "length c < 8192"
  shows "ramfs_seed fs p c = fst (ramfs_put fs p c (int (length c)))"
proof -
  obtain i where "ramfs_lookup fs p True = (fs\<lparr>files := (files fs)[i := opened fs p i]\<rparr>, Some i)"
    using ramfs_lookup_create [OF assms(1-3)] .
  with assms(4,5) show ?thesis
    by (simp add: ramfs_seed_def ramfs_put_def Let_def split: prod.splits)
qed

lemma has_room_map: "ramfs_inv fs \<Longrightarrow> card (dom (fs_map fs)) < RAMFS_MAX_FILES \<Longrightarrow> has_room fs p"
proof (rule ccontr)
  assume inv: "ramfs_inv fs" and c: "card (dom (fs_map fs)) < RAMFS_MAX_FILES" and n: "\<not> has_room fs p"
  let ?g = "\<lambda>i. fpath (files fs ! i)"
  have u: "fused (files fs ! i)" if "i < length (files fs)" for i
    using n that by (auto simp: has_room_def)
  have "inj_on ?g {..<length (files fs)}"
    using inv u by (auto simp: inj_on_def ramfs_inv_def)
  then have "card (?g ` {..<length (files fs)}) = RAMFS_MAX_FILES"
    using inv by (simp add: card_image ramfs_inv_def)
  moreover have "?g ` {..<length (files fs)} \<subseteq> dom (fs_map fs)"
  proof
    fix q
    assume "q \<in> ?g ` {..<length (files fs)}"
    then obtain i where "i < length (files fs)" "q = ?g i" by auto
    then have "ramfs_find fs q = Some i" using inv u by (simp add: ramfs_find_iff)
    then show "q \<in> dom (fs_map fs)" by (auto simp: fs_map_def)
  qed
  moreover have "finite (dom (fs_map fs))"
  proof (rule finite_subset)
    show "dom (fs_map fs) \<subseteq> ?g ` {..<length (files fs)}"
      using inv by (auto simp: fs_map_def ramfs_find_iff)
  qed simp
  ultimately have "RAMFS_MAX_FILES \<le> card (dom (fs_map fs))" using card_mono by metis
  with c show False by simp
qed


lemma ramfs_init_inv:
  assumes "length (files fs) = RAMFS_MAX_FILES" "\<not> oob fs"
  shows "ramfs_inv (ramfs_init fs) \<and>
    fs_map (ramfs_init fs) = [''/sys/version'' \<mapsto> ''OpenAgentOS v1.0'', ''/sys/tick_hz'' \<mapsto> ''10000000'']"
proof -
  let ?fs0 = "fs\<lparr>files := map (\<lambda>f. f\<lparr>fused := False\<rparr>) (files fs)\<rparr>"
  have i0: "ramfs_inv ?fs0" using assms by (simp add: ramfs_inv_def)
  have m0: "fs_map ?fs0 = Map.empty" by (auto simp: fs_map_def ramfs_find_None_iff)
  have p1: "path_fits ''/sys/version''" and p2: "path_fits ''/sys/tick_hz''"
    by (simp_all add: path_fits_def)
  have r0: "has_room ?fs0 p" for p using has_room_map [OF i0] m0 by simp
  let ?fs1 = "ramfs_seed ?fs0 ''/sys/version'' ''OpenAgentOS v1.0''"
  have "ramfs_inv ?fs1 \<and> fs_map ?fs1 = [''/sys/version'' \<mapsto> ''OpenAgentOS v1.0'']"
    using ramfs_put_ok [OF i0 p1 r0, of 16 "''OpenAgentOS v1.0''"]
      ramfs_seed_put [OF i0 p1 r0, of "''OpenAgentOS v1.0''"] m0 by simp
  then have i1: "ramfs_inv ?fs1" and m1: "fs_map ?fs1 = [''/sys/version'' \<mapsto> ''OpenAgentOS v1.0'']"
    by auto
  have r1: "has_room ?fs1 p" for p using has_room_map [OF i1] m1 by simp
  have "ramfs_inv (ramfs_seed ?fs1 ''/sys/tick_hz'' ''10000000'') \<and>
      fs_map (ramfs_seed ?fs1 ''/sys/tick_hz'' ''10000000'') =
        [''/sys/version'' \<mapsto> ''OpenAgentOS v1.0'', ''/sys/tick_hz'' \<mapsto> ''10000000'']"
    using ramfs_put_ok [OF i1 p2 r1, of 8 "''10000000''"]
      ramfs_seed_put [OF i1 p2 r1, of "''10000000''"] m1 by simp
  then show ?thesis by (simp add: ramfs_init_def Let_def)
qed

section \<open>Properties\<close>

text \<open>C3: Storing then reading.  A put of 1 to 8191 bytes under a path that fits a slot
  succeeds whenever the path exists or a slot is free; afterwards reading the path at any
  offset gives the corresponding bytes of the new content, every other path reads as before,
  the table is well formed and no store left its array.\<close>

theorem ramfs_put_read:
  assumes "ramfs_inv fs" "path_fits p" "has_room fs p"
    and "0 < n" "n < 8192" "nat n \<le> length d"
    and "0 < len" "len < 2147483648" "off < 2147483648"
  shows "snd (ramfs_put fs p d n) = 0 \<and> ramfs_inv (fst (ramfs_put fs p d n)) \<and>
    snd (ramfs_read (fst (ramfs_put fs p d n)) p (of_nat off) len)
      = take (nat len) (drop off (take (nat n) d)) \<and>
    (\<forall>q. q \<noteq> p \<longrightarrow> ramfs_read (fst (ramfs_put fs p d n)) q (of_nat off) len
      = ramfs_read fs q (of_nat off) len)"
proof -
  let ?fs = "fst (ramfs_put fs p d n)"
  have put: "snd (ramfs_put fs p d n) = 0" "ramfs_inv ?fs" "fs_map ?fs = (fs_map fs)(p \<mapsto> take (nat n) d)"
    using ramfs_put_ok [OF assms(1-6)] by auto
  have "ramfs_read ?fs q (of_nat off) len = ramfs_read fs q (of_nat off) len" if "q \<noteq> p" for q
  proof (cases "fs_map fs q")
    case None
    with that put(3) assms(7) show ?thesis by (simp add: ramfs_read_none)
  next
    case (Some c)
    with that put assms show ?thesis by (simp add: ramfs_read_some)
  qed
  with put ramfs_read_some [OF put(2) assms(7-9), of p] show ?thesis by simp
qed

theorem ramfs_put_read_witness:
  "snd (ramfs_read (fst (ramfs_put blank_fs ''/agent/1/a'' ''hello'' 5)) ''/agent/1/a'' (of_nat 1) 3) = ''ell''"
  using ramfs_put_read [of blank_fs "''/agent/1/a''" 5 "''hello''" 3 1] by (simp add: path_fits_def)

text \<open>C4: Writing at offset 0 overlays the new bytes on the old content and never shortens the
  file; a request of 8192 bytes or more is refused with \<open>EINVAL\<close> after the file has been
  created, so a refused write to a new path leaves an empty file behind.\<close>

theorem ramfs_write_overlay:
  assumes "ramfs_inv fs" "path_fits p" "has_room fs p" "0 < n" "n < 2147483648" "nat n \<le> length d"
  shows "ramfs_inv (fst (ramfs_write fs p 0 d n)) \<and>
    (let old = (case fs_map fs p of None \<Rightarrow> [] | Some c \<Rightarrow> c)
     in if n < 8192
        then snd (ramfs_write fs p 0 d n) = n \<and>
             fs_map (fst (ramfs_write fs p 0 d n)) = (fs_map fs)(p \<mapsto> take (nat n) d @ drop (nat n) old)
        else snd (ramfs_write fs p 0 d n) = EINVAL \<and>
             fs_map (fst (ramfs_write fs p 0 d n)) = (fs_map fs)(p \<mapsto> old))"
  using ramfs_write_ok [OF assms(1-4) _ assms(6)] ramfs_write_too_long [OF assms(1-3) _ assms(5), of d]
  by (auto simp: Let_def split: option.splits)

theorem ramfs_write_overlay_witness:
  "fs_map (fst (ramfs_write blank_fs ''/agent/3/x'' 0 (replicate 8192 (CHR ''z'')) 8192)) ''/agent/3/x'' = Some []"
  using ramfs_write_overlay [of blank_fs "''/agent/3/x''" 8192 "replicate 8192 (CHR ''z'')"]
  by (simp add: path_fits_def)

text \<open>The range test of a write adds the offset and the length in 64 bits.  An offset near
  \<open>2 ^ 64\<close> makes the sum wrap to a small number, passes the test and stores outside the data
  array of the file.\<close>

theorem ramfs_write_offset_wraps:
  "snd (ramfs_write blank_fs ''/agent/1/a'' 18446744073709551615 ''ab'' 2) = 2 \<and>
   oob (fst (ramfs_write blank_fs ''/agent/1/a'' 18446744073709551615 ''ab'' 2))"
proof -
  have p: "path_fits ''/agent/1/a''" by (simp add: path_fits_def)
  obtain i where l: "ramfs_lookup blank_fs ''/agent/1/a'' True =
      (blank_fs\<lparr>files := (files blank_fs)[i := opened blank_fs ''/agent/1/a'' i]\<rparr>, Some i)"
    using ramfs_lookup_create [OF blank_fs_inv p blank_fs_room] .
  show ?thesis by (simp add: ramfs_write_def l Let_def split: prod.splits)
qed


end
