(* ===== verification/Quota.thy ===== *)
theory Quota
  imports Ramfs Agent_Types
begin

text \<open>
  The per-agent counters and limits of \<open>kernel/quota.c\<close>: messages sent, tools run, and files under
  \<open>/agent/<id>/\<close>.  The counters are indexed by the agent id.  The commands of the quota tool
  that send messages (\<open>quota_burn_ipc\<close>, \<open>quota_notify\<close>) are with the agent operations in the
  theory \<open>Agent\<close>.
\<close>

section \<open>Definitions\<close>

record quota =
  quota_ipc_count :: "int list"
  quota_tool_count :: "int list"

definition parse_agent_path_id :: "string \<Rightarrow> int option" where
  "parse_agent_path_id path =
     (if chr_at path 0 \<noteq> CHR ''/'' then None
      else if \<not> match_at path 1 ''agent/'' then None
      else if \<not> is_digit (chr_at path 7) then None
      else
        let (id, rest) = parse_uint 0 (drop 7 path)
        in if chr_at rest 0 \<noteq> CHR ''/'' then None else Some id)"

definition quota_init :: quota where
  "quota_init = \<lparr>quota_ipc_count = replicate MAX_AGENTS 0, quota_tool_count = replicate MAX_AGENTS 0\<rparr>"

definition quota_index :: "agent option \<Rightarrow> nat option" where
  "quota_index a =
     (case a of
        None \<Rightarrow> None
      | Some ag \<Rightarrow> if aid ag < 0 \<or> aid ag \<ge> int MAX_AGENTS then None else Some (nat (aid ag)))"

definition quota_ipc_used :: "quota \<Rightarrow> agent option \<Rightarrow> int" where
  "quota_ipc_used q a = (case quota_index a of None \<Rightarrow> 0 | Some i \<Rightarrow> quota_ipc_count q ! i)"

definition quota_ipc_max :: "agent option \<Rightarrow> int" where
  "quota_ipc_max a = QUOTA_IPC_MAX"

definition quota_ipc_allow :: "quota \<Rightarrow> agent option \<Rightarrow> int" where
  "quota_ipc_allow q a =
     (if a = None then EINVAL
      else if quota_ipc_used q a \<ge> quota_ipc_max a then ENOSPC
      else 0)"

definition quota_ipc_charge :: "quota \<Rightarrow> agent option \<Rightarrow> quota" where
  "quota_ipc_charge q a =
     (case quota_index a of
        None \<Rightarrow> q
      | Some i \<Rightarrow> q\<lparr>quota_ipc_count := (quota_ipc_count q)[i := quota_ipc_count q ! i + 1]\<rparr>)"

definition quota_tool_used :: "quota \<Rightarrow> agent option \<Rightarrow> int" where
  "quota_tool_used q a = (case quota_index a of None \<Rightarrow> 0 | Some i \<Rightarrow> quota_tool_count q ! i)"

definition quota_tool_max :: "agent option \<Rightarrow> int" where
  "quota_tool_max a = QUOTA_TOOL_MAX"

definition quota_tool_allow :: "quota \<Rightarrow> agent option \<Rightarrow> int" where
  "quota_tool_allow q a =
     (if a = None then EINVAL
      else if quota_tool_used q a \<ge> quota_tool_max a then ENOSPC
      else 0)"

definition quota_tool_charge :: "quota \<Rightarrow> agent option \<Rightarrow> quota" where
  "quota_tool_charge q a =
     (case quota_index a of
        None \<Rightarrow> q
      | Some i \<Rightarrow> q\<lparr>quota_tool_count := (quota_tool_count q)[i := quota_tool_count q ! i + 1]\<rparr>)"

definition quota_fs_used :: "ramfs \<Rightarrow> agent option \<Rightarrow> int" where
  "quota_fs_used fs a = (case a of None \<Rightarrow> 0 | Some ag \<Rightarrow> ramfs_count_agent_files fs (aid ag))"

definition quota_fs_max :: "agent option \<Rightarrow> int" where
  "quota_fs_max a = QUOTA_FS_FILES"

definition quota_fs_allow_new :: "ramfs \<Rightarrow> agent option \<Rightarrow> string \<Rightarrow> int" where
  "quota_fs_allow_new fs a path =
     (case a of
        None \<Rightarrow> EINVAL
      | Some ag \<Rightarrow>
          (case parse_agent_path_id path of
             None \<Rightarrow> 0
           | Some path_id \<Rightarrow>
               if path_id \<noteq> aid ag then 0
               else if ramfs_path_exists fs path then 0
               else if quota_fs_used fs a \<ge> quota_fs_max a then ENOSPC
               else 0))"

definition quota_status :: "quota \<Rightarrow> agent option \<Rightarrow> int" where
  "quota_status q a = (if a = None then EINVAL else quota_ipc_used q a)"

definition quota_probe_ipc :: "quota \<Rightarrow> agent option \<Rightarrow> int" where
  "quota_probe_ipc q a = (if a = None then EINVAL else quota_ipc_allow q a)"

section \<open>The invariant\<close>

text \<open>Every counter lies between 0 and its limit.\<close>

definition quota_inv :: "quota \<Rightarrow> bool" where
  "quota_inv q \<longleftrightarrow>
     length (quota_ipc_count q) = MAX_AGENTS \<and> length (quota_tool_count q) = MAX_AGENTS \<and>
     (\<forall>n \<in> set (quota_ipc_count q). 0 \<le> n \<and> n \<le> QUOTA_IPC_MAX) \<and>
     (\<forall>n \<in> set (quota_tool_count q). 0 \<le> n \<and> n \<le> QUOTA_TOOL_MAX)"

lemma quota_init_inv [simp]: "quota_inv quota_init"
  by (simp add: quota_inv_def quota_init_def)

lemma quota_index_less: "quota_index a = Some i \<Longrightarrow> i < MAX_AGENTS"
  by (auto simp: quota_index_def split: option.splits if_splits)

lemma quota_index_agent: "quota_index (Some a) = Some i \<longleftrightarrow> 0 \<le> aid a \<and> aid a < 12 \<and> i = nat (aid a)"
  by (auto simp: quota_index_def)

lemma quota_ipc_charge_inv:
  assumes "quota_inv q" "quota_ipc_allow q a = 0"
  shows "quota_inv (quota_ipc_charge q a)"
proof (cases "quota_index a")
  case None
  with assms show ?thesis by (simp add: quota_ipc_charge_def)
next
  case (Some i)
  have l: "length (quota_ipc_count q) = 12" and r: "0 \<le> quota_ipc_count q ! i"
    using assms(1) quota_index_less [OF Some] by (auto simp: quota_inv_def)
  have "quota_ipc_count q ! i < 16"
    using assms(2) Some by (auto simp: quota_ipc_allow_def quota_ipc_used_def quota_ipc_max_def split: if_splits)
  with assms(1) l r Some show ?thesis
    by (auto simp: quota_inv_def quota_ipc_charge_def dest!: subsetD [OF set_update_subset_insert])
qed

lemma quota_tool_charge_inv:
  assumes "quota_inv q" "quota_tool_allow q a = 0"
  shows "quota_inv (quota_tool_charge q a)"
proof (cases "quota_index a")
  case None
  with assms show ?thesis by (simp add: quota_tool_charge_def)
next
  case (Some i)
  have l: "length (quota_tool_count q) = 12" and r: "0 \<le> quota_tool_count q ! i"
    using assms(1) quota_index_less [OF Some] by (auto simp: quota_inv_def)
  have "quota_tool_count q ! i < 128"
    using assms(2) Some by (auto simp: quota_tool_allow_def quota_tool_used_def quota_tool_max_def split: if_splits)
  with assms(1) l r Some show ?thesis
    by (auto simp: quota_inv_def quota_tool_charge_def dest!: subsetD [OF set_update_subset_insert])
qed

lemma quota_charge_used:
  assumes "quota_inv q" "quota_index (Some a) = Some i"
  shows "quota_ipc_used (quota_ipc_charge q (Some a)) (Some b) =
      quota_ipc_used q (Some b) + (if aid b = aid a then 1 else 0)"
    and "quota_tool_used (quota_tool_charge q (Some a)) (Some b) =
      quota_tool_used q (Some b) + (if aid b = aid a then 1 else 0)"
  using assms
  by (auto simp: quota_ipc_used_def quota_ipc_charge_def quota_tool_used_def quota_tool_charge_def quota_index_def
      quota_inv_def nth_list_update split: option.splits if_splits)

section \<open>Files of an agent\<close>

lemma parse_agent_prefix:
  assumes "0 \<le> n" "n < 2147483648"
  shows "parse_agent_path_id (agent_prefix n @ name) = Some n"
proof -
  obtain c cs where c: "dec_str n = c # cs" using dec_str_nonempty [OF assms(1)] by (cases "dec_str n") auto
  have "is_digit c" using dec_str_digits [of c n] c by simp
  moreover have "parse_uint 0 (dec_str n @ ''/'' @ name) = (n, ''/'' @ name)"
    using parse_uint_dec_str [OF assms, of "''/'' @ name"] by simp
  ultimately show ?thesis
    unfolding parse_agent_path_id_def agent_prefix_def using c by simp
qed

end
