(* ===== verification/Policy.thy ===== *)
theory Policy
  imports Ramfs
begin

text \<open>
  The tool and network policy of \<open>kernel/policy.c\<close>: a list of at most 16 denied tools, a list of
  at most 8 allowed network peers, and a parser for policy files.

  The arrays and their counters are lists: the first \<open>deny_count\<close> entries of the deny array, the first
  \<open>net_allow_count\<close> host/port pairs.  Ports are 16-bit numbers.  The agent argument of the
  C functions is used for messages only and left out.
\<close>

section \<open>Definitions\<close>

record policy =
  deny_tools :: "int list"
  net_allow :: "(string \<times> int) list"
  net_restrict :: int

abbreviation (input) POLICY_ACTIVE :: string where "POLICY_ACTIVE \<equiv> ''/sys/policy/active''"

abbreviation (input) POLICY_DENY_MAX :: nat where "POLICY_DENY_MAX \<equiv> 16"

abbreviation (input) POLICY_NET_ALLOW_MAX :: nat where "POLICY_NET_ALLOW_MAX \<equiv> 8"

fun host_eq :: "string \<Rightarrow> string \<Rightarrow> bool" where
  "host_eq (a # as) (b # bs) = (if a \<noteq> b then False else host_eq as bs)"
| "host_eq as bs = (as = [] \<and> bs = [])"

definition deny_has :: "policy \<Rightarrow> int \<Rightarrow> bool" where
  "deny_has pol tool \<longleftrightarrow> list_ex (\<lambda>t. t = tool) (deny_tools pol)"

definition policy_exempt :: "int \<Rightarrow> bool" where
  "policy_exempt tool \<longleftrightarrow> tool = TOOL_POLICY \<or> tool = TOOL_FLEET \<or> tool = TOOL_REMOTE \<or>
     tool = TOOL_MESH \<or> tool = TOOL_QUOTA"

definition policy_init :: "policy \<Rightarrow> ramfs \<Rightarrow> policy \<times> ramfs" where
  "policy_init pol fs =
     (pol\<lparr>deny_tools := [], net_allow := [], net_restrict := 0\<rparr>,
      if \<not> ramfs_path_exists fs POLICY_ACTIVE
      then fst (ramfs_put fs POLICY_ACTIVE (''deny 10'' @ [NEWLINE]) 8) else fs)"

definition policy_net_set_restrict :: "policy \<Rightarrow> int \<Rightarrow> policy \<times> int" where
  "policy_net_set_restrict pol on =
     (let r = (if on \<noteq> 0 then 1 else 0) in (pol\<lparr>net_restrict := r\<rparr>, r))"

definition policy_net_add_allow :: "policy \<Rightarrow> string \<Rightarrow> int \<Rightarrow> policy \<times> int" where
  "policy_net_add_allow pol host port =
     (if host = [] \<or> port = 0 then (pol, EINVAL)
      else if list_ex (\<lambda>(h, p). p = port \<and> host_eq h host) (net_allow pol) then (pol, 0)
      else if length (net_allow pol) \<ge> POLICY_NET_ALLOW_MAX then (pol, ENOSPC)
      else (pol\<lparr>net_allow := net_allow pol @ [(take 47 host, port)]\<rparr>, 0))"

definition policy_net_status :: "policy \<Rightarrow> int" where
  "policy_net_status pol = int (length (net_allow pol))"

definition policy_net_allow :: "policy \<Rightarrow> string \<Rightarrow> int \<Rightarrow> int" where
  "policy_net_allow pol host port =
     (if host = [] then EINVAL
      else if net_restrict pol = 0 \<or> length (net_allow pol) = 0 then 0
      else if list_ex (\<lambda>(h, p). p = port \<and> host_eq h host) (net_allow pol) then 0
      else EPERM)"

definition policy_status :: "policy \<Rightarrow> int" where
  "policy_status pol = int (length (deny_tools pol))"

definition policy_deny_tool :: "policy \<Rightarrow> int \<Rightarrow> policy \<times> int" where
  "policy_deny_tool pol tool =
     (if tool < 0 \<or> tool > 31 then (pol, EINVAL)
      else if policy_exempt tool then (pol, EINVAL)
      else if deny_has pol tool then (pol, 0)
      else if length (deny_tools pol) \<ge> POLICY_DENY_MAX then (pol, ENOSPC)
      else (pol\<lparr>deny_tools := deny_tools pol @ [tool]\<rparr>, 0))"

definition skip_blanks :: "string \<Rightarrow> string" where
  "skip_blanks s = dropWhile (\<lambda>c. c = CHR '' '' \<or> c = CHR 0x09) s"

fun parse_port :: "int \<Rightarrow> string \<Rightarrow> int option" where
  "parse_port port [] = Some port"
| "parse_port port (c # cs) =
     (if is_digit c
      then (let port' = port * 10 + digit_val c
            in if port' > 65535 then None else parse_port port' cs)
      else Some port)"

definition policy_parse_net_allow :: "policy \<Rightarrow> string \<Rightarrow> policy \<times> int" where
  "policy_parse_net_allow pol line =
     (let walk = skip_blanks line
      in if \<not> match_at walk 0 ''net'' then (pol, 0)
         else
           let walk = skip_blanks (drop 3 walk)
           in if match_at walk 0 ''rest'' then
                (let walk = skip_blanks (drop 4 walk)
                 in if match_at walk 0 ''rict'' then policy_net_set_restrict pol 1
                    else if match_at walk 0 ''open'' then policy_net_set_restrict pol 0
                    else (pol, 0))
              else if \<not> match_at walk 0 ''allow'' then (pol, 0)
              else
                let walk = skip_blanks (drop 5 walk);
                    host = take 47 (takeWhile (\<lambda>c. c \<noteq> CHR '':'' \<and> c \<noteq> CHR '' '') walk);
                    walk = drop (length host) walk
                in if host = [] then (pol, - 1)
                   else
                     (case (if chr_at walk 0 = CHR '':'' then parse_port 0 (drop 1 walk) else Some 0) of
                        None \<Rightarrow> (pol, - 1)
                      | Some port \<Rightarrow> policy_net_add_allow pol host (if port = 0 then 443 else port)))"

definition policy_parse_line :: "policy \<Rightarrow> string \<Rightarrow> policy \<times> int" where
  "policy_parse_line pol line =
     (let walk = skip_blanks line
      in if match_at walk 0 ''net'' then policy_parse_net_allow pol line
         else if match_at walk 0 ''deny'' then
           (let walk = skip_blanks (drop 4 walk)
            in if \<not> is_digit (chr_at walk 0) then (pol, - 1)
               else policy_deny_tool pol (fst (parse_uint 0 walk)))
         else (pol, 0))"

text \<open>The lines of a buffer: the pieces between newlines and NULs.\<close>

fun policy_lines :: "string \<Rightarrow> string \<Rightarrow> string list" where
  "policy_lines cur [] = [cur]"
| "policy_lines cur (c # cs) =
     (if c = NEWLINE \<or> c = NUL then cur # policy_lines [] cs else policy_lines (cur @ [c]) cs)"

definition policy_load :: "policy \<Rightarrow> ramfs \<Rightarrow> string option \<Rightarrow> policy \<times> int" where
  "policy_load pol fs path0 =
     (let path = (case path0 of None \<Rightarrow> POLICY_ACTIVE | Some p \<Rightarrow> if p = [] then POLICY_ACTIVE else p);
          (len, buf) = ramfs_read fs path 0 8191
      in if len < 0 then (pol, len)
         else
           let pol' = fold (\<lambda>line p. if line \<noteq> [] then fst (policy_parse_line p line) else p)
                        (policy_lines [] buf) (pol\<lparr>deny_tools := []\<rparr>)
           in (pol', int (length (deny_tools pol'))))"

definition policy_allow_tool :: "policy \<Rightarrow> int \<Rightarrow> policy \<times> int" where
  "policy_allow_tool pol tool = (pol\<lparr>deny_tools := remove1 tool (deny_tools pol)\<rparr>, 0)"

definition policy_tool_allow :: "policy \<Rightarrow> int \<Rightarrow> int" where
  "policy_tool_allow pol tool =
     (if policy_exempt tool then 0 else if deny_has pol tool then EPERM else 0)"

definition policy_probe_tool :: "policy \<Rightarrow> int \<Rightarrow> int" where
  "policy_probe_tool pol tool = policy_tool_allow pol tool"

section \<open>The invariant\<close>

definition net_peer_ok :: "string \<times> int \<Rightarrow> bool" where
  "net_peer_ok e \<longleftrightarrow> fst e \<noteq> [] \<and> length (fst e) \<le> 47 \<and> 0 < snd e \<and> snd e \<le> 65535"

definition policy_inv :: "policy \<Rightarrow> bool" where
  "policy_inv pol \<longleftrightarrow>
     distinct (deny_tools pol) \<and> length (deny_tools pol) \<le> POLICY_DENY_MAX \<and>
     (\<forall>t \<in> set (deny_tools pol). 0 \<le> t \<and> t \<le> 31 \<and> \<not> policy_exempt t) \<and>
     length (net_allow pol) \<le> POLICY_NET_ALLOW_MAX \<and> list_all net_peer_ok (net_allow pol) \<and>
     (net_restrict pol = 0 \<or> net_restrict pol = 1)"

lemma host_eq_iff [simp]: "host_eq a b \<longleftrightarrow> a = b"
  by (induction a b rule: host_eq.induct) auto

lemma deny_has_iff [simp]: "deny_has pol t \<longleftrightarrow> t \<in> set (deny_tools pol)"
  by (auto simp: deny_has_def list_ex_iff)

lemma policy_deny_tool_inv [inv_intros]: "policy_inv pol \<Longrightarrow> policy_inv (fst (policy_deny_tool pol t))"
  by (auto simp: policy_inv_def policy_deny_tool_def)

lemma policy_allow_tool_inv [inv_intros]: "policy_inv pol \<Longrightarrow> policy_inv (fst (policy_allow_tool pol t))"
  by (auto simp: policy_inv_def policy_allow_tool_def distinct_remove1 length_remove1 dest: notin_set_remove1)

lemma policy_net_set_restrict_inv [inv_intros]:
  "policy_inv pol \<Longrightarrow> policy_inv (fst (policy_net_set_restrict pol r))"
  by (simp add: policy_inv_def policy_net_set_restrict_def)

lemma policy_net_add_allow_inv [inv_intros]:
  "policy_inv pol \<Longrightarrow> 0 \<le> port \<Longrightarrow> port \<le> 65535 \<Longrightarrow> policy_inv (fst (policy_net_add_allow pol host port))"
  by (auto simp: policy_inv_def policy_net_add_allow_def net_peer_ok_def)

lemma digit_val_nonneg: "is_digit c \<Longrightarrow> 0 \<le> digit_val c"
  by (simp add: is_digit_def digit_val_def)

lemma parse_port_range: "parse_port p s = Some q \<Longrightarrow> 0 \<le> p \<Longrightarrow> p \<le> 65535 \<Longrightarrow> 0 \<le> q \<and> q \<le> 65535"
  by (induction p s rule: parse_port.induct) (auto simp: Let_def digit_val_nonneg split: if_splits)

lemma policy_parse_net_inv [inv_intros]: "policy_inv pol \<Longrightarrow> policy_inv (fst (policy_parse_net_allow pol line))"
  unfolding policy_parse_net_allow_def
  by (auto simp: Let_def simp del: match_at.simps intro!: inv_intros dest!: parse_port_range
      split: option.splits if_splits)

lemma policy_parse_line_inv [inv_intros]: "policy_inv pol \<Longrightarrow> policy_inv (fst (policy_parse_line pol line))"
  unfolding policy_parse_line_def by (auto simp: Let_def simp del: match_at.simps intro!: inv_intros)

lemma policy_fold_inv:
  "policy_inv pol \<Longrightarrow> policy_inv (fold (\<lambda>line p. if line \<noteq> [] then fst (policy_parse_line p line) else p) ls pol)"
  by (induction ls arbitrary: pol) (auto intro: inv_intros)

lemma policy_load_inv [inv_intros]: "policy_inv pol \<Longrightarrow> policy_inv (fst (policy_load pol fs p))"
proof -
  assume "policy_inv pol"
  then have "policy_inv (pol\<lparr>deny_tools := []\<rparr>)" by (simp add: policy_inv_def)
  from policy_fold_inv [OF this] \<open>policy_inv pol\<close> show ?thesis
    by (auto simp: policy_load_def case_prod_unfold Let_def)
qed

section \<open>Parsing\<close>

lemma policy_lines_append:
  "\<forall>c \<in> set l. c \<noteq> NEWLINE \<and> c \<noteq> NUL \<Longrightarrow> policy_lines cur (l @ s) = policy_lines (cur @ l) s"
  by (induction l arbitrary: cur) auto

lemma policy_lines_log:
  "\<forall>l \<in> set ls. \<forall>c \<in> set l. c \<noteq> NEWLINE \<and> c \<noteq> NUL \<Longrightarrow> policy_lines [] (log_text ls) = ls @ [[]]"
proof (induction ls)
  case Nil
  then show ?case by simp
next
  case (Cons l ls)
  then show ?case using policy_lines_append [of l "[]" "NEWLINE # log_text ls"] by simp
qed

definition deny_line :: "int \<Rightarrow> string" where
  "deny_line t = ''deny '' @ dec_str t"

lemma not_digit_blank: "is_digit c \<Longrightarrow> c \<noteq> CHR '' '' \<and> c \<noteq> CHR 0x09 \<and> c \<noteq> NEWLINE"
  by (auto simp: is_digit_def)

lemma parse_deny_line:
  assumes "0 \<le> t" "t < 2147483648"
  shows "policy_parse_line pol (deny_line t) = policy_deny_tool pol t"
proof -
  obtain c cs where c: "dec_str t = c # cs" using dec_str_nonempty [OF assms(1)] by (cases "dec_str t") auto
  have d: "is_digit c" using dec_str_digits [of c t] c by simp
  have s: "skip_blanks ('' '' @ dec_str t) = dec_str t" "skip_blanks (''deny '' @ dec_str t) = ''deny '' @ dec_str t"
    using not_digit_blank [OF d] c by (simp_all add: skip_blanks_def)
  have "fst (parse_uint 0 (dec_str t)) = t" using parse_uint_dec_str [OF assms, of "[]"] by simp
  with s d c show ?thesis by (simp add: policy_parse_line_def deny_line_def)
qed

lemma deny_line_chars: "\<forall>c \<in> set (deny_line t). c \<noteq> NEWLINE \<and> c \<noteq> NUL"
  using dec_str_digits [of _ t] not_digit_blank by (auto simp: deny_line_def)

lemma fold_deny_lines:
  assumes "distinct ts" "\<forall>t \<in> set ts. 0 \<le> t \<and> t \<le> 31 \<and> \<not> policy_exempt t \<and> t \<notin> set (deny_tools pol)"
    and "length (deny_tools pol) + length ts \<le> 16"
  shows "fold (\<lambda>line p. if line \<noteq> [] then fst (policy_parse_line p line) else p) (map deny_line ts) pol
    = pol\<lparr>deny_tools := deny_tools pol @ ts\<rparr>"
  using assms
proof (induction ts arbitrary: pol)
  case Nil
  then show ?case by simp
next
  case (Cons t ts)
  have "deny_line t \<noteq> []" by (simp add: deny_line_def)
  moreover have "policy_parse_line pol (deny_line t) = policy_deny_tool pol t"
    using Cons.prems by (intro parse_deny_line) auto
  moreover have "policy_deny_tool pol t = (pol\<lparr>deny_tools := deny_tools pol @ [t]\<rparr>, 0)"
    using Cons.prems by (simp add: policy_deny_tool_def)
  ultimately show ?case
    using Cons.prems Cons.IH [of "pol\<lparr>deny_tools := deny_tools pol @ [t]\<rparr>"] by auto
qed

section \<open>Properties\<close>

text \<open>C15: The policy stays well formed: whatever bytes the policy file holds, loading it keeps the
  deny list free of duplicates, within its 16 entries and within the tools 0 to 31, never
  containing one of the exempt tools, and the peer list within its 8 entries with hosts of 1 to 47
  characters and valid ports.  Denying and allowing tools, switching the restriction and adding
  a peer with a 16-bit port keep this too.\<close>

theorem policy_operations_keep_inv:
  assumes "policy_inv pol" "0 \<le> port" "port \<le> 65535"
  shows "policy_inv (fst (policy_load pol fs path)) \<and> policy_inv (fst (policy_deny_tool pol tool)) \<and>
    policy_inv (fst (policy_allow_tool pol tool)) \<and> policy_inv (fst (policy_net_set_restrict pol on)) \<and>
    policy_inv (fst (policy_net_add_allow pol host port)) \<and> policy_inv (fst (policy_init pol fs))"
proof -
  have "policy_inv (fst (policy_init pol fs))" by (simp add: policy_init_def policy_inv_def)
  with assms show ?thesis by (intro conjI inv_intros)
qed

definition open_policy :: policy where
  "open_policy = \<lparr>deny_tools = [], net_allow = [], net_restrict = 0\<rparr>"

theorem policy_operations_keep_inv_witness:
  "policy_inv (fst (policy_net_add_allow open_policy ''api.example'' 443))"
  using policy_operations_keep_inv [of open_policy 443] by (simp add: open_policy_def policy_inv_def)

text \<open>Denying and allowing.  Denying a tool in range that is not exempt blocks it at once, unless
  the deny list is full; allowing it again unblocks it; neither changes the verdict on any other
  tool.  The exempt tools are never blocked, under any policy.\<close>

theorem policy_deny_allow:
  assumes "policy_inv pol" "0 \<le> t" "t \<le> 31" "\<not> policy_exempt t"
  shows "(snd (policy_deny_tool pol t) = 0 \<longleftrightarrow>
           policy_tool_allow (fst (policy_deny_tool pol t)) t = EPERM) \<and>
    (length (deny_tools pol) < 16 \<longrightarrow> snd (policy_deny_tool pol t) = 0) \<and>
    policy_tool_allow (fst (policy_allow_tool pol t)) t = 0 \<and>
    (\<forall>u. u \<noteq> t \<longrightarrow> policy_tool_allow (fst (policy_deny_tool pol t)) u = policy_tool_allow pol u \<and>
                 policy_tool_allow (fst (policy_allow_tool pol t)) u = policy_tool_allow pol u) \<and>
    (\<forall>u. policy_exempt u \<longrightarrow> policy_tool_allow pol u = 0)"
proof -
  have "distinct (deny_tools pol)" using assms(1) by (simp add: policy_inv_def)
  then have "set (remove1 t (deny_tools pol)) = set (deny_tools pol) - {t}" by (rule set_remove1_eq)
  with assms(2-4) show ?thesis
    by (auto simp: policy_tool_allow_def policy_deny_tool_def policy_allow_tool_def)
qed

theorem policy_deny_allow_witness:
  "policy_tool_allow (fst (policy_deny_tool open_policy TOOL_GPIO)) TOOL_GPIO = EPERM"
  using policy_deny_allow [of open_policy TOOL_GPIO]
  by (auto simp: open_policy_def policy_inv_def policy_exempt_def)

text \<open>C16: Loading a policy file.  A file of \<open>deny\<close> lines for at most 16 distinct tools in range, none of
  them exempt, sets the deny list to exactly these tools in the order of the file, whatever was
  denied before, returns their number, and leaves the network part alone.  The policy then refuses exactly
  these tools: \<open>policy_tool_allow\<close> returns \<open>EPERM\<close> for them and 0 for every other number.\<close>

theorem policy_load_deny_lines:
  assumes "ramfs_inv fs" "fs_map fs POLICY_ACTIVE = Some (log_text (map deny_line ts))"
    and "distinct ts" "\<forall>t \<in> set ts. 0 \<le> t \<and> t \<le> 31 \<and> \<not> policy_exempt t" "length ts \<le> 16"
  shows "policy_load pol fs None = (pol\<lparr>deny_tools := ts\<rparr>, int (length ts)) \<and>
    (\<forall>tool. policy_tool_allow (fst (policy_load pol fs None)) tool = (if tool \<in> set ts then EPERM else 0))"
proof -
  let ?buf = "log_text (map deny_line ts)"
  have "ramfs_read fs POLICY_ACTIVE 0 8191 = (int (length ?buf), ?buf)"
    using rfs.cont_size [OF assms(1,2)] by (intro rfs.read_all [OF assms(1) _ _ _ assms(2)]) auto
  moreover have "policy_lines [] ?buf = map deny_line ts @ [[]]"
    using deny_line_chars by (intro policy_lines_log) auto
  ultimately have "policy_load pol fs None = (pol\<lparr>deny_tools := ts\<rparr>, int (length ts))"
    using fold_deny_lines [OF assms(3), of "pol\<lparr>deny_tools := []\<rparr>"] assms(4,5)
    by (simp add: policy_load_def)
  then show ?thesis using assms(4) by (auto simp: policy_tool_allow_def)
qed

theorem policy_load_deny_lines_witness:
  "policy_load open_policy (snd (policy_init open_policy blank_fs)) None = (open_policy\<lparr>deny_tools := [10]\<rparr>, 1) \<and>
   policy_tool_allow (fst (policy_load open_policy (snd (policy_init open_policy blank_fs)) None)) 10 = EPERM"
proof -
  have "\<not> ramfs_path_exists blank_fs POLICY_ACTIVE"
    by (simp add: ramfs_path_exists_map)
  then have i: "snd (policy_init open_policy blank_fs) = fst (ramfs_put blank_fs POLICY_ACTIVE (''deny 10'' @ [NEWLINE]) 8)"
    by (simp add: policy_init_def)
  moreover have "log_text (map deny_line [10]) = ''deny 10'' @ [NEWLINE]"
    by (simp add: deny_line_def dec_str_def dec_loop_pos)
  ultimately show ?thesis
    using rfs.put_ok [of blank_fs POLICY_ACTIVE 8 "''deny 10'' @ [NEWLINE]"]
      policy_load_deny_lines [of "snd (policy_init open_policy blank_fs)" "[10]" open_policy]
    by (auto simp: path_fits_def policy_exempt_def)
qed

text \<open>The network test.  With the restriction on and at least one peer, a connection is allowed
  exactly when the host and the port are on the list; with an empty list or the restriction off
  everything is allowed.  Adding a peer makes it allowed when its name has at most 47
  characters; a longer name is cut when it is stored and stays blocked.\<close>

theorem policy_net_allow_spec:
  assumes "policy_inv pol" "host \<noteq> []" "0 < port" "port \<le> 65535"
  shows "policy_net_allow pol host port =
      (if net_restrict pol = 0 \<or> net_allow pol = [] \<or> (host, port) \<in> set (net_allow pol) then 0 else EPERM) \<and>
    (let (pol', rc) = policy_net_add_allow pol host port
     in (rc = 0 \<and> length host \<le> 47 \<longrightarrow> policy_net_allow pol' host port = 0) \<and>
        (length host > 47 \<and> rc = 0 \<and> net_restrict pol = 1 \<longrightarrow> policy_net_allow pol' host port = EPERM))"
proof -
  have l: "(host, port) \<in> set (net_allow pol) \<Longrightarrow> length host \<le> 47"
    using assms(1) by (force simp: policy_inv_def list_all_iff net_peer_ok_def)
  have ne: "take 47 host \<noteq> host" if "length host > 47" using that by (metis length_take min_less_iff_conj not_less_iff_gr_or_eq)
  have e: "list_ex (\<lambda>(h, p). p = port \<and> h = host) xs \<longleftrightarrow> (host, port) \<in> set xs" for xs
    by (auto simp: list_ex_iff)
  show ?thesis
    using assms l ne by (auto simp: policy_net_allow_def policy_net_add_allow_def e)
qed

theorem policy_net_allow_spec_witness:
  "policy_net_allow (open_policy\<lparr>net_restrict := 1, net_allow := [(''a.b'', 443)]\<rparr>) ''c.d'' 443 = EPERM"
  using policy_net_allow_spec [of "open_policy\<lparr>net_restrict := 1, net_allow := [(''a.b'', 443)]\<rparr>" "''c.d''" 443]
  by (simp add: open_policy_def policy_inv_def net_peer_ok_def)

end
