(* ===== verification/Tenant.thy ===== *)
theory Tenant
  imports Ramfs Agent_Types
begin

text \<open>
  The session quota of \<open>kernel/tenant.c\<close>: 640 bytes for the file \<open>/session/agent/<id>/log\<close>, and
  the test whether a path is the session log of an agent.  The parser compares with
  \<open>/sessio/agent/\<close>, one letter short of the directory the builders use.
\<close>

section \<open>Definitions\<close>

definition parse_session_agent_id :: "string \<Rightarrow> int" where
  "parse_session_agent_id path =
     (if \<not> match_at path 1 ''sessio/'' then - 1
      else if \<not> match_at path 8 ''agent/'' then - 1
      else if \<not> is_digit (chr_at path 14) then - 1
      else
        let (id, rest) = parse_uint 0 (drop 14 path)
        in if chr_at rest 0 \<noteq> CHR ''/'' then - 1
           else if \<not> (match_at rest 1 ''log'' \<and> chr_at rest 4 = NUL) then - 1
           else id)"

definition session_log_path :: "int \<Rightarrow> string" where
  "session_log_path agent_id = ''/session/agent/'' @ dec_str agent_id @ ''/log''"

definition tenant_session_usage :: "ramfs \<Rightarrow> agent option \<Rightarrow> int" where
  "tenant_session_usage fs a =
     (case a of
        None \<Rightarrow> 0
      | Some ag \<Rightarrow> file_usage fs (session_log_path (aid ag)))"

definition tenant_session_quota :: "agent option \<Rightarrow> int" where
  "tenant_session_quota a = TENANT_SESSION_QUOTA"

definition tenant_session_allow :: "ramfs \<Rightarrow> agent option \<Rightarrow> int \<Rightarrow> int" where
  "tenant_session_allow fs a add_bytes =
     (if a = None \<or> add_bytes < 0 then EINVAL
      else if tenant_session_usage fs a + add_bytes > tenant_session_quota a then ENOSPC
      else 0)"

definition tenant_session_path_ok :: "agent option \<Rightarrow> string \<Rightarrow> bool" where
  "tenant_session_path_ok a path =
     (case a of
        None \<Rightarrow> False
      | Some ag \<Rightarrow>
          let id = parse_session_agent_id path
          in if id < 0 then False else id = aid ag)"

definition tenant_probe_cross_read :: "ramfs \<Rightarrow> agent option \<Rightarrow> int \<Rightarrow> int option" where
  "tenant_probe_cross_read fs a target_id =
     (case a of
        None \<Rightarrow> Some EINVAL
      | Some ag \<Rightarrow>
          if target_id = aid ag then Some 0
          else if digits_overflow target_id then None
          else
            let path = session_log_path target_id
            in if \<not> tenant_session_path_ok a path then Some EPERM
               else
                 let rc = fst (ramfs_read fs path 0 15)
                 in Some (if rc < 0 then rc else 0))"

section \<open>Lemmas\<close>

lemma session_path_fits: "0 \<le> n \<Longrightarrow> n < 2147483648 \<Longrightarrow> path_fits (session_log_path n)"
  using length_dec_str [of n 10] by (simp add: path_fits_def session_log_path_def)

lemma tenant_usage_map:
  "ramfs_inv fs \<Longrightarrow> tenant_session_usage fs (Some a) =
     (case fs_map fs (session_log_path (aid a)) of None \<Rightarrow> 0 | Some c \<Rightarrow> int (max 1 (length c)))"
  by (simp add: tenant_session_usage_def file_usage_map)

lemma parse_session_path: "parse_session_agent_id (''/session/'' @ p) = - 1"
  by (simp add: parse_session_agent_id_def)

section \<open>Properties\<close>

text \<open>The path test of the session quota rejects every path under \<open>/session/\<close>, so no agent
  passes it for any session log, its own included; the cross-read probe therefore reports
  \<open>EPERM\<close> for every other agent whose id has at most 8 digits, and corrupts memory for an id
  with more.\<close>

theorem tenant_path_ok_rejects_all:
  "\<not> tenant_session_path_ok a (''/session/'' @ p) \<and>
   tenant_probe_cross_read fs (Some ag) target =
     (if target = aid ag then Some 0 else if target \<ge> 100000000 then None else Some EPERM)"
proof -
  have r: "\<not> tenant_session_path_ok b (''/session/'' @ q)" for b q
    using parse_session_path [of q] by (auto simp: tenant_session_path_ok_def split: option.splits)
  then have "\<not> tenant_session_path_ok (Some ag) (session_log_path target)"
    using r [of "Some ag" "''agent/'' @ dec_str target @ ''/log''"] by (simp add: session_log_path_def)
  with r show ?thesis by (simp add: tenant_probe_cross_read_def digits_overflow_iff)
qed

end
