(* ===== verification/Session.thy ===== *)
theory Session
  imports Tenant
begin

text \<open>
  The session log of \<open>kernel/session.c\<close>: \<open>/session/agent/<id>/log\<close>, one line per entry.  An
  append rewrites the whole file with \<open>ramfs_write\<close>; the readers return the bytes they store
  before the terminating NUL beside the return code; compaction also queues a summary in the
  agent's mailbox, so it returns the agent.
\<close>

section \<open>Definitions\<close>

definition build_session_path :: "agent \<Rightarrow> string" where
  "build_session_path a = ''/session/agent/'' @ dec_str (aid a) @ ''/log''"

definition str_len_local :: "string \<Rightarrow> nat \<Rightarrow> nat" where
  "str_len_local s n = min n (length s)"

definition session_append :: "ramfs \<Rightarrow> agent option \<Rightarrow> string \<Rightarrow> ramfs \<times> int" where
  "session_append fs a txt =
     (case a of
        None \<Rightarrow> (fs, EINVAL)
      | Some ag \<Rightarrow>
          let path = build_session_path ag;
              text_len = str_len_local txt 188
          in if text_len \<le> 0 then (fs, EINVAL)
             else
               let (n, buf) = ramfs_read fs path 0 8190
               in if n < 0 \<and> n \<noteq> ENOENT then (fs, n)
                  else
                    let old_len = (if n < 0 then 0 else n);
                        line = take text_len txt @ [NEWLINE];
                        line_len = int (length line)
                    in if tenant_session_allow fs a (old_len + line_len) \<noteq> 0 then (fs, ENOSPC)
                       else if old_len + line_len \<ge> int RAMFS_FILE_SIZE then (fs, ENOSPC)
                       else
                         let (fs', rc) = ramfs_write fs path 0 (buf @ line) (old_len + line_len)
                         in if rc < 0 then (fs', EIO) else (fs', line_len))"

fun tail_start :: "string \<Rightarrow> nat \<Rightarrow> nat" where
  "tail_start buf 0 = 0"
| "tail_start buf (Suc n) = (if buf ! n \<noteq> NEWLINE then tail_start buf n else Suc n)"

definition session_tail :: "ramfs \<Rightarrow> agent option \<Rightarrow> int \<Rightarrow> int \<times> string" where
  "session_tail fs a buflen =
     (case a of
        None \<Rightarrow> (EINVAL, [])
      | Some ag \<Rightarrow>
          if buflen \<le> 0 then (EINVAL, [])
          else
            let (len, buf) = ramfs_read fs (build_session_path ag) 0 8191
            in if len < 0 then (if len = ENOENT then (0, []) else (len, []))
               else if len = 0 then (0, [])
               else
                 let start = tail_start buf (nat len - 1);
                     out = take (nat buflen - 1)
                             (takeWhile (\<lambda>c. c \<noteq> NUL \<and> c \<noteq> NEWLINE) (drop start buf))
                 in (int (length out), out))"

definition count_lines :: "string \<Rightarrow> int" where
  "count_lines buf =
     (if buf = [] then 0
      else int (length (filter (\<lambda>c. c = NEWLINE) buf)) + (if last buf \<noteq> NEWLINE then 1 else 0))"

fun skip_lines :: "string \<Rightarrow> nat \<Rightarrow> nat" where
  "skip_lines buf 0 = 0"
| "skip_lines buf (Suc k) =
     (if buf = [] then 0
      else
        let n = length (takeWhile (\<lambda>c. c \<noteq> NEWLINE) buf);
            m = (if n < length buf then n + 1 else n)
        in m + skip_lines (drop m buf) k)"

definition line_start_at :: "string \<Rightarrow> int \<Rightarrow> nat" where
  "line_start_at buf line_idx = (if line_idx \<le> 0 then 0 else skip_lines buf (nat line_idx))"

definition session_read :: "ramfs \<Rightarrow> agent option \<Rightarrow> int \<Rightarrow> int \<Rightarrow> int \<times> string" where
  "session_read fs a buflen max_lines =
     (case a of
        None \<Rightarrow> (EINVAL, [])
      | Some ag \<Rightarrow>
          if buflen \<le> 0 then (EINVAL, [])
          else
            let (len, buf) = ramfs_read fs (build_session_path ag) 0 8191
            in if len < 0 then (if len = ENOENT then (0, []) else (len, []))
               else if len = 0 then (0, [])
               else
                 let total = count_lines buf;
                     start = (if max_lines > 0 \<and> total > max_lines
                              then line_start_at buf (total - max_lines) else 0);
                     out = take (nat buflen - 1) (cstr (drop start buf))
                 in (int (length out), out))"

definition session_summary :: "string \<Rightarrow> nat \<Rightarrow> string" where
  "session_summary buf start =
     (let pre = ''summary: ''
      in pre @ take (MSG_PAYLOAD_SIZE - 2 - length pre)
                 (map (\<lambda>c. if c = NEWLINE then CHR '';'' else c) (take start buf)))"

definition session_compact :: "ramfs \<Rightarrow> agent option \<Rightarrow> int \<Rightarrow> ramfs \<times> agent option \<times> int" where
  "session_compact fs a keep =
     (case a of
        None \<Rightarrow> (fs, a, EINVAL)
      | Some ag \<Rightarrow>
          if keep < 0 then (fs, a, EINVAL)
          else
            let path = build_session_path ag;
                (len, buf) = ramfs_read fs path 0 8191
            in if len < 0 then (if len = ENOENT then (fs, a, 0) else (fs, a, len))
               else if len = 0 then (fs, a, 0)
               else
                 let total = count_lines buf
                 in if total \<le> keep then (fs, a, 0)
                    else
                      let dropped = total - keep;
                          start = line_start_at buf dropped;
                          summary = cstr (session_summary buf start);
                          hdr = take 8190 summary @ [NEWLINE];
                          newbuf = hdr @ take (8191 - length hdr) (drop start buf);
                          (fs', wrc) = ramfs_write fs path 0 newbuf (int (length newbuf))
                      in if wrc < 0 then (fs', a, EIO)
                         else
                           let msg = \<lparr>sender_id = 0, msg_type = MSG_SUMMARY,
                                      payload = pad_to MSG_PAYLOAD_SIZE (take 223 summary)\<rparr>;
                               (box, prc) = msgbox_push (inbox ag) msg
                           in if prc \<noteq> 0 then (fs', Some (ag\<lparr>inbox := box\<rparr>), ENOSPC)
                              else (fs', Some (ag\<lparr>inbox := box\<rparr>), dropped))"

section \<open>Lines\<close>

lemma session_path_eq [simp]: "build_session_path a = session_log_path (aid a)"
  by (simp add: build_session_path_def session_log_path_def)

lemma count_lines_log:
  assumes "\<forall>l \<in> set ls. NEWLINE \<notin> set l"
  shows "count_lines (log_text ls) = int (length ls)"
proof -
  have "length (filter (\<lambda>c. c = NEWLINE) (log_text ls)) = length ls"
    using assms
  proof (induction ls)
    case Nil
    then show ?case by simp
  next
    case (Cons l ls)
    then have "filter (\<lambda>c. c = NEWLINE) l = []" by (auto simp: filter_empty_conv)
    with Cons show ?case by simp
  qed
  moreover have "last (log_text ls) = NEWLINE" if "ls \<noteq> []"
    using that by (cases ls rule: rev_cases) simp_all
  ultimately show ?thesis by (simp add: count_lines_def)
qed

lemma skip_lines_log:
  assumes "\<forall>l \<in> set ls. NEWLINE \<notin> set l"
  shows "skip_lines (log_text ls) k = length (log_text (take k ls))"
  using assms
proof (induction k arbitrary: ls)
  case 0
  then show ?case by simp
next
  case (Suc k)
  show ?case
  proof (cases ls)
    case Nil
    then show ?thesis by simp
  next
    case (Cons l ms)
    have l: "takeWhile (\<lambda>c. c \<noteq> NEWLINE) (l @ NEWLINE # log_text ms) = l"
      using Suc.prems Cons by (subst takeWhile_append2) auto
    have "skip_lines (log_text ms) k = length (log_text (take k ms))"
      using Suc Cons by simp
    with l Cons show ?thesis by (simp add: Let_def)
  qed
qed

lemma tail_start_line:
  assumes "pre = [] \<or> last pre = NEWLINE" "NEWLINE \<notin> set l"
  shows "tail_start (pre @ l @ rest) (length pre + length l) = length pre"
  using assms(2)
proof (induction l arbitrary: rest rule: rev_induct)
  case Nil
  show ?case
  proof (cases pre rule: rev_cases)
    case Nil
    then show ?thesis by simp
  next
    case (snoc qs q)
    with assms(1) show ?thesis by simp
  qed
next
  case (snoc c l)
  have "(pre @ l @ c # rest) ! (length pre + length l) = c" by (simp add: nth_append)
  with snoc.prems snoc.IH [of "c # rest"] show ?case by auto
qed

section \<open>Appending\<close>

definition session_log :: "ramfs \<Rightarrow> agent \<Rightarrow> string" where
  "session_log fs a = (case fs_map fs (session_log_path (aid a)) of None \<Rightarrow> [] | Some c \<Rightarrow> c)"

definition session_line :: "string \<Rightarrow> string" where
  "session_line txt = take 188 txt @ [NEWLINE]"

lemma session_line_simps [simp]:
  "take (str_len_local txt 188) txt @ [NEWLINE] = session_line txt"
  "str_len_local txt 188 = 0 \<longleftrightarrow> txt = []"
  by (auto simp: session_line_def str_len_local_def min_def)

lemma length_session_line: "1 \<le> length (session_line txt) \<and> length (session_line txt) \<le> 189"
  by (simp add: session_line_def)

lemma session_read_file:
  assumes "ramfs_inv fs"
  shows "ramfs_read fs (session_log_path (aid a)) 0 8191 =
    (case fs_map fs (session_log_path (aid a)) of None \<Rightarrow> (ENOENT, []) | Some c \<Rightarrow> (int (length c), c))"
proof (cases "fs_map fs (session_log_path (aid a))")
  case None
  then show ?thesis by (simp add: rfs.read_none)
next
  case (Some c)
  with rfs.cont_size [OF assms Some] rfs.read_all [OF assms _ _ _ Some, of 8191] show ?thesis by simp
qed

lemma session_usage_log:
  "ramfs_inv fs \<Longrightarrow> int (length (session_log fs a)) \<le> tenant_session_usage fs (Some a)"
  by (simp add: tenant_usage_map session_log_def split: option.splits)

lemma session_append_refused:
  assumes "ramfs_inv fs" "txt \<noteq> []"
    and "tenant_session_usage fs (Some a) + int (length (session_log fs a)) + int (length (session_line txt)) > 640"
  shows "session_append fs (Some a) txt = (fs, ENOSPC)"
proof (cases "fs_map fs (session_log_path (aid a))")
  case None
  with assms show ?thesis
    by (simp add: session_append_def rfs.read_none session_log_def
        tenant_session_allow_def tenant_session_quota_def Let_def)
next
  case (Some c)
  have u: "tenant_session_usage fs (Some a) \<ge> int (length c)"
    using assms(1) Some by (simp add: tenant_usage_map)
  have "ramfs_read fs (session_log_path (aid a)) 0 8190 = (int (length (take 8190 c)), take 8190 c)"
    using rfs.read0 [OF assms(1) _ _ Some, of 8190] by simp
  moreover have "tenant_session_usage fs (Some a) + (int (length (take 8190 c)) + int (length (session_line txt))) > 640"
    using assms(3) u Some by (simp add: session_log_def min_def)
  ultimately show ?thesis
    using assms(2) by (simp add: session_append_def
        tenant_session_allow_def tenant_session_quota_def Let_def)
qed

lemma session_append_write:
  assumes "ramfs_inv fs" "txt \<noteq> []"
    and "tenant_session_usage fs (Some a) + int (length (session_log fs a)) + int (length (session_line txt)) \<le> 640"
  defines "new \<equiv> session_log fs a @ session_line txt"
  shows "session_append fs (Some a) txt =
    (let (fs', rc) = ramfs_write fs (session_log_path (aid a)) 0 new (int (length new))
     in if rc < 0 then (fs', EIO) else (fs', int (length (session_line txt))))"
proof (cases "fs_map fs (session_log_path (aid a))")
  case None
  with assms length_session_line [of "txt"] show ?thesis
    by (simp add: session_append_def rfs.read_none session_log_def
        tenant_session_allow_def tenant_session_quota_def case_prod_unfold Let_def)
next
  case (Some c)
  have u: "tenant_session_usage fs (Some a) \<ge> int (length c)"
    using assms(1) Some by (simp add: tenant_usage_map)
  then have "length c \<le> 640" using assms(3) Some by (simp add: session_log_def)
  then have "ramfs_read fs (session_log_path (aid a)) 0 8190 = (int (length c), c)"
    using rfs.read_all [OF assms(1) _ _ _ Some, of 8190] by simp
  with Some assms(2,3) u show ?thesis
    by (simp add: new_def session_append_def session_log_def
        tenant_session_allow_def tenant_session_quota_def case_prod_unfold Let_def add.assoc)
qed

lemma session_append_ok:
  assumes "ramfs_inv fs" "agent_id_ok a" "has_room fs (session_log_path (aid a))" "txt \<noteq> []"
    and "tenant_session_usage fs (Some a) + int (length (session_log fs a)) + int (length (session_line txt)) \<le> 640"
  shows "snd (session_append fs (Some a) txt) = int (length (session_line txt)) \<and>
    ramfs_inv (fst (session_append fs (Some a) txt)) \<and>
    fs_map (fst (session_append fs (Some a) txt)) =
      (fs_map fs)(session_log_path (aid a) \<mapsto> session_log fs a @ session_line txt)"
proof -
  let ?new = "session_log fs a @ session_line txt"
  have l: "0 < int (length ?new)" by (simp add: session_line_def)
  have "int (length ?new) \<le> 640" using session_usage_log [OF assms(1), of a] assms(5) by simp
  then have u: "int (length ?new) < 8192" by linarith
  have "drop (length ?new) (case fs_map fs (session_log_path (aid a)) of None \<Rightarrow> [] | Some c \<Rightarrow> c) = []"
    by (simp add: session_log_def)
  moreover have "path_fits (session_log_path (aid a))"
    using assms(2) session_path_fits by (simp add: agent_id_ok_def)
  ultimately show ?thesis
    using rfs.write_ok [OF assms(1) _ assms(3) l u, of ?new, unfolded nat_int] l
    by (simp add: session_append_write [OF assms(1,4,5)] case_prod_unfold Let_def del: length_append take_append)
qed

lemma session_append_no_room:
  assumes "ramfs_inv fs" "\<not> has_room fs (session_log_path (aid a))" "txt \<noteq> []"
    and "tenant_session_usage fs (Some a) + int (length (session_log fs a)) + int (length (session_line txt)) \<le> 640"
  shows "session_append fs (Some a) txt = (fs, EIO)"
proof -
  let ?new = "session_log fs a @ session_line txt"
  have "0 < int (length ?new)" by (simp add: session_line_def)
  from rfs.write_full [OF this assms(2)] session_append_write [OF assms(1,3,4)] show ?thesis
    by simp
qed

section \<open>Properties\<close>

text \<open>C14: Appending to the session log.  A non-empty text is cut to 188 characters and becomes one
  new last line; it is accepted exactly when the size of the log, counted twice, plus the line
  is at most 640 and a slot is available.  So the log stays below \<open>(640 + line) / 2\<close> bytes,
  at most 414, far from the quota of 640 that the code announces.  A refused append changes
  nothing, and no other file changes.\<close>

theorem session_append_spec:
  assumes "ramfs_inv fs" "agent_id_ok a" "txt \<noteq> []"
  defines "line \<equiv> take 188 txt @ [NEWLINE]"
  shows "(let (fs', rc) = session_append fs (Some a) txt
     in ramfs_inv fs' \<and>
        (if tenant_session_usage fs (Some a) + int (length (session_log fs a)) + int (length line) \<le> 640 \<and>
            has_room fs (session_log_path (aid a))
         then rc = int (length line) \<and> session_log fs' a = session_log fs a @ line \<and>
              2 * length (session_log fs' a) \<le> 640 + length line \<and> length (session_log fs' a) \<le> 414 \<and>
              (\<forall>q. q \<noteq> session_log_path (aid a) \<longrightarrow> fs_map fs' q = fs_map fs q)
         else rc < 0 \<and> fs' = fs))"
proof -
  have line: "line = session_line txt" by (simp add: line_def session_line_def)
  let ?fits = "tenant_session_usage fs (Some a) + int (length (session_log fs a)) + int (length line) \<le> 640"
  consider (ok) "?fits" "has_room fs (session_log_path (aid a))"
    | (full) "?fits" "\<not> has_room fs (session_log_path (aid a))" | (over) "\<not> ?fits" by blast
  then show ?thesis
  proof cases
    case ok
    have "2 * length (session_log fs a) + length line \<le> 640"
      using ok(1) session_usage_log [OF assms(1), of a] by linarith
    moreover have "length line \<le> 189" using length_session_line line by simp
    ultimately show ?thesis
      using ok session_append_ok [OF assms(1,2) ok(2) assms(3)]
      by (simp add: line case_prod_unfold Let_def) (simp add: session_log_def)
  next
    case full
    with session_append_no_room [OF assms(1) full(2) assms(3)] assms(1) show ?thesis by (simp add: line)
  next
    case over
    with session_append_refused [OF assms(1,3), of a] assms(1) show ?thesis by (simp add: line)
  qed
qed

theorem session_append_spec_witness:
  "session_log (fst (session_append blank_fs (Some (blank_agent\<lparr>aid := 2\<rparr>)) ''hi'')) (blank_agent\<lparr>aid := 2\<rparr>)
   = ''hi'' @ [NEWLINE]"
  using session_append_spec [of blank_fs "blank_agent\<lparr>aid := 2\<rparr>" "''hi''"]
  by (simp add: agent_id_ok_def case_prod_unfold Let_def tenant_usage_map session_log_def)

text \<open>Reading back.  After an accepted append of a text without newline or NUL, with a buffer
  that is large enough, \<open>session_tail\<close> returns exactly that text, provided the log ended with a
  complete line before.\<close>

theorem session_tail_append:
  assumes "ramfs_inv fs" "agent_id_ok a" "txt \<noteq> []" "length txt \<le> 188" "int (length txt) < buflen"
    and "NEWLINE \<notin> set txt" "NUL \<notin> set txt"
    and "session_log fs a = [] \<or> last (session_log fs a) = NEWLINE"
    and "snd (session_append fs (Some a) txt) \<ge> 0"
  shows "session_tail (fst (session_append fs (Some a) txt)) (Some a) buflen = (int (length txt), txt)"
proof -
  let ?fits = "tenant_session_usage fs (Some a) + int (length (session_log fs a)) + int (length (session_line txt)) \<le> 640"
  let ?fs = "fst (session_append fs (Some a) txt)" and ?l = "session_log fs a"
  have fits: ?fits and room: "has_room fs (session_log_path (aid a))"
    using assms(9) session_append_refused [OF assms(1,3), of a] session_append_no_room [OF assms(1) _ assms(3), of a]
    by fastforce+
  have ok: "ramfs_inv ?fs" "fs_map ?fs (session_log_path (aid a)) = Some (?l @ txt @ [NEWLINE])"
    using session_append_ok [OF assms(1,2) room assms(3) fits] assms(4) by (auto simp: session_line_def)
  have "tail_start (?l @ txt @ [NEWLINE]) (length ?l + length txt) = length ?l"
    using assms(6,8) by (intro tail_start_line) auto
  moreover have "takeWhile (\<lambda>c. c \<noteq> NUL \<and> c \<noteq> NEWLINE) (txt @ [NEWLINE]) = txt"
    using assms(6,7) by (subst takeWhile_append2) auto
  moreover have "nat (int (length (?l @ txt @ [NEWLINE]))) - 1 = length ?l + length txt" by simp
  moreover have "min (length txt) (nat buflen - 1) = length txt" "take (nat buflen - 1) txt = txt"
    using assms(5) by auto
  ultimately show ?thesis
    using assms(5) ok(2)
    by (simp add: session_tail_def session_read_file [OF ok(1)] Let_def del: length_append)
qed

theorem session_tail_append_witness:
  "session_tail (fst (session_append blank_fs (Some (blank_agent\<lparr>aid := 2\<rparr>)) ''hi'')) (Some (blank_agent\<lparr>aid := 2\<rparr>)) 64
   = (2, ''hi'')"
proof -
  have "snd (session_append blank_fs (Some (blank_agent\<lparr>aid := 2\<rparr>)) ''hi'') = 3"
    using session_append_ok [of blank_fs "blank_agent\<lparr>aid := 2\<rparr>" "''hi''"]
    by (simp add: agent_id_ok_def tenant_usage_map session_log_def session_line_def)
  then show ?thesis
    using session_tail_append [of blank_fs "blank_agent\<lparr>aid := 2\<rparr>" "''hi''" 64]
    by (simp add: agent_id_ok_def session_log_def)
qed

text \<open>Reading the last lines.  On a log of complete lines without NUL, \<open>session_read\<close> with
  \<open>max_lines = k > 0\<close> and a large enough buffer returns exactly the last \<open>k\<close> lines, or all of
  them when there are fewer.\<close>

theorem session_read_last_lines:
  assumes "ramfs_inv fs" "fs_map fs (session_log_path (aid a)) = Some (log_text ls)" "ls \<noteq> []"
    and "\<forall>l \<in> set ls. NEWLINE \<notin> set l \<and> NUL \<notin> set l"
    and "0 < k" "int (length (log_text ls)) < buflen"
  shows "session_read fs (Some a) buflen (int k) =
    (int (length (log_text (drop (length ls - k) ls))), log_text (drop (length ls - k) ls))"
proof -
  let ?start = "if k < length ls then line_start_at (log_text ls) (int (length ls) - int k) else 0"
  have start: "drop ?start (log_text ls) = log_text (drop (length ls - k) ls)"
    using assms(4) skip_lines_log [of ls "length ls - k"]
    by (auto simp: line_start_at_def drop_log_text nat_diff_distrib)
  have "NUL \<notin> set (log_text (drop (length ls - k) ls))"
    using assms(4) by (auto simp: log_text_def dest: in_set_dropD)
  moreover have "take (nat buflen - 1) (log_text (drop (length ls - k) ls)) = log_text (drop (length ls - k) ls)"
    using log_text_drop_le [of "length ls - k" ls] assms(6) by simp
  ultimately show ?thesis
    using assms start
    by (simp add: session_read_def session_read_file count_lines_log Let_def cong: if_cong)
qed

lemma session_three_lines:
  defines "fs \<equiv> fst (ramfs_put blank_fs (session_log_path 2) (log_text [''a'', ''b'', ''c'']) 6)"
  shows "ramfs_inv fs" "fs_map fs (session_log_path 2) = Some (log_text [''a'', ''b'', ''c''])"
  using rfs.put_ok [of blank_fs "session_log_path 2" 6 "log_text [''a'', ''b'', ''c'']"]
  by (simp_all add: session_path_fits fs_def)

theorem session_read_last_lines_witness:
  "session_read (fst (ramfs_put blank_fs (session_log_path 2) (log_text [''a'', ''b'', ''c'']) 6))
     (Some (blank_agent\<lparr>aid := 2\<rparr>)) 64 2 = (4, log_text [''b'', ''c''])"
  using session_read_last_lines [of _ "blank_agent\<lparr>aid := 2\<rparr>" "[''a'', ''b'', ''c'']" 2 64] session_three_lines
  by simp

lemma session_summary_no_NUL:
  "NUL \<notin> set buf \<Longrightarrow> NUL \<notin> set (session_summary buf n)"
  by (auto simp: session_summary_def dest!: in_set_takeD split: if_splits)

lemma length_session_summary: "length (session_summary buf n) \<le> 222"
  by (simp add: session_summary_def)

text \<open>Compacting the session log.  On a log of more than \<open>k\<close> complete lines, compaction writes a
  summary line and the last \<open>k\<close> lines over the beginning of the file, but keeps the bytes that
  lie beyond: the file never gets shorter.  The summary is queued in the agent's mailbox when
  that has room, and the return code is the number of summarised lines.\<close>

theorem session_compact_overlays:
  assumes "ramfs_inv fs" "agent_id_ok a" "fs_map fs (session_log_path (aid a)) = Some (log_text ls)"
    and "\<forall>l \<in> set ls. NEWLINE \<notin> set l \<and> NUL \<notin> set l" "k < length ls" "length (log_text ls) \<le> 7900"
    and "msgbox_inv (inbox a)" "length (normal_list (inbox a)) < 16"
  defines "summary \<equiv> session_summary (log_text ls) (length (log_text (take (length ls - k) ls)))"
  defines "newbuf \<equiv> summary @ [NEWLINE] @ log_text (drop (length ls - k) ls)"
  shows "(let (fs', a', rc) = session_compact fs (Some a) (int k)
     in ramfs_inv fs' \<and> rc = int (length ls - k) \<and>
        session_log fs' a = newbuf @ drop (length newbuf) (log_text ls) \<and>
        length (session_log fs a) \<le> length (session_log fs' a) \<and>
        map_option (normal_list \<circ> inbox) a' = Some (normal_list (inbox a) @
          [\<lparr>sender_id = 0, msg_type = MSG_SUMMARY, payload = pad_to 224 summary\<rparr>]))"
proof -
  let ?p = "session_log_path (aid a)" and ?w = "ramfs_write fs (session_log_path (aid a)) 0 newbuf (int (length newbuf))"
  have nn: "NUL \<notin> set (log_text ls)" using assms(4) by (auto simp: log_text_def)
  have cs: "cstr summary = summary" using session_summary_no_NUL [OF nn] by (simp add: summary_def)
  have sl: "length summary \<le> 222" using length_session_summary by (simp add: summary_def)
  have kl: "length (log_text (drop (length ls - k) ls)) \<le> 7900"
    using log_text_drop_le [of "length ls - k" ls] assms(6) by linarith
  have nb: "0 < int (length newbuf)" "int (length newbuf) < 8192" using sl kl by (simp_all add: newbuf_def)
  have ne: "log_text ls \<noteq> []" using assms(5) by auto
  have start: "line_start_at (log_text ls) (int (length ls) - int k) = length (log_text (take (length ls - k) ls))"
    using assms(4,5) skip_lines_log [of ls "length ls - k"] by (simp add: line_start_at_def nat_diff_distrib)
  have w: "snd ?w = int (length newbuf)" "ramfs_inv (fst ?w)"
      "fs_map (fst ?w) = (fs_map fs)(?p \<mapsto> newbuf @ drop (length newbuf) (log_text ls))"
    using rfs.write_ok [OF assms(1) _ rfs.cont_room [OF assms(1,3)] nb, of newbuf] session_path_fits [of "aid a"] assms(2,3)
    by (auto simp: agent_id_ok_def)
  let ?m = "\<lparr>sender_id = 0, msg_type = MSG_SUMMARY, payload = pad_to 224 summary\<rparr>"
  have push: "snd (msgbox_push (inbox a) ?m) = 0"
      "normal_list (fst (msgbox_push (inbox a) ?m)) = normal_list (inbox a) @ [?m]"
    using mbox.push_regular [OF assms(7), of ?m] assms(8) by (auto simp: msgbox_is_priority_type_def)
  have "session_compact fs (Some a) (int k) =
      (fst ?w, Some (a\<lparr>inbox := fst (msgbox_push (inbox a) ?m)\<rparr>), int (length ls - k))"
    using assms(3-5) ne nb start cs sl kl w(1) push(1)
    by (simp add: session_compact_def session_read_file [OF assms(1)] count_lines_log drop_log_text
        case_prod_unfold Let_def length_log_text_drop add.assoc min_absorb1 newbuf_def flip: summary_def)
  with w push assms(3) show ?thesis by (simp add: session_log_def)
qed

theorem session_compact_overlays_witness:
  "(let (fs', a', rc) = session_compact
      (fst (ramfs_put blank_fs (session_log_path 2) (log_text [''a'', ''b'', ''c'']) 6)) (Some (blank_agent\<lparr>aid := 2\<rparr>)) 1
    in (rc, session_log fs' (blank_agent\<lparr>aid := 2\<rparr>))) = (2, log_text [''summary: a;b;'', ''c''])"
  using session_compact_overlays [of _ "blank_agent\<lparr>aid := 2\<rparr>" "[''a'', ''b'', ''c'']" 1] session_three_lines
  by (simp add: agent_id_ok_def blank_agent_def session_summary_def case_prod_unfold Let_def)

end
