(* ===== verification/Namespace.thy ===== *)
theory Namespace
  imports Ramfs Agent_Types
begin

text \<open>
  The per-agent home directory of \<open>kernel/namespace.c\<close>: the files under
  \<open>/ns/agent/<id>/home/\<close>, with a quota of 256 bytes for the one file the kernel itself writes,
  \<open>secret\<close>.  As in the audit log, the probe is the only caller that passes an id chosen by
  an agent to the path builder, and yields \<open>None\<close> when the digits do not fit its array.
\<close>

section \<open>Definitions\<close>

abbreviation (input) NAMESPACE_SECRET :: string where "NAMESPACE_SECRET \<equiv> ''secret''"

definition parse_namespace_agent_id :: "string \<Rightarrow> int" where
  "parse_namespace_agent_id path =
     (if \<not> match_at path 1 ''ns/'' then - 1
      else if \<not> match_at path 4 ''agent/'' then - 1
      else if \<not> is_digit (chr_at path 10) then - 1
      else
        let (id, rest) = parse_uint 0 (drop 10 path)
        in if chr_at rest 0 \<noteq> CHR ''/'' then - 1
           else if \<not> match_at rest 1 ''home/'' then - 1
           else id)"

definition namespace_is_path :: "string \<Rightarrow> bool" where
  "namespace_is_path path \<longleftrightarrow> (if chr_at path 0 \<noteq> CHR ''/'' then False else match_at path 1 ''ns/'')"

definition namespace_root_for :: "int \<Rightarrow> string" where
  "namespace_root_for agent_id = ''/ns/agent/'' @ dec_str agent_id @ ''/home''"

definition namespace_file_for :: "int \<Rightarrow> string \<Rightarrow> string" where
  "namespace_file_for agent_id name =
     (let dir = namespace_root_for agent_id @ ''/''
      in dir @ take (RAMFS_PATH_MAX - 1 - length dir) name)"

definition namespace_home_usage :: "ramfs \<Rightarrow> agent option \<Rightarrow> int" where
  "namespace_home_usage fs a =
     (case a of
        None \<Rightarrow> 0
      | Some ag \<Rightarrow> file_usage fs (namespace_file_for (aid ag) NAMESPACE_SECRET))"

definition namespace_home_quota :: "agent option \<Rightarrow> int" where
  "namespace_home_quota a = NAMESPACE_HOME_QUOTA"

definition namespace_path_ok :: "agent option \<Rightarrow> string \<Rightarrow> bool" where
  "namespace_path_ok a path =
     (case a of
        None \<Rightarrow> False
      | Some ag \<Rightarrow>
          if \<not> namespace_is_path path then False
          else
            let id = parse_namespace_agent_id path
            in if id < 0 then False else id = aid ag)"

definition namespace_write_secret :: "ramfs \<Rightarrow> agent option \<Rightarrow> string \<Rightarrow> int \<Rightarrow> ramfs \<times> int" where
  "namespace_write_secret fs a buf len =
     (case a of
        None \<Rightarrow> (fs, EINVAL)
      | Some ag \<Rightarrow>
          if len \<le> 0 then (fs, EINVAL)
          else
            let used = namespace_home_usage fs a;
                quota = namespace_home_quota a
            in if used + len > quota then (fs, ENOSPC)
               else ramfs_put fs (namespace_file_for (aid ag) NAMESPACE_SECRET) buf len)"

definition namespace_probe_cross_read :: "ramfs \<Rightarrow> agent option \<Rightarrow> int \<Rightarrow> int option" where
  "namespace_probe_cross_read fs a target_id =
     (case a of
        None \<Rightarrow> Some EINVAL
      | Some ag \<Rightarrow>
          if target_id = aid ag then Some 0
          else if digits_overflow target_id then None
          else
            let path = namespace_file_for target_id NAMESPACE_SECRET
            in if \<not> namespace_path_ok a path then Some EPERM
               else
                 let rc = fst (ramfs_read fs path 0 31)
                 in Some (if rc < 0 then rc else 0))"

definition namespace_status :: "ramfs \<Rightarrow> agent option \<Rightarrow> int" where
  "namespace_status fs a = (case a of None \<Rightarrow> EINVAL | Some _ \<Rightarrow> namespace_home_usage fs a)"

section \<open>Paths\<close>

lemma namespace_file_for_short:
  assumes "0 \<le> n" "n < 2147483648" "length name \<le> 37"
  shows "namespace_file_for n name = ''/ns/agent/'' @ dec_str n @ ''/home/'' @ name"
  using assms length_dec_str [of n 10] by (simp add: namespace_file_for_def namespace_root_for_def)

lemma parse_namespace_path:
  assumes "0 \<le> n" "n < 2147483648"
  shows "parse_namespace_agent_id (''/ns/agent/'' @ dec_str n @ ''/home/'' @ name) = n"
proof -
  obtain c cs where c: "dec_str n = c # cs" using dec_str_nonempty [OF assms(1)] by (cases "dec_str n") auto
  have "is_digit c" using dec_str_digits [of c n] c by simp
  moreover have "parse_uint 0 (dec_str n @ ''/home/'' @ name) = (n, ''/home/'' @ name)"
    using parse_uint_dec_str [OF assms, of "''/home/'' @ name"] by simp
  ultimately show ?thesis
    unfolding parse_namespace_agent_id_def using c by simp
qed

lemma namespace_path_ok_own:
  assumes "0 \<le> n" "n < 2147483648"
  shows "namespace_path_ok (Some a) (''/ns/agent/'' @ dec_str n @ ''/home/'' @ name) \<longleftrightarrow> n = aid a"
  using parse_namespace_path [OF assms, of name] assms(1)
  by (auto simp: namespace_path_ok_def namespace_is_path_def)

lemma secret_path:
  assumes "agent_id_ok a"
  shows "namespace_file_for (aid a) NAMESPACE_SECRET = ''/ns/agent/'' @ dec_str (aid a) @ ''/home/secret''"
    and "path_fits (namespace_file_for (aid a) NAMESPACE_SECRET)"
proof -
  show p: "namespace_file_for (aid a) NAMESPACE_SECRET = ''/ns/agent/'' @ dec_str (aid a) @ ''/home/secret''"
    using namespace_file_for_short [of "aid a" NAMESPACE_SECRET] assms by (simp add: agent_id_ok_def)
  have "length (dec_str (aid a)) \<le> 10"
    using length_dec_str [of "aid a" 10] assms by (simp add: agent_id_ok_def)
  with p show "path_fits (namespace_file_for (aid a) NAMESPACE_SECRET)" by (simp add: path_fits_def)
qed

section \<open>Properties\<close>

text \<open>An agent's secret stays within its home quota and is its own: a write of \<open>len\<close> bytes is
  accepted exactly when the present size of the secret plus \<open>len\<close> is at most 256 bytes and a
  slot is available; it then replaces the secret, which therefore has at most 256 bytes.  A
  refused write changes nothing.  The path of the secret is open to this agent and to no agent
  with another id, and no other file changes.\<close>

theorem namespace_secret_isolated:
  assumes "ramfs_inv fs" "agent_id_ok a" "0 < len" "nat len \<le> length d"
  defines "p \<equiv> namespace_file_for (aid a) NAMESPACE_SECRET"
  shows "(let (fs', rc) = namespace_write_secret fs (Some a) d len
     in ramfs_inv fs' \<and>
        (rc = 0 \<longleftrightarrow> namespace_home_usage fs (Some a) + len \<le> 256 \<and> has_room fs p) \<and>
        (if rc = 0 then fs_map fs' = (fs_map fs)(p \<mapsto> take (nat len) d) \<and> nat len \<le> 256 else fs' = fs)) \<and>
     (\<forall>b. namespace_path_ok (Some b) p \<longleftrightarrow> aid b = aid a)"
proof -
  have own: "namespace_path_ok (Some b) p \<longleftrightarrow> aid b = aid a" for b
    using namespace_path_ok_own [of "aid a" b NAMESPACE_SECRET] secret_path(1) [OF assms(2)] assms(2)
    by (auto simp: p_def agent_id_ok_def)
  have fits: "path_fits p" using secret_path(2) [OF assms(2)] by (simp add: p_def)
  have used: "0 \<le> namespace_home_usage fs (Some a)"
    using file_usage_nonneg [OF assms(1)] by (simp add: namespace_home_usage_def)
  show ?thesis
  proof (cases "namespace_home_usage fs (Some a) + len \<le> 256")
    case True
    then have e: "namespace_write_secret fs (Some a) d len = ramfs_put fs p d len"
      using assms(3) by (simp add: namespace_write_secret_def namespace_home_quota_def p_def)
    have l: "len < 8192" "len \<le> 256" using True used by linarith+
    show ?thesis
    proof (cases "has_room fs p")
      case room: True
      with e True own l rfs.put_ok [OF assms(1) fits room assms(3) l(1) assms(4)] show ?thesis
        by (auto simp: case_prod_unfold)
    next
      case False
      with e own assms(1) rfs.put_full [OF assms(3) l(1) False] show ?thesis by simp
    qed
  next
    case False
    then have "namespace_write_secret fs (Some a) d len = (fs, ENOSPC)"
      using assms(3) by (simp add: namespace_write_secret_def namespace_home_quota_def)
    with False own assms(1) show ?thesis by simp
  qed
qed

theorem namespace_secret_isolated_witness:
  "(let (fs', rc) = namespace_write_secret blank_fs (Some (blank_agent\<lparr>aid := 5\<rparr>)) ''key'' 3
    in fs_map fs' ''/ns/agent/5/home/secret'') = Some ''key''"
proof -
  have "agent_id_ok (blank_agent\<lparr>aid := 5\<rparr>)" by (simp add: agent_id_ok_def)
  moreover have "namespace_home_usage blank_fs (Some (blank_agent\<lparr>aid := 5\<rparr>)) = 0"
    by (simp add: namespace_home_usage_def file_usage_map)
  moreover have "namespace_file_for 5 NAMESPACE_SECRET = ''/ns/agent/5/home/secret''"
    by (simp add: namespace_file_for_short dec_str_def dec_loop_pos)
  ultimately show ?thesis
    using namespace_secret_isolated [of blank_fs "blank_agent\<lparr>aid := 5\<rparr>" 3 "''key''"]
    by (auto simp: case_prod_unfold Let_def)
qed

end
