(* ===== verification/Audit_Log.thy ===== *)
theory Audit_Log
  imports Ramfs Agent_Types
begin

text \<open>
  The per-agent tool log of \<open>kernel/audit.c\<close>, kept in the file
  \<open>/audit/agent/<id>/tool.log\<close> with a quota of 512 bytes.

  Every operation takes the file system and, where the C function changes it, returns the new one.
  The path builder stores the digits of the id in an array of 8 entries;
  \<open>digits_overflow\<close> says that an id has more digits, and the probe, the only function
  that passes an id chosen by the caller, yields \<open>None\<close> (memory corrupted) in that case.
\<close>

section \<open>Definitions\<close>

definition parse_audit_agent_id :: "string \<Rightarrow> int" where
  "parse_audit_agent_id path =
     (if \<not> match_at path 1 ''audit/'' then - 1
      else if \<not> match_at path 7 ''agent/'' then - 1
      else if \<not> is_digit (chr_at path 13) then - 1
      else
        let (id, rest) = parse_uint 0 (drop 13 path)
        in if chr_at rest 0 \<noteq> CHR ''/'' then - 1
           else if \<not> (match_at rest 1 ''tool.log'' \<and> chr_at rest 9 = NUL) then - 1
           else id)"

definition audit_path_for :: "int \<Rightarrow> string" where
  "audit_path_for agent_id = ''/audit/agent/'' @ dec_str agent_id @ ''/tool.log''"

definition audit_usage :: "ramfs \<Rightarrow> agent option \<Rightarrow> int" where
  "audit_usage fs a =
     (case a of
        None \<Rightarrow> 0
      | Some ag \<Rightarrow> file_usage fs (audit_path_for (aid ag)))"

definition audit_quota :: "agent option \<Rightarrow> int" where
  "audit_quota a = AUDIT_QUOTA_BYTES"

definition audit_allow_append :: "ramfs \<Rightarrow> agent option \<Rightarrow> int \<Rightarrow> int" where
  "audit_allow_append fs a add_bytes =
     (if a = None \<or> add_bytes < 0 then EINVAL
      else if audit_usage fs a + add_bytes > audit_quota a then ENOSPC
      else 0)"

definition audit_path_ok :: "agent option \<Rightarrow> string \<Rightarrow> bool" where
  "audit_path_ok a path =
     (case a of
        None \<Rightarrow> False
      | Some ag \<Rightarrow>
          let id = parse_audit_agent_id path
          in if id < 0 then False else id = aid ag)"

definition audit_probe_cross_read :: "ramfs \<Rightarrow> agent option \<Rightarrow> int \<Rightarrow> int option" where
  "audit_probe_cross_read fs a target_id =
     (case a of
        None \<Rightarrow> Some EINVAL
      | Some ag \<Rightarrow>
          if target_id = aid ag then Some 0
          else if digits_overflow target_id then None
          else
            let path = audit_path_for target_id
            in if \<not> audit_path_ok a path then Some EPERM
               else
                 let rc = fst (ramfs_read fs path 0 15)
                 in Some (if rc < 0 then rc else 0))"

definition audit_write :: "ramfs \<Rightarrow> agent option \<Rightarrow> string \<Rightarrow> int \<Rightarrow> ramfs \<times> int" where
  "audit_write fs a buf len =
     (case a of
        None \<Rightarrow> (fs, EINVAL)
      | Some ag \<Rightarrow>
          if len \<le> 0 then (fs, EINVAL)
          else
            let rc = audit_allow_append fs a len
            in if rc \<noteq> 0 then (fs, rc)
               else
                 let path = audit_path_for (aid ag);
                     used = audit_usage fs a
                 in if used \<le> 0 then ramfs_put fs path buf len
                    else if used + len \<ge> int RAMFS_FILE_SIZE then (fs, ENOSPC)
                    else
                      let (pos, old) = ramfs_read fs path 0 used
                      in if pos < 0 then (fs, pos)
                         else ramfs_put fs path (old @ take (nat len) buf) (pos + len))"

definition audit_line_starts :: "string \<Rightarrow> nat list" where
  "audit_line_starts buf =
     take 255 (0 # map Suc (filter (\<lambda>i. buf ! i = NEWLINE \<and> i + 1 < length buf) [0..<length buf]))"

definition audit_compact :: "ramfs \<Rightarrow> agent option \<Rightarrow> int \<Rightarrow> ramfs \<times> int" where
  "audit_compact fs a keep_lines =
     (case a of
        None \<Rightarrow> (fs, EINVAL)
      | Some ag \<Rightarrow>
          let keep1 = (if keep_lines < 1 then 1 else keep_lines);
              keep = (if keep1 > 32 then 32 else keep1);
              path = audit_path_for (aid ag);
              (n, buf) = ramfs_read fs path 0 (int RAMFS_FILE_SIZE)
          in if n \<le> 0 then (fs, 0)
             else
               let starts = audit_line_starts buf;
                   line_count = length starts
               in if int line_count \<le> keep then (fs, audit_usage fs a)
                  else
                    let start = starts ! (line_count - nat keep);
                        hdr = ''compact: '' @ (if keep \<ge> 10 then [digit_char (keep div 10)] else [])
                              @ [digit_char (keep mod 10)] @ [NEWLINE];
                        out = hdr @ take (RAMFS_FILE_SIZE - 1 - length hdr) (drop start buf);
                        (fs', _) = ramfs_put fs path out (int (length out))
                    in (fs', int (length out)))"

definition audit_tail :: "ramfs \<Rightarrow> agent option \<Rightarrow> int \<Rightarrow> int \<times> string" where
  "audit_tail fs a max_bytes0 =
     (case a of
        None \<Rightarrow> (EINVAL, [])
      | Some ag \<Rightarrow>
          let max_bytes = (if max_bytes0 \<le> 0 \<or> max_bytes0 > int AUDIT_TAIL_MAX
                           then int AUDIT_TAIL_MAX else max_bytes0);
              path = audit_path_for (aid ag);
              used = audit_usage fs a
          in if used \<le> 0 then (0, [])
             else
               let start = (if used - max_bytes < 0 then 0 else used - max_bytes);
                   (n, buf) = ramfs_read fs path (of_int start) max_bytes
               in if n \<le> 0 then (if n < 0 then n else EIO, [])
                  else (n, cstr buf))"

section \<open>Paths\<close>

lemma parse_audit_path:
  assumes "0 \<le> n" "n < 2147483648"
  shows "parse_audit_agent_id (audit_path_for n) = n"
proof -
  have d: "dec_str n \<noteq> []" using dec_str_nonempty [OF assms(1)] .
  then obtain c cs where c: "dec_str n = c # cs" by (cases "dec_str n") auto
  have "is_digit c" using dec_str_digits [of c n] c by simp
  moreover have "parse_uint 0 (dec_str n @ ''/tool.log'') = (n, ''/tool.log'')"
    using parse_uint_dec_str [OF assms, of "''/tool.log''"] by simp
  ultimately show ?thesis
    unfolding parse_audit_agent_id_def audit_path_for_def using c by simp
qed

lemma parse_audit_path_neg: "n < 0 \<Longrightarrow> parse_audit_agent_id (audit_path_for n) = - 1"
  by (simp add: parse_audit_agent_id_def audit_path_for_def dec_str_def)

lemma audit_path_fits: "0 \<le> n \<Longrightarrow> n < 2147483648 \<Longrightarrow> path_fits (audit_path_for n)"
  using length_dec_str [of n 10] by (simp add: path_fits_def audit_path_for_def)

lemma audit_path_ok_own: "0 \<le> n \<Longrightarrow> n < 2147483648 \<Longrightarrow> audit_path_ok (Some a) (audit_path_for n) \<longleftrightarrow> n = aid a"
  by (simp add: audit_path_ok_def parse_audit_path)

section \<open>Appending\<close>

definition audit_log :: "ramfs \<Rightarrow> agent \<Rightarrow> string" where
  "audit_log fs a = (case fs_map fs (audit_path_for (aid a)) of None \<Rightarrow> [] | Some c \<Rightarrow> c)"

lemma audit_usage_map:
  "ramfs_inv fs \<Longrightarrow> audit_usage fs (Some a) =
     (case fs_map fs (audit_path_for (aid a)) of None \<Rightarrow> 0 | Some c \<Rightarrow> int (max 1 (length c)))"
  by (simp add: audit_usage_def file_usage_map)

lemma audit_log_le_usage: "ramfs_inv fs \<Longrightarrow> int (length (audit_log fs a)) \<le> audit_usage fs (Some a)"
  by (simp add: audit_usage_map audit_log_def split: option.splits)

lemma audit_write_refused:
  "0 < len \<Longrightarrow> audit_usage fs (Some a) + len > 512 \<Longrightarrow> audit_write fs (Some a) d len = (fs, ENOSPC)"
  by (simp add: audit_write_def audit_allow_append_def audit_quota_def)

lemma audit_write_put:
  assumes "ramfs_inv fs" "0 < len" "audit_usage fs (Some a) + len \<le> 512" "nat len \<le> length d"
  shows "audit_write fs (Some a) d len =
    ramfs_put fs (audit_path_for (aid a)) (audit_log fs a @ take (nat len) d) (int (length (audit_log fs a)) + len)"
proof (cases "fs_map fs (audit_path_for (aid a))")
  case None
  with assms show ?thesis
    by (simp add: audit_write_def audit_allow_append_def audit_quota_def audit_usage_map audit_log_def)
next
  case (Some c)
  let ?u = "int (max 1 (length c))"
  have u: "audit_usage fs (Some a) = ?u" using assms(1) Some by (simp add: audit_usage_map)
  have "?u \<le> 511" using assms(2,3) u by linarith
  then have "ramfs_read fs (audit_path_for (aid a)) 0 ?u = (int (length c), c)"
    using rfs.read_all [OF assms(1) _ _ _ Some, of ?u] by auto
  with Some assms u \<open>?u \<le> 511\<close> show ?thesis
    by (simp add: audit_write_def audit_allow_append_def audit_quota_def audit_log_def)
qed

lemma audit_write_ok:
  assumes "ramfs_inv fs" "agent_id_ok a" "has_room fs (audit_path_for (aid a))"
    and "0 < len" "nat len \<le> length d" "audit_usage fs (Some a) + len \<le> 512"
  shows "snd (audit_write fs (Some a) d len) = 0 \<and> ramfs_inv (fst (audit_write fs (Some a) d len)) \<and>
    fs_map (fst (audit_write fs (Some a) d len)) =
      (fs_map fs)(audit_path_for (aid a) \<mapsto> audit_log fs a @ take (nat len) d)"
proof -
  let ?l = "audit_log fs a"
  have "int (length ?l) + len \<le> 512" using audit_log_le_usage [OF assms(1), of a] assms(6) by linarith
  moreover have "nat (int (length ?l) + len) = length ?l + nat len" using assms(4) by simp
  moreover have "path_fits (audit_path_for (aid a))"
    using assms(2) by (simp add: agent_id_ok_def audit_path_fits)
  ultimately show ?thesis
    using rfs.put_ok [OF assms(1) _ assms(3), of "int (length ?l) + len" "?l @ take (nat len) d"] assms(4,5)
    by (simp add: audit_write_put [OF assms(1,4,6,5)])
qed

section \<open>Compaction\<close>

text \<open>
  A log that consists of newline-terminated lines: \<open>log_text\<close> of the list of its lines.  The
  recorded line starts are the lengths of its prefixes, and compaction keeps the last lines.
\<close>

lemma newline_positions:
  assumes "NEWLINE \<notin> set l"
  shows "filter (\<lambda>i. (l @ NEWLINE # r) ! i = NEWLINE \<and> P i) [0..<length (l @ NEWLINE # r)] =
    filter P [length l] @
    map ((+) (Suc (length l))) (filter (\<lambda>i. r ! i = NEWLINE \<and> P (Suc (length l) + i)) [0..<length r])"
proof -
  let ?b = "l @ NEWLINE # r"
  have "[0..<length ?b] = [0..<length l] @ length l # [Suc (length l)..<Suc (length l) + length r]"
    using upt_add_eq_append [of 0 "length l" "Suc (length r)"] upt_conv_Cons [of "length l" "length l + Suc (length r)"]
    by simp
  also have "[Suc (length l)..<Suc (length l) + length r] = map ((+) (Suc (length l))) [0..<length r]"
    by (rule nth_equalityI) (simp_all del: upt_Suc)
  finally have "[0..<length ?b] = [0..<length l] @ length l # map ((+) (Suc (length l))) [0..<length r]" .
  moreover have "filter (\<lambda>i. ?b ! i = NEWLINE \<and> P i) [0..<length l] = []"
    using assms by (auto simp: filter_empty_conv nth_append in_set_conv_nth)
  ultimately show ?thesis by (simp add: filter_map o_def nth_append)
qed

lemma line_starts_log:
  assumes "\<forall>l \<in> set ls. NEWLINE \<notin> set l" "ls \<noteq> []"
  shows "0 # map Suc (filter (\<lambda>i. log_text ls ! i = NEWLINE \<and> i + 1 < length (log_text ls)) [0..<length (log_text ls)])
    = map (\<lambda>i. length (log_text (take i ls))) [0..<length ls]"
  using assms
proof (induction ls)
  case Nil
  then show ?case by simp
next
  case (Cons l ls)
  show ?case
  proof (cases ls)
    case Nil
    have "filter (\<lambda>i. (l @ [NEWLINE]) ! i = NEWLINE \<and> i < length l) [0..<Suc (length l)] = []"
      using Cons.prems(1) by (auto simp: filter_empty_conv nth_append in_set_conv_nth)
    with Nil show ?thesis by simp
  next
    case (Cons m ms)
    let ?r = "log_text ls" and ?k = "Suc (length l)"
    have "filter (\<lambda>i. log_text (l # ls) ! i = NEWLINE \<and> i + 1 < length (log_text (l # ls))) [0..<length (log_text (l # ls))]
      = length l # map ((+) ?k) (filter (\<lambda>i. ?r ! i = NEWLINE \<and> i + 1 < length ?r) [0..<length ?r])"
      using newline_positions [of l ?r "\<lambda>i. i + 1 < length (log_text (l # ls))"] Cons.prems Cons by simp
    then have "0 # map Suc (filter (\<lambda>i. log_text (l # ls) ! i = NEWLINE \<and> i + 1 < length (log_text (l # ls))) [0..<length (log_text (l # ls))])
      = 0 # map ((+) ?k) (0 # map Suc (filter (\<lambda>i. ?r ! i = NEWLINE \<and> i + 1 < length ?r) [0..<length ?r]))"
      by simp
    also have "\<dots> = 0 # map ((+) ?k) (map (\<lambda>i. length (log_text (take i ls))) [0..<length ls])"
      using Cons.IH Cons.prems Cons by simp
    also have "\<dots> = map (\<lambda>i. length (log_text (take i (l # ls)))) [0..<length (l # ls)]"
      by (rule nth_equalityI) (auto simp: less_Suc_eq_0_disj simp del: upt_Suc)
    finally show ?thesis .
  qed
qed


definition compact_header :: "int \<Rightarrow> string" where
  "compact_header keep = ''compact: '' @ dec_str keep"

lemma dec_str_two_digits:
  assumes "1 \<le> k" "k < 100"
  shows "dec_str k = (if k \<ge> 10 then [digit_char (k div 10)] else []) @ [digit_char (k mod 10)]"
proof (cases "k \<ge> 10")
  case True
  then have "dec_loop k = [k mod 10, k div 10 mod 10]"
    using assms by (simp add: dec_loop_pos div_int_pos_iff)
  moreover have "k div 10 mod 10 = k div 10" using assms True by auto
  ultimately show ?thesis using assms True by (simp add: dec_str_def)
next
  case False
  then show ?thesis using assms by (simp add: dec_str_def dec_loop_pos)
qed

text \<open>The lines a compaction that keeps \<open>k\<close> lines leaves.\<close>

definition compacted :: "nat \<Rightarrow> string list \<Rightarrow> string list" where
  "compacted k ls = (if length ls \<le> k then ls else compact_header (int k) # drop (length ls - k) ls)"

lemma audit_compact_ok:
  assumes "ramfs_inv fs" "agent_id_ok a" "fs_map fs (audit_path_for (aid a)) = Some (log_text ls)"
    and "\<forall>l \<in> set ls. NEWLINE \<notin> set l" "ls \<noteq> []" "length ls \<le> 255" "length (log_text ls) \<le> 8000"
    and "1 \<le> k" "k \<le> 32"
  shows "ramfs_inv (fst (audit_compact fs (Some a) (int k))) \<and>
    snd (audit_compact fs (Some a) (int k)) = int (length (log_text (compacted k ls))) \<and>
    fs_map (fst (audit_compact fs (Some a) (int k))) =
      (fs_map fs)(audit_path_for (aid a) \<mapsto> log_text (compacted k ls))"
proof -
  let ?p = "audit_path_for (aid a)"
  have rd: "ramfs_read fs ?p 0 8192 = (int (length (log_text ls)), log_text ls)"
    using assms(7) by (intro rfs.read_all [OF assms(1) _ _ _ assms(3)]) auto
  have st: "audit_line_starts (log_text ls) = map (\<lambda>i. length (log_text (take i ls))) [0..<length ls]"
    unfolding audit_line_starts_def by (subst line_starts_log) (use assms in auto)
  have pos: "0 < length (log_text ls)" using assms(5) by simp
  show ?thesis
  proof (cases "length ls \<le> k")
    case True
    have "audit_compact fs (Some a) (int k) = (fs, int (length (log_text ls)))"
      using True assms(1,3,5,8,9) pos
      by (simp add: audit_compact_def rd st audit_usage_map Suc_leI max_def)
    with True assms(1,3) show ?thesis by (simp add: compacted_def map_upd_triv)
  next
    case False
    let ?o = "log_text (compact_header (int k) # drop (length ls - k) ls)"
    have h: "length (compact_header (int k)) \<le> 11"
      using assms(8,9) length_dec_str [of "int k" 2] by (simp add: compact_header_def)
    have l: "length (log_text (drop (length ls - k) ls)) \<le> 8000"
      using log_text_drop_le [of "length ls - k" ls] assms(7) by linarith
    have "audit_compact fs (Some a) (int k) = (fst (ramfs_put fs ?p ?o (int (length ?o))), int (length ?o))"
      using False assms(5,8,9) pos h l
      by (simp add: audit_compact_def rd st drop_log_text compact_header_def dec_str_two_digits
          length_log_text_drop case_prod_unfold Let_def)
    moreover have "has_room fs ?p" using rfs.cont_room [OF assms(1,3)] .
    moreover have "path_fits ?p" using assms(2) by (simp add: agent_id_ok_def audit_path_fits)
    ultimately show ?thesis
      using False h l rfs.put_ok [OF assms(1), of ?p "int (length ?o)" ?o] by (simp add: compacted_def)
  qed
qed

section \<open>Properties\<close>

text \<open>C12: The log of an agent never exceeds its quota and is append-only: a write of \<open>len\<close>
  bytes either appends exactly these bytes, keeping every earlier byte and the log within 512
  bytes, or returns an error and leaves the file system unchanged.  No other file is touched.\<close>

theorem audit_write_append_only:
  assumes "ramfs_inv fs" "agent_id_ok a" "0 < len" "nat len \<le> length d"
  shows "(let (fs', rc) = audit_write fs (Some a) d len
     in ramfs_inv fs' \<and>
        (if rc = 0
         then audit_log fs' a = audit_log fs a @ take (nat len) d \<and> length (audit_log fs' a) \<le> 512 \<and>
              (\<forall>q. q \<noteq> audit_path_for (aid a) \<longrightarrow> fs_map fs' q = fs_map fs q)
         else fs' = fs))"
proof (cases "audit_usage fs (Some a) + len > 512")
  case True
  with assms show ?thesis by (simp add: audit_write_refused)
next
  case False
  show ?thesis
  proof (cases "has_room fs (audit_path_for (aid a))")
    case True
    from False have "int (length (audit_log fs a)) + len \<le> 512"
      using audit_log_le_usage [OF assms(1), of a] by linarith
    then show ?thesis
      using audit_write_ok [OF assms(1,2) True assms(3,4)] False assms
      by (auto simp: audit_log_def case_prod_unfold)
  next
    case full: False
    have "int (length (audit_log fs a)) + len < 8192" "0 < int (length (audit_log fs a)) + len"
      using audit_log_le_usage [OF assms(1), of a] False assms(3) by linarith+
    then have "audit_write fs (Some a) d len = (fs, ENOSPC)"
      using audit_write_put [OF assms(1,3) _ assms(4), of a] False rfs.put_full [OF _ _ full] by simp
    with assms show ?thesis by simp
  qed
qed

definition audit_agent :: agent where
  "audit_agent = blank_agent\<lparr>aid := 3\<rparr>"

theorem audit_write_append_only_witness:
  "audit_log (fst (audit_write blank_fs (Some audit_agent) ''t=1 rc=0'' 8)) audit_agent = ''t=1 rc=0'' \<and>
   snd (audit_write blank_fs (Some audit_agent) ''t=1 rc=0'' 8) = 0"
proof -
  have "snd (audit_write blank_fs (Some audit_agent) ''t=1 rc=0'' 8) = 0"
    using audit_write_ok [of blank_fs audit_agent 8 "''t=1 rc=0''"]
    by (simp add: agent_id_ok_def audit_agent_def audit_usage_map)
  then show ?thesis
    using audit_write_append_only [of blank_fs audit_agent 8 "''t=1 rc=0''"]
    by (simp add: agent_id_ok_def audit_agent_def case_prod_unfold audit_log_def Let_def)
qed

text \<open>C13: Compaction of a log made of lines keeps exactly the last \<open>k\<close> lines, in order, under a
  header line that records \<open>k\<close>; a log with no more than \<open>k\<close> lines is left as it is.  The return
  code is the new size, and no other file changes.\<close>

theorem audit_compact_keeps_tail:
  assumes "ramfs_inv fs" "agent_id_ok a" "fs_map fs (audit_path_for (aid a)) = Some (log_text ls)"
    and "\<forall>l \<in> set ls. NEWLINE \<notin> set l" "ls \<noteq> []" "length ls \<le> 255" "length (log_text ls) \<le> 8000"
    and "1 \<le> k" "k \<le> 32"
  shows "(let (fs', rc) = audit_compact fs (Some a) (int k)
     in ramfs_inv fs' \<and> rc = int (length (audit_log fs' a)) \<and>
        audit_log fs' a =
          (if length ls \<le> k then log_text ls
           else log_text ((''compact: '' @ dec_str (int k)) # drop (length ls - k) ls)) \<and>
        (\<forall>q. q \<noteq> audit_path_for (aid a) \<longrightarrow> fs_map fs' q = fs_map fs q))"
  using audit_compact_ok [OF assms]
  by (simp add: case_prod_unfold audit_log_def compacted_def compact_header_def)

lemma audit_three_lines:
  "ramfs_inv (fst (ramfs_put blank_fs (audit_path_for 3) (log_text [''a'', ''b'', ''c'']) 6))"
  "fs_map (fst (ramfs_put blank_fs (audit_path_for 3) (log_text [''a'', ''b'', ''c'']) 6)) (audit_path_for 3)
     = Some (log_text [''a'', ''b'', ''c''])"
  using rfs.put_ok [of blank_fs "audit_path_for 3" 6 "log_text [''a'', ''b'', ''c'']"]
  by (simp_all add: audit_path_fits)

theorem audit_compact_keeps_tail_witness:
  "audit_log (fst (audit_compact
     (fst (ramfs_put blank_fs (audit_path_for 3) (log_text [''a'', ''b'', ''c'']) 6)) (Some audit_agent) 1)) audit_agent
   = log_text [''compact: 1'', ''c'']"
  using audit_compact_keeps_tail [of "fst (ramfs_put blank_fs (audit_path_for 3) (log_text [''a'', ''b'', ''c'']) 6)"
      audit_agent "[''a'', ''b'', ''c'']" 1] audit_three_lines
  by (simp add: audit_agent_def agent_id_ok_def case_prod_unfold Let_def dec_str_def dec_loop_pos)

end
