(* ===== verification/Blk.thy ===== *)
theory Blk
  imports Agentos
begin

text \<open>
  The sector interface of \<open>kernel/virtio_blk.c\<close>.  The device behind the queue is not code of the
  repository: it is a parameter, the field \<open>reply\<close>, that gives the outcome of the \<open>n\<close>-th request.
  A request completes with status 0, completes with another status, or is not completed within
  the polling bound of \<open>vq_wait_used\<close>; in the last two cases a write may have reached the medium or
  not.  The descriptor chain and the MMIO register accesses are not modelled; \<open>blk_transfer\<close> keeps
  the driver's tests, in its order, on the outcome.

  The locale \<open>block_store\<close> is what the persistence layer relies on.
\<close>

section \<open>Definitions\<close>

datatype blk_reply = Blk_done | Blk_status bool | Blk_late bool

record blkdev =
  blk_ready :: bool
  medium :: "nat \<Rightarrow> nat \<Rightarrow> char"
  reply :: "nat \<Rightarrow> blk_reply"
  requests :: nat

abbreviation (input) VIRTIO_SECTOR_SIZE :: nat where "VIRTIO_SECTOR_SIZE \<equiv> 512"

definition put_sector :: "blkdev \<Rightarrow> nat \<Rightarrow> string \<Rightarrow> blkdev" where
  "put_sector b sector buf = b\<lparr>medium := (medium b)(sector := (\<lambda>i. buf ! i))\<rparr>"

definition get_sector :: "blkdev \<Rightarrow> nat \<Rightarrow> string" where
  "get_sector b sector = map (medium b sector) [0..<VIRTIO_SECTOR_SIZE]"

definition blk_transfer :: "blkdev \<Rightarrow> nat \<Rightarrow> string option \<Rightarrow> blkdev \<times> int \<times> string" where
  "blk_transfer b sector buf =
     (if \<not> blk_ready b then (b, ENODEV, [])
      else
        let r = reply b (requests b);
            landed = (case r of Blk_done \<Rightarrow> True | Blk_status l \<Rightarrow> l | Blk_late l \<Rightarrow> l);
            b1 = (case buf of None \<Rightarrow> b | Some d \<Rightarrow> if landed then put_sector b sector d else b);
            b2 = b1\<lparr>requests := requests b + 1\<rparr>
        in (case r of
              Blk_late _ \<Rightarrow> (b2, ETIMEDOUT, [])
            | Blk_status _ \<Rightarrow> (b2, EIO, [])
            | Blk_done \<Rightarrow> (b2, 0, if buf = None then get_sector b2 sector else [])))"

definition virtio_blk_read_sector :: "blkdev \<Rightarrow> nat \<Rightarrow> blkdev \<times> int \<times> string" where
  "virtio_blk_read_sector b sector = blk_transfer b sector None"

definition virtio_blk_write_sector :: "blkdev \<Rightarrow> nat \<Rightarrow> string \<Rightarrow> blkdev \<times> int" where
  "virtio_blk_write_sector b sector buf =
     (case blk_transfer b sector (Some buf) of (b1, rc, _) \<Rightarrow> (b1, rc))"

section \<open>The contract\<close>

definition blk_sound :: "blkdev \<Rightarrow> bool" where
  "blk_sound b \<longleftrightarrow> blk_ready b \<and> (\<forall>n \<ge> requests b. reply b n = Blk_done)"

lemma get_put_sector:
  "length d = VIRTIO_SECTOR_SIZE \<Longrightarrow> get_sector (put_sector b s d) t = (if t = s then d else get_sector b t)"
  by (auto simp: get_sector_def put_sector_def intro: nth_equalityI)

lemma get_sector_requests [simp]: "get_sector (b\<lparr>requests := n\<rparr>) = get_sector b"
  by (simp add: get_sector_def fun_eq_iff)

lemma length_get_sector [simp]: "length (get_sector b s) = VIRTIO_SECTOR_SIZE"
  by (simp add: get_sector_def)

locale block_store =
  fixes rd :: "'b \<Rightarrow> nat \<Rightarrow> 'b \<times> int \<times> string"
    and wr :: "'b \<Rightarrow> nat \<Rightarrow> string \<Rightarrow> 'b \<times> int"
    and sect :: "'b \<Rightarrow> nat \<Rightarrow> string"
    and sound :: "'b \<Rightarrow> bool"
  assumes sect_length: "length (sect b s) = 512"
    and rd_ok: "sound b \<Longrightarrow> \<exists>b1. rd b s = (b1, 0, sect b s) \<and> sound b1 \<and> sect b1 = sect b"
    and wr_ok: "sound b \<Longrightarrow> length d = 512 \<Longrightarrow>
      \<exists>b1. wr b s d = (b1, 0) \<and> sound b1 \<and> sect b1 = (sect b)(s := d)"
    and wr_frame: "length d = 512 \<Longrightarrow> t \<noteq> s \<Longrightarrow> sect (fst (wr b s d)) t = sect b t"
    and rd_frame: "sect (fst (rd b s)) = sect b"
begin

lemma rd_okE:
  assumes "sound b"
  obtains b1 where "rd b s = (b1, 0, sect b s)" "sound b1" "sect b1 = sect b"
  using rd_ok [OF assms] by blast

lemma wr_okE:
  assumes "sound b" "length d = 512"
  obtains b1 where "wr b s d = (b1, 0)" "sound b1" "sect b1 = (sect b)(s := d)"
  using wr_ok [OF assms] by blast

lemma rd_after_wr:
  assumes "sound b" "length d = 512"
  shows "snd (rd (fst (wr b s d)) t) = (0, if t = s then d else sect b t)"
proof -
  obtain b1 where w: "wr b s d = (b1, 0)" "sound b1" "sect b1 = (sect b)(s := d)"
    using wr_okE [OF assms] .
  obtain b2 where "rd b1 t = (b2, 0, sect b1 t)" using rd_okE [OF w(2)] .
  with w show ?thesis by simp
qed

end

interpretation vblk: block_store virtio_blk_read_sector virtio_blk_write_sector get_sector blk_sound
  by unfold_locales
    (auto simp: virtio_blk_read_sector_def virtio_blk_write_sector_def blk_transfer_def blk_sound_def
       get_put_sector Let_def fun_eq_iff put_sector_def [of b s for b s] get_sector_def
       split: blk_reply.splits intro: nth_equalityI)

end
