(* ===== verification/Persist.thy ===== *)
theory Persist
  imports Ramfs Blk
begin

text \<open>
  The on-disk snapshot of the user files, \<open>kernel/persist.c\<close>: superblock, one meta sector per file
  followed by its data sectors, CRC-32 per file and a rolling checksum in the superblock.

  The structs are written to a sector byte by byte; \<open>enc32\<close> and \<open>dec32\<close> are the little-endian
  representation of their fields.  The path buffer of \<open>persist_sync\<close> is an uninitialised local: its
  initial bytes are the parameter \<open>buf\<close>.  \<open>io_oob\<close> is a ghost flag, set when the terminating NUL is
  stored behind the 8192 bytes of \<open>persist_io_buf\<close>.  Sector numbers are natural numbers: a load
  visits at most \<open>2 ^ 31\<close> files of at most 17 sectors, which does not reach \<open>2 ^ 64\<close>.

  The lemmas describe the disk image of a list of files (\<open>holds\<close>), show that a sync writes it and
  that a load reads it back; the two properties are the round trip through the disk, and the failure
  of the next load after an empty file was saved.
\<close>

section \<open>Definitions\<close>

unbundle bit_operations_syntax

abbreviation (input) PERSIST_MAGIC :: u32 where "PERSIST_MAGIC \<equiv> 0x31495641"

abbreviation (input) PERSIST_VERSION_AOS1 :: u32 where "PERSIST_VERSION_AOS1 \<equiv> 1"

abbreviation (input) PERSIST_VERSION_AOS2 :: u32 where "PERSIST_VERSION_AOS2 \<equiv> 2"

record persist =
  blk_ok :: bool
  blk :: blkdev
  io_oob :: bool

record persist_super =
  sup_magic :: u32
  sup_version :: u32
  sup_file_count :: u32
  sup_checksum :: u32

record persist_meta =
  meta_path :: string
  meta_size :: u32
  meta_crc32 :: u32

definition enc32 :: "u32 \<Rightarrow> string" where
  "enc32 w = map (\<lambda>k. char_of (unat w div 256 ^ k)) [0, 1, 2, 3]"

definition le32 :: "string \<Rightarrow> nat" where
  "le32 bs = of_char (bs ! 0) + 256 * of_char (bs ! 1) + 65536 * of_char (bs ! 2)
             + 16777216 * of_char (bs ! 3)"

definition dec32 :: "string \<Rightarrow> u32" where
  "dec32 bs = of_nat (le32 bs)"

definition crc_bit :: "u32 \<Rightarrow> u32" where
  "crc_bit crc = (if crc AND 1 \<noteq> 0 then drop_bit 1 crc XOR 0xedb88320 else drop_bit 1 crc)"

definition crc_byte :: "u32 \<Rightarrow> char \<Rightarrow> u32" where
  "crc_byte crc c = (crc_bit ^^ 8) (crc XOR of_char c)"

definition persist_crc32 :: "string \<Rightarrow> u32" where
  "persist_crc32 bs = NOT (foldl crc_byte 0xffffffff bs)"

definition rd_sector :: "persist \<Rightarrow> nat \<Rightarrow> persist \<times> int \<times> string" where
  "rd_sector p sector =
     (case virtio_blk_read_sector (blk p) sector of (b, rc, d) \<Rightarrow> (p\<lparr>blk := b\<rparr>, rc, d))"

definition wr_sector :: "persist \<Rightarrow> nat \<Rightarrow> string \<Rightarrow> persist \<times> int" where
  "wr_sector p sector d =
     (case virtio_blk_write_sector (blk p) sector (pad_to VIRTIO_SECTOR_SIZE d) of
        (b, rc) \<Rightarrow> (p\<lparr>blk := b\<rparr>, rc))"

fun persist_read_file_data :: "persist \<Rightarrow> nat \<Rightarrow> nat \<Rightarrow> persist \<times> int \<times> string" where
  "persist_read_file_data p sector sz =
     (if sz = 0 then (p, 0, [])
      else (case rd_sector p sector of (p1, rc, d) \<Rightarrow>
        if rc \<noteq> 0 then (p1, EIO, [])
        else (case persist_read_file_data p1 (sector + 1) (sz - VIRTIO_SECTOR_SIZE) of
                (p2, rc2, rest) \<Rightarrow> (p2, rc2, take (min sz VIRTIO_SECTOR_SIZE) d @ rest))))"

function persist_write_file_data :: "persist \<Rightarrow> nat \<Rightarrow> string \<Rightarrow> persist \<times> int" where
  "persist_write_file_data p sector data =
     (if data = [] then (p, 0)
      else (case wr_sector p sector (take VIRTIO_SECTOR_SIZE data) of (p1, rc) \<Rightarrow>
        if rc \<noteq> 0 then (p1, EIO)
        else persist_write_file_data p1 (sector + 1) (drop VIRTIO_SECTOR_SIZE data)))"
  by pat_completeness auto
termination
  by (relation "measure (\<lambda>(p, s, d). length d)") auto

definition persist_file_sectors :: "nat \<Rightarrow> nat" where
  "persist_file_sectors sz = (sz + VIRTIO_SECTOR_SIZE - 1) div VIRTIO_SECTOR_SIZE"

definition dec_super :: "string \<Rightarrow> persist_super" where
  "dec_super d = \<lparr>sup_magic = dec32 d, sup_version = dec32 (drop 4 d),
                  sup_file_count = dec32 (drop 8 d), sup_checksum = dec32 (drop 12 d)\<rparr>"

definition enc_super :: "persist_super \<Rightarrow> string" where
  "enc_super s = enc32 (sup_magic s) @ enc32 (sup_version s) @ enc32 (sup_file_count s) @ enc32 (sup_checksum s)"

definition dec_meta :: "string \<Rightarrow> persist_meta" where
  "dec_meta d = \<lparr>meta_path = take RAMFS_PATH_MAX d, meta_size = dec32 (drop 64 d),
                 meta_crc32 = dec32 (drop 68 d)\<rparr>"

definition enc_meta :: "persist_meta \<Rightarrow> string" where
  "enc_meta m = meta_path m @ enc32 (meta_size m) @ enc32 (meta_crc32 m)"

definition persist_read_super :: "persist \<Rightarrow> persist \<times> int \<times> persist_super" where
  "persist_read_super p =
     (case rd_sector p 0 of (p1, rc, d) \<Rightarrow> (p1, if rc \<noteq> 0 then EIO else 0, dec_super d))"

definition persist_write_super :: "persist \<Rightarrow> persist_super \<Rightarrow> persist \<times> int" where
  "persist_write_super p super = wr_sector p 0 (enc_super super)"

definition persist_read_meta :: "persist \<Rightarrow> nat \<Rightarrow> persist \<times> int \<times> persist_meta" where
  "persist_read_meta p sector =
     (case rd_sector p sector of (p1, rc, d) \<Rightarrow> (p1, if rc \<noteq> 0 then EIO else 0, dec_meta d))"

definition persist_write_meta :: "persist \<Rightarrow> nat \<Rightarrow> persist_meta \<Rightarrow> persist \<times> int" where
  "persist_write_meta p sector meta = wr_sector p sector (enc_meta meta)"

text \<open>
  One file of a load: the part the two formats share.  The size test bounds the size by 8192, so
  the two upper bytes of its field are 0 and end the path string at the latest there.
\<close>

definition persist_load_file ::
    "persist \<Rightarrow> ramfs \<Rightarrow> nat \<Rightarrow> bool \<Rightarrow> persist \<times> ramfs \<times> int \<times> persist_meta" where
  "persist_load_file p fs sector checked =
     (case persist_read_meta p sector of (p1, rc, meta) \<Rightarrow>
        if rc \<noteq> 0 then (p1, fs, EIO, meta)
        else if meta_size meta = 0 \<or> meta_size meta > of_nat RAMFS_FILE_SIZE then (p1, fs, EIO, meta)
        else
          (case persist_read_file_data p1 (sector + 1) (unat (meta_size meta)) of (p2, rc2, data) \<Rightarrow>
             if rc2 \<noteq> 0 then (p2, fs, EIO, meta)
             else
               let p3 = p2\<lparr>io_oob := (io_oob p2 \<or> meta_size meta = of_nat RAMFS_FILE_SIZE)\<rparr>
               in if checked \<and> persist_crc32 data \<noteq> meta_crc32 meta then (p3, fs, EIO, meta)
                  else (case ramfs_put fs (cstr (meta_path meta @ enc32 (meta_size meta))) data
                               (uint (meta_size meta)) of
                          (fs1, rc3) \<Rightarrow> (p3, fs1, if rc3 \<noteq> 0 then EIO else 0, meta))))"

fun load_v1_loop :: "persist \<Rightarrow> ramfs \<Rightarrow> nat \<Rightarrow> nat \<Rightarrow> persist \<times> ramfs \<times> int" where
  "load_v1_loop p fs 0 sector = (p, fs, 0)"
| "load_v1_loop p fs (Suc n) sector =
     (case persist_load_file p fs sector False of (p1, fs1, rc, meta) \<Rightarrow>
        if rc \<noteq> 0 then (p1, fs1, EIO)
        else load_v1_loop p1 fs1 n (sector + 1 + persist_file_sectors (unat (meta_size meta))))"

definition persist_load_v1 :: "persist \<Rightarrow> ramfs \<Rightarrow> u32 \<Rightarrow> persist \<times> ramfs \<times> int" where
  "persist_load_v1 p fs file_count = load_v1_loop p fs (nat (wrap32 (uint file_count))) 1"

fun load_v2_loop :: "persist \<Rightarrow> ramfs \<Rightarrow> nat \<Rightarrow> nat \<Rightarrow> u32 \<Rightarrow> persist \<times> ramfs \<times> int \<times> u32" where
  "load_v2_loop p fs 0 sector rolling = (p, fs, 0, rolling)"
| "load_v2_loop p fs (Suc n) sector rolling =
     (case persist_load_file p fs sector True of (p1, fs1, rc, meta) \<Rightarrow>
        if rc \<noteq> 0 then (p1, fs1, EIO, rolling)
        else load_v2_loop p1 fs1 n (sector + 1 + persist_file_sectors (unat (meta_size meta)))
               (rolling XOR meta_crc32 meta XOR meta_size meta))"

definition persist_load_v2 :: "persist \<Rightarrow> ramfs \<Rightarrow> u32 \<Rightarrow> u32 \<Rightarrow> persist \<times> ramfs \<times> int" where
  "persist_load_v2 p fs file_count super_crc =
     (case load_v2_loop p fs (nat (wrap32 (uint file_count))) 1 0 of (p1, fs1, rc, rolling) \<Rightarrow>
        if rc \<noteq> 0 then (p1, fs1, EIO)
        else if rolling \<noteq> super_crc then (p1, fs1, EIO)
        else (p1, fs1, 0))"

definition persist_init :: "persist \<Rightarrow> int \<Rightarrow> persist" where
  "persist_init p init_rc = p\<lparr>blk_ok := (init_rc = 0)\<rparr>"

function sync_loop :: "persist \<Rightarrow> ramfs \<Rightarrow> string \<Rightarrow> nat \<Rightarrow> nat \<Rightarrow> nat \<Rightarrow> u32 \<Rightarrow> persist \<times> int \<times> u32" where
  "sync_loop p fs buf idx count sector rolling =
     (if idx < count then
        (case ramfs_user_get fs idx (int RAMFS_FILE_SIZE) of (sz, path, data) \<Rightarrow>
           if sz < 0 then (p, EIO, rolling)
           else
             let buf1 = copy_prefix (path @ [NUL]) buf;
                 meta = \<lparr>meta_path = buf1, meta_size = of_int sz, meta_crc32 = persist_crc32 data\<rparr>;
                 rolling1 = rolling XOR meta_crc32 meta XOR meta_size meta
             in (case persist_write_meta p sector meta of (p1, rc) \<Rightarrow>
                   if rc \<noteq> 0 then (p1, EIO, rolling1)
                   else (case persist_write_file_data p1 (sector + 1) data of (p2, rc2) \<Rightarrow>
                     if rc2 \<noteq> 0 then (p2, EIO, rolling1)
                     else sync_loop p2 fs buf1 (idx + 1) count
                            (sector + 1 + persist_file_sectors (nat sz)) rolling1)))
      else (p, 0, rolling))"
  by pat_completeness auto
termination
  by (relation "measure (\<lambda>(p, fs, buf, idx, count, s, r). count - idx)") auto

definition persist_sync :: "string \<Rightarrow> persist \<Rightarrow> ramfs \<Rightarrow> persist \<times> int" where
  "persist_sync buf p fs =
     (if \<not> blk_ok p then (p, ENODEV)
      else
        (case sync_loop p fs buf 0 (nat (ramfs_user_count fs)) 1 0 of (p1, rc, rolling) \<Rightarrow>
           if rc \<noteq> 0 then (p1, EIO)
           else (case persist_write_super p1 \<lparr>sup_magic = PERSIST_MAGIC, sup_version = PERSIST_VERSION_AOS2,
                        sup_file_count = of_int (ramfs_user_count fs), sup_checksum = rolling\<rparr> of
                   (p2, rc2) \<Rightarrow> (p2, if rc2 \<noteq> 0 then EIO else 0))))"

definition persist_migrate :: "string \<Rightarrow> persist \<Rightarrow> ramfs \<Rightarrow> persist \<times> int" where
  "persist_migrate buf p fs = (if \<not> blk_ok p then (p, ENODEV) else persist_sync buf p fs)"

definition persist_load :: "string \<Rightarrow> persist \<Rightarrow> ramfs \<Rightarrow> persist \<times> ramfs \<times> int" where
  "persist_load buf p fs =
     (if \<not> blk_ok p then (p, fs, 0)
      else
        (case persist_read_super p of (p1, rc, super) \<Rightarrow>
           if rc \<noteq> 0 then (p1, fs, EIO)
           else if sup_magic super \<noteq> PERSIST_MAGIC then (p1, fs, 0)
           else if sup_version super = PERSIST_VERSION_AOS1 then
             (case persist_load_v1 p1 (ramfs_clear_user fs) (sup_file_count super) of (p2, fs2, rc2) \<Rightarrow>
                if rc2 \<noteq> 0 then (p2, fs2, rc2)
                else (case persist_migrate buf p2 fs2 of (p3, rc3) \<Rightarrow> (p3, fs2, rc3)))
           else if sup_version super = PERSIST_VERSION_AOS2 then
             (case persist_load_v2 p1 (ramfs_clear_user fs) (sup_file_count super) (sup_checksum super) of
                (p2, fs2, rc2) \<Rightarrow> (p2, fs2, rc2))
           else (p1, fs, EIO)))"

declare persist_read_file_data.simps [simp del] persist_write_file_data.simps [simp del]
  sync_loop.simps [simp del]

section \<open>Encodings\<close>

lemma length_enc32 [simp]: "length (enc32 w) = 4"
  by (simp add: enc32_def)

lemma bytes_of_nat:
  fixes n :: nat
  shows "n mod 256 + 256 * (n div 256 mod 256) + 65536 * (n div 65536 mod 256)
    + 16777216 * (n div 16777216) = n"
proof -
  have d: "n div 65536 = n div 256 div 256" "n div 16777216 = n div 65536 div 256"
    by (simp_all add: div_mult2_eq [symmetric])
  have "n = n mod 256 + 256 * (n div 256)" "n div 256 = n div 256 mod 256 + 256 * (n div 65536)"
    "n div 65536 = n div 65536 mod 256 + 256 * (n div 16777216)"
    unfolding d by simp_all
  then show ?thesis by linarith
qed

lemma le_enc32: "le32 (enc32 w @ rest) = unat w"
proof -
  have "unat w < 2 ^ LENGTH(32)" by (rule unsigned_less)
  then have "unat w div 16777216 < 256" by simp
  with bytes_of_nat [of "unat w"] show ?thesis
    by (simp only: le32_def enc32_def list.map append_Cons nth_Cons_0 nth_Cons_numeral nth_Cons_Suc
        One_nat_def numeral_2_eq_2 numeral_3_eq_3) simp
qed

lemma dec_enc32 [simp]: "dec32 (enc32 w @ rest) = w"
  by (simp add: dec32_def le_enc32)

lemma dec_enc_super [simp]: "dec_super (pad_to n (enc_super s)) = s"
  by (simp add: dec_super_def enc_super_def pad_to_def drop_append)

lemma dec_enc_meta [simp]:
  "length (meta_path m) = RAMFS_PATH_MAX \<Longrightarrow> dec_meta (pad_to n (enc_meta m)) = m"
  by (simp add: dec_meta_def enc_meta_def pad_to_def drop_append)

section \<open>Sector access\<close>

abbreviation sects :: "persist \<Rightarrow> nat \<Rightarrow> string" where "sects p \<equiv> get_sector (blk p)"

definition persist_up :: "persist \<Rightarrow> bool" where
  "persist_up p \<longleftrightarrow> blk_ok p \<and> blk_sound (blk p)"

definition same_dev :: "persist \<Rightarrow> persist \<Rightarrow> bool" where
  "same_dev p q \<longleftrightarrow> persist_up q \<and> io_oob q = io_oob p"

lemma rd_sector_ok:
  assumes "persist_up p"
  obtains p1 where "rd_sector p s = (p1, 0, sects p s)" "same_dev p p1" "sects p1 = sects p"
  using vblk.rd_okE [of "blk p" s] assms
  by (force simp: rd_sector_def persist_up_def same_dev_def)

lemma wr_sector_ok:
  assumes "persist_up p" "length d \<le> 512"
  obtains p1 where "wr_sector p s d = (p1, 0)" "same_dev p p1" "sects p1 = (sects p)(s := pad_to 512 d)"
proof -
  obtain b1 where "virtio_blk_write_sector (blk p) s (pad_to 512 d) = (b1, 0)" "blk_sound b1"
    "get_sector b1 = (sects p)(s := pad_to 512 d)"
    using vblk.wr_okE [of "blk p" "pad_to 512 d" s] assms by (auto simp: persist_up_def)
  with assms(1) that [of "p\<lparr>blk := b1\<rparr>"] show thesis
    by (simp add: wr_sector_def persist_up_def same_dev_def)
qed

lemma same_dev_trans: "same_dev p q \<Longrightarrow> same_dev q r \<Longrightarrow> same_dev p r"
  by (simp add: same_dev_def)

lemma same_dev_up: "same_dev p q \<Longrightarrow> persist_up q"
  by (simp add: same_dev_def)

section \<open>Disk images\<close>

function data_at :: "(nat \<Rightarrow> string) \<Rightarrow> nat \<Rightarrow> string \<Rightarrow> bool" where
  "data_at d s c =
     (if c = [] then True else d s = pad_to 512 (take 512 c) \<and> data_at d (s + 1) (drop 512 c))"
  by pat_completeness auto
termination
  by (relation "measure (\<lambda>(d, s, c). length c)") auto

declare data_at.simps [simp del]

definition meta_holds :: "string \<Rightarrow> string \<Rightarrow> string \<Rightarrow> bool" where
  "meta_holds sec p c \<longleftrightarrow>
     cstr (meta_path (dec_meta sec) @ enc32 (meta_size (dec_meta sec))) = p \<and>
     meta_size (dec_meta sec) = of_nat (length c) \<and> meta_crc32 (dec_meta sec) = persist_crc32 c"

fun holds :: "(nat \<Rightarrow> string) \<Rightarrow> nat \<Rightarrow> (string \<times> string) list \<Rightarrow> bool" where
  "holds d s [] = True"
| "holds d s ((p, c) # es) =
     (meta_holds (d s) p c \<and> data_at d (s + 1) c \<and>
      holds d (s + 1 + persist_file_sectors (length c)) es)"

definition roll :: "u32 \<Rightarrow> (string \<times> string) list \<Rightarrow> u32" where
  "roll r es = foldl (\<lambda>r (p, c). r XOR persist_crc32 c XOR of_nat (length c)) r es"

lemma file_sectors_drop: "c \<noteq> [] \<Longrightarrow>
    persist_file_sectors (length c) = Suc (persist_file_sectors (length c - 512))"
proof -
  assume "c \<noteq> []"
  then have n: "0 < length c" by simp
  show ?thesis
  proof (cases "length c \<le> 512")
    case True
    then have "length c + 511 = (length c - 1) + 512" "length c - 1 < 512" using n by auto
    then have "(length c + 511) div 512 = Suc 0" by (metis div_add_self2 div_less One_nat_def
        Suc_eq_plus1 zero_neq_numeral)
    with True show ?thesis by (simp add: persist_file_sectors_def)
  next
    case False
    then have "length c + 511 = (length c - 512 + 511) + 512" by simp
    then have "(length c + 511) div 512 = Suc ((length c - 512 + 511) div 512)"
      by (simp only: div_add_self2 [of 512] Suc_eq_plus1)
    then show ?thesis by (simp add: persist_file_sectors_def add.commute)
  qed
qed

lemma data_at_cong:
  "(\<And>t. s \<le> t \<Longrightarrow> t < s + persist_file_sectors (length c) \<Longrightarrow> d t = d' t) \<Longrightarrow> data_at d s c = data_at d' s c"
proof (induction d s c rule: data_at.induct)
  case (1 d s c)
  show ?case
  proof (cases "c = []")
    case False
    have "data_at d (s + 1) (drop 512 c) = data_at d' (s + 1) (drop 512 c)"
      using False file_sectors_drop [OF False] by (intro 1) auto
    moreover have "d s = d' s" using 1(2) [of s] file_sectors_drop [OF False] by simp
    ultimately show ?thesis by (simp add: data_at.simps [of _ s c])
  qed (simp add: data_at.simps)
qed

lemma holds_cong: "(\<And>t. s \<le> t \<Longrightarrow> d t = d' t) \<Longrightarrow> holds d s es = holds d' s es"
proof (induction es arbitrary: s)
  case (Cons e es)
  obtain p c where e: "e = (p, c)" by (cases e)
  have "data_at d (s + 1) c = data_at d' (s + 1) c" by (rule data_at_cong) (use Cons.prems in simp)
  moreover have "holds d (s + 1 + persist_file_sectors (length c)) es
      = holds d' (s + 1 + persist_file_sectors (length c)) es"
    by (rule Cons.IH) (use Cons.prems in simp)
  ultimately show ?case using Cons.prems [of s] e by simp
qed simp

lemma write_file_data_ok:
  assumes "persist_up p"
  obtains p1 where "persist_write_file_data p s c = (p1, 0)" "same_dev p p1"
    "data_at (sects p1) s c" "\<And>t. t < s \<Longrightarrow> sects p1 t = sects p t"
proof -
  have "\<exists>p1. persist_write_file_data p s c = (p1, 0) \<and> same_dev p p1 \<and>
      data_at (sects p1) s c \<and> (\<forall>t < s. sects p1 t = sects p t)"
    using assms
  proof (induction p s c rule: persist_write_file_data.induct)
    case (1 p s c)
    show ?case
    proof (cases "c = []")
      case False
      obtain p1 where p1: "wr_sector p s (take 512 c) = (p1, 0)" "same_dev p p1"
          "sects p1 = (sects p)(s := pad_to 512 (take 512 c))"
        using wr_sector_ok [OF \<open>persist_up p\<close>, of "take 512 c" s] by auto
      obtain p2 where p2: "persist_write_file_data p1 (s + 1) (drop 512 c) = (p2, 0)" "same_dev p1 p2"
          "data_at (sects p2) (s + 1) (drop 512 c)" "\<And>t. t < s + 1 \<Longrightarrow> sects p2 t = sects p1 t"
        using 1(1) [OF False p1(1) [symmetric]] same_dev_up [OF p1(2)] by auto
      have "persist_write_file_data p s c = (p2, 0)"
        using False p1(1) p2(1) by (subst persist_write_file_data.simps) simp
      moreover have "data_at (sects p2) s c"
        using p1(3) p2(3) p2(4) [of s] by (subst data_at.simps) simp
      moreover have "sects p2 t = sects p t" if "t < s" for t using p1(3) p2(4) [of t] that by simp
      ultimately show ?thesis using same_dev_trans [OF p1(2) p2(2)] by blast
    qed (use 1(2) in \<open>simp add: persist_write_file_data.simps data_at.simps same_dev_def\<close>)
  qed
  with that show thesis by blast
qed

lemma take_pad: "take (min (length c) 512) (pad_to 512 (take 512 c)) = take 512 c"
  by (simp add: pad_to_def min_def)

lemma read_file_data_ok:
  assumes "persist_up p" "data_at (sects p) s c"
  obtains p1 where "persist_read_file_data p s (length c) = (p1, 0, c)" "same_dev p p1"
    "sects p1 = sects p"
proof -
  have "\<exists>p1. persist_read_file_data p s (length c) = (p1, 0, c) \<and> same_dev p p1 \<and> sects p1 = sects p"
    using assms
  proof (induction "length c" arbitrary: p s c rule: less_induct)
    case less
    show ?case
    proof (cases "c = []")
      case False
      obtain p1 where p1: "rd_sector p s = (p1, 0, sects p s)" "same_dev p p1" "sects p1 = sects p"
        using rd_sector_ok [OF less.prems(1)] .
      have d: "sects p s = pad_to 512 (take 512 c)" "data_at (sects p) (s + 1) (drop 512 c)"
        using less.prems(2) False by (simp_all add: data_at.simps [of _ s c])
      obtain p2 where p2: "persist_read_file_data p1 (s + 1) (length (drop 512 c)) = (p2, 0, drop 512 c)"
          "same_dev p1 p2" "sects p2 = sects p1"
        using less.hyps [of "drop 512 c" p1 "s + 1"] False d(2) p1 same_dev_up by fastforce
      have "persist_read_file_data p s (length c) = (p2, 0, c)"
        using False p1(1) p2(1) d(1) take_pad [of c] by (subst persist_read_file_data.simps) simp
      with p1 p2 same_dev_trans show ?thesis by metis
    qed (use less.prems in \<open>simp add: persist_read_file_data.simps same_dev_def\<close>)
  qed
  with that show thesis by blast
qed

section \<open>Saving\<close>

definition entries :: "ramfs \<Rightarrow> (string \<times> string) list" where
  "entries fs = map (\<lambda>f. (fpath f, fcontents f)) (user_files fs)"

definition names_ok :: "ramfs \<Rightarrow> bool" where
  "names_ok fs \<longleftrightarrow> (\<forall>f \<in> set (user_files fs). NUL \<notin> set (fpath f))"

lemma length_entries [simp]: "length (entries fs) = length (user_files fs)"
  by (simp add: entries_def)

lemma user_file_bounds:
  assumes "ramfs_inv fs" "f \<in> set (user_files fs)"
  shows "path_fits (fpath f)" "fsize f < 8192"
proof -
  obtain i where "i < length (files fs)" "files fs ! i = f" "fused f"
    using assms(2) by (auto simp: user_files_def in_set_conv_nth)
  with assms(1) show "path_fits (fpath f)" "fsize f < 8192" by (auto simp: ramfs_inv_def)
qed

lemma user_get_entry:
  assumes "ramfs_inv fs" "idx < length (user_files fs)" "entries fs ! idx = (q, c)"
  shows "ramfs_user_get fs idx 8192 = (int (length c), q, c)" "length c < 8192" "path_fits q"
proof -
  let ?f = "user_files fs ! idx"
  have f: "?f \<in> set (user_files fs)" using assms(2) by simp
  have e: "q = fpath ?f" "c = fcontents ?f" using assms(2,3) by (simp_all add: entries_def)
  show "length c < 8192" "path_fits q" using user_file_bounds [OF assms(1) f] e by simp_all
  then show "ramfs_user_get fs idx 8192 = (int (length c), q, c)"
    using assms(2) e by (simp add: ramfs_user_get_def Let_def)
qed

lemma meta_holds_encoded:
  assumes "NUL \<notin> set q" "path_fits q" "length buf = 64" "length c < 8192"
  shows "meta_holds (pad_to 512 (enc_meta \<lparr>meta_path = copy_prefix (q @ [NUL]) buf,
    meta_size = of_nat (length c), meta_crc32 = persist_crc32 c\<rparr>)) q c"
proof -
  have "length (copy_prefix (q @ [NUL]) buf) = 64"
    using assms(2,3) by (simp add: path_fits_def copy_prefix_def)
  moreover have "cstr (copy_prefix (q @ [NUL]) buf @ x) = q" for x
    using cstr_append_NUL [OF assms(1), of "drop (Suc (length q)) buf @ x"] by (simp add: copy_prefix_def)
  ultimately show ?thesis by (simp add: meta_holds_def)
qed

lemma enc_meta_length: "length (meta_path m) = 64 \<Longrightarrow> length (enc_meta m) \<le> 512"
  by (simp add: enc_meta_def)

lemma sync_step:
  assumes "persist_up p" "ramfs_inv fs" "length buf = 64" "idx < length (user_files fs)"
    "entries fs ! idx = (q, c)" "NUL \<notin> set q"
  obtains p1 where "same_dev p p1" "meta_holds (sects p1 s) q c" "data_at (sects p1) (s + 1) c"
    "\<And>t. t < s \<Longrightarrow> sects p1 t = sects p t"
    "sync_loop p fs buf idx (length (user_files fs)) s r =
       sync_loop p1 fs (copy_prefix (q @ [NUL]) buf) (idx + 1) (length (user_files fs))
         (s + 1 + persist_file_sectors (length c)) (r XOR persist_crc32 c XOR of_nat (length c))"
proof -
  note g = user_get_entry [OF assms(2,4,5)]
  let ?b = "copy_prefix (q @ [NUL]) buf"
  let ?m = "\<lparr>meta_path = ?b, meta_size = of_nat (length c), meta_crc32 = persist_crc32 c\<rparr>"
  have "length ?b = 64" using g(3) assms(3) by (simp add: path_fits_def copy_prefix_def)
  then obtain p1 where p1: "persist_write_meta p s ?m = (p1, 0)" "same_dev p p1"
      "sects p1 = (sects p)(s := pad_to 512 (enc_meta ?m))"
    using wr_sector_ok [OF assms(1) enc_meta_length, of ?m s] by (auto simp: persist_write_meta_def)
  obtain p2 where p2: "persist_write_file_data p1 (s + 1) c = (p2, 0)" "same_dev p1 p2"
      "data_at (sects p2) (s + 1) c" "\<And>t. t < s + 1 \<Longrightarrow> sects p2 t = sects p1 t"
    using write_file_data_ok [OF same_dev_up [OF p1(2)]] by blast
  show thesis
  proof (rule that [OF same_dev_trans [OF p1(2) p2(2)]])
    show "meta_holds (sects p2 s) q c"
      using meta_holds_encoded [OF assms(6) g(3) assms(3) g(2)] p1(3) p2(4) [of s] by simp
    show "sects p2 t = sects p t" if "t < s" for t using p1(3) p2(4) [of t] that by simp
    show "sync_loop p fs buf idx (length (user_files fs)) s r =
       sync_loop p2 fs ?b (idx + 1) (length (user_files fs))
         (s + 1 + persist_file_sectors (length c)) (r XOR persist_crc32 c XOR of_nat (length c))"
      using assms(4) g(1) p1(1) p2(1) by (subst sync_loop.simps) (simp add: Let_def)
  qed (rule p2(3))
qed

lemma sync_loop_ok:
  assumes "ramfs_inv fs" "names_ok fs"
  shows "persist_up p \<Longrightarrow> length buf = 64 \<Longrightarrow> idx \<le> length (user_files fs) \<Longrightarrow>
    \<exists>p1. sync_loop p fs buf idx (length (user_files fs)) s r = (p1, 0, roll r (drop idx (entries fs))) \<and>
      same_dev p p1 \<and> holds (sects p1) s (drop idx (entries fs)) \<and> (\<forall>t < s. sects p1 t = sects p t)"
proof (induction "length (user_files fs) - idx" arbitrary: p buf idx s r rule: less_induct)
  case less
  show ?case
  proof (cases "idx < length (user_files fs)")
    case True
    obtain q c where e: "entries fs ! idx = (q, c)" by (cases "entries fs ! idx")
    then have d: "drop idx (entries fs) = (q, c) # drop (idx + 1) (entries fs)"
      using True by (simp add: Cons_nth_drop_Suc [symmetric])
    have n: "NUL \<notin> set q" using assms(2) True e by (auto simp: names_ok_def entries_def)
    have b: "length (copy_prefix (q @ [NUL]) buf) = 64"
      using user_get_entry(3) [OF assms(1) True e] less.prems(2) by (simp add: path_fits_def copy_prefix_def)
    have lt: "length (user_files fs) - (idx + 1) < length (user_files fs) - idx" using True by simp
    let ?s = "s + 1 + persist_file_sectors (length c)"
    let ?r = "r XOR persist_crc32 c XOR of_nat (length c)"
    obtain p1 where p1: "same_dev p p1" "meta_holds (sects p1 s) q c" "data_at (sects p1) (s + 1) c"
      "\<And>t. t < s \<Longrightarrow> sects p1 t = sects p t"
      "sync_loop p fs buf idx (length (user_files fs)) s r =
        sync_loop p1 fs (copy_prefix (q @ [NUL]) buf) (idx + 1) (length (user_files fs)) ?s ?r"
      using sync_step [OF less.prems(1) assms(1) less.prems(2) True e n, of s r] by blast
    obtain p2 where p2: "sync_loop p1 fs (copy_prefix (q @ [NUL]) buf) (idx + 1) (length (user_files fs)) ?s ?r =
        (p2, 0, roll ?r (drop (idx + 1) (entries fs)))" "same_dev p1 p2"
        "holds (sects p2) ?s (drop (idx + 1) (entries fs))" "\<And>t. t < ?s \<Longrightarrow> sects p2 t = sects p1 t"
      using less.hyps [OF lt same_dev_up [OF p1(1)] b, of ?s ?r] True by (metis Suc_eq_plus1 Suc_leI)
    have "data_at (sects p2) (s + 1) c"
      using p1(3) data_at_cong [of "s + 1" c "sects p2" "sects p1"] p2(4) by simp
    then have "holds (sects p2) s (drop idx (entries fs))" using p1(2) p2(3) p2(4) [of s] d by simp
    moreover have "roll r (drop idx (entries fs)) = roll ?r (drop (idx + 1) (entries fs))"
      by (simp add: d roll_def)
    moreover have "sects p2 t = sects p t" if "t < s" for t using p1(4) [OF that] p2(4) [of t] that by simp
    ultimately show ?thesis using p1(5) p2(1) same_dev_trans [OF p1(1) p2(2)] by auto
  qed (use less.prems in \<open>simp add: sync_loop.simps roll_def same_dev_def\<close>)
qed

section \<open>Loading\<close>

lemma load_file_ok:
  assumes "persist_up p" "meta_holds (sects p s) q c" "data_at (sects p) (s + 1) c"
    "0 < length c" "length c < 8192"
  obtains p1 m where "same_dev p p1" "sects p1 = sects p"
    "meta_size m = of_nat (length c)" "meta_crc32 m = persist_crc32 c"
    "persist_load_file p fs s True = (p1, fst (ramfs_put fs q c (int (length c))),
       if snd (ramfs_put fs q c (int (length c))) \<noteq> 0 then EIO else 0, m)"
proof -
  obtain p1 where p1: "rd_sector p s = (p1, 0, sects p s)" "same_dev p p1" "sects p1 = sects p"
    using rd_sector_ok [OF assms(1)] .
  obtain p2 where p2: "persist_read_file_data p1 (s + 1) (length c) = (p2, 0, c)" "same_dev p1 p2"
      "sects p2 = sects p1"
    using read_file_data_ok [OF same_dev_up [OF p1(2)], of "s + 1" c] assms(3) p1(3) by auto
  let ?m = "dec_meta (sects p s)"
  have m: "meta_size ?m = of_nat (length c)" "meta_crc32 ?m = persist_crc32 c"
      "cstr (meta_path ?m @ enc32 (meta_size ?m)) = q"
    using assms(2) unfolding meta_holds_def by blast+
  have u: "unat (of_nat (length c) :: u32) = length c" using assms(5) by (simp add: unat_of_nat)
  then have i: "uint (of_nat (length c) :: u32) = int (length c)" by (metis of_nat_unat)
  have sz: "(of_nat (length c) :: u32) \<noteq> 0" "\<not> (of_nat (length c) :: u32) > 8192"
      "(of_nat (length c) :: u32) \<noteq> 8192"
    using assms(4,5) u by (auto simp: word_less_nat_alt word_unat_eq_iff)
  have "persist_load_file p fs s True = (p2\<lparr>io_oob := io_oob p2\<rparr>, fst (ramfs_put fs q c (int (length c))),
      if snd (ramfs_put fs q c (int (length c))) \<noteq> 0 then EIO else 0, ?m)"
    using p1(1) p2(1) m(1,2) m(3) [unfolded m(1)] sz u i
    by (simp add: persist_load_file_def persist_read_meta_def Let_def case_prod_unfold)
  with m p1 p2 that [of p2 ?m] same_dev_trans show thesis by simp
qed

lemma card_dom_upd:
  assumes "finite (dom m)"
  shows "card (dom (m(k \<mapsto> v))) \<le> Suc (card (dom m))"
  using assms by (simp add: card_insert_if)

lemma finite_dom_fs: "finite (dom (fs_map fs))"
proof -
  have "dom (fs_map fs) \<subseteq> (\<lambda>f. fpath f) ` set (files fs)"
    by (force simp: fs_map_def ramfs_find_def dest: find_idx_SomeD)
  then show ?thesis by (rule finite_subset) simp
qed

definition entry_ok :: "string \<times> string \<Rightarrow> bool" where
  "entry_ok e \<longleftrightarrow> path_fits (fst e) \<and> snd e \<noteq> [] \<and> length (snd e) < 8192"

definition restore :: "(string \<rightharpoonup> string) \<Rightarrow> (string \<times> string) list \<Rightarrow> (string \<rightharpoonup> string)" where
  "restore m es = foldl (\<lambda>m (q, c). m(q \<mapsto> c)) m es"

lemma load_v2_ok:
  "persist_up p \<Longrightarrow> ramfs_inv fs \<Longrightarrow> holds (sects p) s es \<Longrightarrow> \<forall>e \<in> set es. entry_ok e \<Longrightarrow>
   card (dom (fs_map fs)) + length es \<le> 64 \<Longrightarrow>
   \<exists>p1 fs1. load_v2_loop p fs (length es) s r = (p1, fs1, 0, roll r es) \<and> same_dev p p1 \<and>
     ramfs_inv fs1 \<and> fs_map fs1 = restore (fs_map fs) es"
proof (induction es arbitrary: p fs s r)
  case Nil
  then show ?case by (simp add: roll_def restore_def same_dev_def)
next
  case (Cons e es)
  obtain q c where e: "e = (q, c)" by (cases e)
  have ok: "path_fits q" "0 < length c" "length c < 8192" using Cons.prems(4) e by (auto simp: entry_ok_def)
  have room: "has_room fs q" using Cons.prems(2,5) by (intro has_room_map) auto
  have put: "snd (ramfs_put fs q c (int (length c))) = 0" "ramfs_inv (fst (ramfs_put fs q c (int (length c))))"
      "fs_map (fst (ramfs_put fs q c (int (length c)))) = (fs_map fs)(q \<mapsto> c)"
    using rfs.put_ok [OF Cons.prems(2) ok(1) room, of "int (length c)" c] ok by simp_all
  let ?fs = "fst (ramfs_put fs q c (int (length c)))"
  let ?s = "s + 1 + persist_file_sectors (length c)"
  let ?r = "r XOR persist_crc32 c XOR of_nat (length c)"
  obtain p1 m where p1: "same_dev p p1" "sects p1 = sects p"
      "meta_size m = of_nat (length c)" "meta_crc32 m = persist_crc32 c"
      "persist_load_file p fs s True = (p1, ?fs, 0, m)"
    using load_file_ok [OF Cons.prems(1) _ _ ok(2,3), of s q fs] Cons.prems(3) e put(1) by auto
  have u: "unat (of_nat (length c) :: u32) = length c" using ok(3) by (simp add: unat_of_nat)
  have "card (dom (fs_map ?fs)) + length es \<le> 64"
    using card_dom_upd [OF finite_dom_fs, of fs q c] Cons.prems(5) by (simp add: put(3))
  then obtain p2 fs2 where "load_v2_loop p1 ?fs (length es) ?s ?r = (p2, fs2, 0, roll ?r es)"
      "same_dev p1 p2" "ramfs_inv fs2" "fs_map fs2 = restore (fs_map ?fs) es"
    using Cons.IH [OF same_dev_up [OF p1(1)] put(2), of ?s ?r] Cons.prems(3,4) e p1(2) by auto
  then show ?case
    using p1 u e put(3) same_dev_trans [OF p1(1)] by (simp add: roll_def restore_def)
qed

lemma load_v2_empty:
  "persist_up p \<Longrightarrow> holds (sects p) s es \<Longrightarrow> \<forall>e \<in> set es. length (snd e) < 8192 \<Longrightarrow>
   [] \<in> snd ` set es \<Longrightarrow> fst (snd (snd (load_v2_loop p fs (length es) s r))) = EIO"
proof (induction es arbitrary: p fs s r)
  case (Cons e es)
  obtain q c where e: "e = (q, c)" by (cases e)
  show ?case
  proof (cases "c = []")
    case True
    obtain p1 where "rd_sector p s = (p1, 0, sects p s)" using rd_sector_ok [OF Cons.prems(1)] .
    moreover have "meta_size (dec_meta (sects p s)) = 0"
      using Cons.prems(2) e True by (simp add: meta_holds_def)
    ultimately show ?thesis by (simp add: persist_load_file_def persist_read_meta_def)
  next
    case False
    have c: "length c < 8192" using Cons.prems(3) e by simp
    obtain p1 m where p1: "same_dev p p1" "sects p1 = sects p" "meta_size m = of_nat (length c)"
        "persist_load_file p fs s True = (p1, fst (ramfs_put fs q c (int (length c))),
           if snd (ramfs_put fs q c (int (length c))) \<noteq> 0 then EIO else 0, m)"
      using load_file_ok [OF Cons.prems(1), of s q c fs thesis] Cons.prems(2) e False c by simp
    have u: "unat (of_nat (length c) :: u32) = length c" using c by (simp add: unat_of_nat)
    have "[] \<in> snd ` set es" using Cons.prems(4) e False by auto
    then have "fst (snd (snd (load_v2_loop p1 fs' (length es)
        (s + 1 + persist_file_sectors (length c)) r'))) = EIO" for fs' r'
      using Cons.IH [OF same_dev_up [OF p1(1)]] Cons.prems(2,3) e p1(2) by auto
    with p1 u show ?thesis by simp
  qed
qed simp

section \<open>Through the disk and back\<close>

lemma distinct_map_filter:
  "(\<And>i j. i < length xs \<Longrightarrow> j < length xs \<Longrightarrow> P (xs ! i) \<Longrightarrow> P (xs ! j) \<Longrightarrow> f (xs ! i) = f (xs ! j) \<Longrightarrow> i = j)
   \<Longrightarrow> distinct (map f (filter P xs))"
proof (induction xs)
  case (Cons a xs)
  have "distinct (map f (filter P xs))"
    by (rule Cons.IH) (use Cons.prems [of "Suc i" "Suc j" for i j] in force)
  moreover have "f a \<notin> f ` set (filter P xs)" if "P a"
    using Cons.prems [of 0 "Suc j" for j] that by (force simp: in_set_conv_nth)
  ultimately show ?case by simp
qed simp

lemma entries_distinct: "ramfs_inv fs \<Longrightarrow> distinct (map fst (entries fs))"
  unfolding entries_def user_files_def map_map comp_def fst_conv
  by (rule distinct_map_filter) (auto simp: ramfs_inv_def)

lemma entries_map:
  assumes "ramfs_inv fs"
  shows "map_of (entries fs) q = (if is_sys_path q then None else fs_map fs q)"
proof -
  have "(q, c) \<in> set (entries fs) \<longleftrightarrow> \<not> is_sys_path q \<and> fs_map fs q = Some c" for c
    using ramfs_find_iff [OF assms, of q]
    by (auto simp: entries_def user_files_def fs_map_def in_set_conv_nth)
  then have "map_of (entries fs) q = Some c \<longleftrightarrow> \<not> is_sys_path q \<and> fs_map fs q = Some c" for c
    using map_of_eq_Some_iff [OF entries_distinct [OF assms]] by metis
  then show ?thesis by (metis option.exhaust)
qed

lemma restore_distinct: "distinct (map fst es) \<Longrightarrow> restore m es = m ++ map_of es"
proof (induction es arbitrary: m)
  case (Cons e es)
  then have "restore m (e # es) = (m(fst e \<mapsto> snd e)) ++ map_of es"
    by (simp add: restore_def case_prod_unfold)
  also have "\<dots> = m ++ map_of (e # es)"
    using Cons.prems map_of_eq_None_iff [of es "fst e"]
    by (auto simp: map_add_def fun_eq_iff split: option.splits)
  finally show ?case .
qed (simp add: restore_def)

lemma persist_sync_ok:
  assumes "persist_up p" "ramfs_inv fs" "names_ok fs" "length buf = 64"
  obtains p1 where "persist_sync buf p fs = (p1, 0)" "same_dev p p1" "holds (sects p1) 1 (entries fs)"
    "dec_super (sects p1 0) = \<lparr>sup_magic = PERSIST_MAGIC, sup_version = PERSIST_VERSION_AOS2,
       sup_file_count = of_int (ramfs_user_count fs), sup_checksum = roll 0 (entries fs)\<rparr>"
proof -
  let ?n = "length (user_files fs)"
  let ?sup = "\<lparr>sup_magic = PERSIST_MAGIC, sup_version = PERSIST_VERSION_AOS2,
       sup_file_count = of_int (ramfs_user_count fs), sup_checksum = roll 0 (entries fs)\<rparr>"
  obtain p1 where p1: "sync_loop p fs buf 0 ?n 1 0 = (p1, 0, roll 0 (entries fs))" "same_dev p p1"
      "holds (sects p1) 1 (entries fs)"
    using sync_loop_ok [OF assms(2,3,1,4), of 0 1 0] by auto
  obtain p2 where p2: "persist_write_super p1 ?sup = (p2, 0)" "same_dev p1 p2"
      "sects p2 = (sects p1)(0 := pad_to 512 (enc_super ?sup))"
    using wr_sector_ok [OF same_dev_up [OF p1(2)], of "enc_super ?sup" 0]
    by (auto simp: persist_write_super_def enc_super_def)
  show thesis
  proof (rule that [of p2])
    show "persist_sync buf p fs = (p2, 0)"
      using assms(1) p1(1) p2(1) by (simp add: persist_sync_def persist_up_def ramfs_user_count_def)
    show "same_dev p p2" using same_dev_trans [OF p1(2) p2(2)] .
    show "holds (sects p2) 1 (entries fs)" using p1(3) p2(3) holds_cong [of 1 "sects p2" "sects p1"] by simp
    show "dec_super (sects p2 0) = ?sup" by (simp add: p2(3))
  qed
qed

lemma user_count_word:
  assumes "ramfs_inv fs"
  shows "nat (wrap32 (uint (of_int (ramfs_user_count fs) :: u32))) = length (entries fs)"
proof -
  have "length (user_files fs) \<le> 64"
    using assms length_filter_le [of "\<lambda>f. fused f \<and> \<not> is_sys_path (fpath f)" "files fs"]
    by (simp add: user_files_def ramfs_inv_def)
  then have "uint (of_int (ramfs_user_count fs) :: u32) = int (length (user_files fs))"
    by (simp add: ramfs_user_count_def unsigned_of_nat take_bit_eq_mod)
  with \<open>length (user_files fs) \<le> 64\<close> show ?thesis by simp
qed

lemma persist_load_aos2:
  assumes "persist_up p" "ramfs_inv fs"
    "dec_super (sects p 0) = \<lparr>sup_magic = PERSIST_MAGIC, sup_version = PERSIST_VERSION_AOS2,
       sup_file_count = of_int (ramfs_user_count fs), sup_checksum = chk\<rparr>"
  obtains p1 where "same_dev p p1" "sects p1 = sects p"
    "persist_load buf p fs1 =
      (case load_v2_loop p1 (ramfs_clear_user fs1) (length (entries fs)) 1 0 of (p2, fs2, rc, rolling) \<Rightarrow>
         (p2, fs2, if rc \<noteq> 0 \<or> rolling \<noteq> chk then EIO else 0))"
proof -
  obtain p1 where "rd_sector p 0 = (p1, 0, sects p 0)" "same_dev p p1" "sects p1 = sects p"
    using rd_sector_ok [OF assms(1)] .
  with that [of p1] assms(1,3) user_count_word [OF assms(2)] show thesis
    by (simp add: persist_load_def persist_read_super_def persist_load_v2_def persist_up_def
        split: prod.splits)
qed

definition user_part :: "(string \<rightharpoonup> string) \<Rightarrow> (string \<rightharpoonup> string)" where
  "user_part m = (\<lambda>q. if is_sys_path q then None else m q)"

definition sys_part :: "(string \<rightharpoonup> string) \<Rightarrow> (string \<rightharpoonup> string)" where
  "sys_part m = (\<lambda>q. if is_sys_path q then m q else None)"

text \<open>C20: Files survive a restart.  When the device completes every request, \<open>persist_sync\<close> followed by
  \<open>persist_load\<close> into any file system returns 0 twice, and the result holds exactly the saved user
  files and the system files that were there before the load, provided no saved user file is empty and
  both together fit the table.  The initial content of the path buffer does not matter, and the load
  stores nothing outside its buffer.\<close>

theorem persist_round_trip:
  assumes "blk_ok p" "blk_sound (blk p)" "ramfs_inv fs" "ramfs_inv fs'" "length buf = 64"
    "\<forall>q c. fs_map fs q = Some c \<and> \<not> is_sys_path q \<longrightarrow> c \<noteq> [] \<and> NUL \<notin> set q"
    "card (dom (user_part (fs_map fs))) + card (dom (sys_part (fs_map fs'))) \<le> RAMFS_MAX_FILES"
  shows "case persist_sync buf p fs of (p1, rc) \<Rightarrow> case persist_load buf' p1 fs' of (p2, fs2, rc') \<Rightarrow>
    rc = 0 \<and> rc' = 0 \<and> ramfs_inv fs2 \<and> io_oob p2 = io_oob p \<and>
    fs_map fs2 = sys_part (fs_map fs') ++ user_part (fs_map fs)"
proof -
  have ent: "(q, c) \<in> set (entries fs) \<Longrightarrow> \<not> is_sys_path q \<and> fs_map fs q = Some c" for q c
    using map_of_is_SomeI [OF entries_distinct [OF assms(3)]] entries_map [OF assms(3), of q]
    by (auto split: if_splits)
  have up: "persist_up p" using assms(1,2) by (simp add: persist_up_def)
  have names: "names_ok fs" using ent assms(6) by (fastforce simp: names_ok_def entries_def)
  have ok: "\<forall>e \<in> set (entries fs). entry_ok e"
    using ent assms(6) fs_map_size [OF assms(3)] fs_map_fits [OF assms(3)] by (fastforce simp: entry_ok_def)
  have um: "map_of (entries fs) = user_part (fs_map fs)"
    using entries_map [OF assms(3)] by (simp add: user_part_def fun_eq_iff)
  have sm: "fs_map (ramfs_clear_user fs') = sys_part (fs_map fs')"
    using ramfs_clear_user_map [OF assms(4)] by (simp add: sys_part_def fun_eq_iff)
  have "card (dom (user_part (fs_map fs))) = length (entries fs)"
    using distinct_card [OF entries_distinct [OF assms(3)]] um [symmetric] by (simp add: dom_map_of_conv_image_fst)
  then have room: "card (dom (fs_map (ramfs_clear_user fs'))) + length (entries fs) \<le> 64"
    using assms(7) by (simp add: sm)
  obtain p1 where p1: "persist_sync buf p fs = (p1, 0)" "same_dev p p1" "holds (sects p1) 1 (entries fs)"
      "dec_super (sects p1 0) = \<lparr>sup_magic = PERSIST_MAGIC, sup_version = PERSIST_VERSION_AOS2,
        sup_file_count = of_int (ramfs_user_count fs), sup_checksum = roll 0 (entries fs)\<rparr>"
    using persist_sync_ok [OF up assms(3) names assms(5)] .
  obtain p2 where p2: "same_dev p1 p2" "sects p2 = sects p1"
      "persist_load buf' p1 fs' =
       (case load_v2_loop p2 (ramfs_clear_user fs') (length (entries fs)) 1 0 of (p3, fs2, rc, rolling) \<Rightarrow>
         (p3, fs2, if rc \<noteq> 0 \<or> rolling \<noteq> roll 0 (entries fs) then EIO else 0))"
    using persist_load_aos2 [OF same_dev_up [OF p1(2)] assms(3) p1(4)] .
  obtain p3 fs2 where "load_v2_loop p2 (ramfs_clear_user fs') (length (entries fs)) 1 0 =
      (p3, fs2, 0, roll 0 (entries fs))" "same_dev p2 p3" "ramfs_inv fs2"
      "fs_map fs2 = restore (fs_map (ramfs_clear_user fs')) (entries fs)"
    using load_v2_ok [OF same_dev_up [OF p2(1)] ramfs_clear_user_inv [OF assms(4)] _ ok room, of 1 0]
      p1(3) p2(2) by metis
  then show ?thesis
    using p1(1,2) p2 restore_distinct [OF entries_distinct [OF assms(3)]] sm um by (simp add: same_dev_def)
qed

definition demo_persist :: persist where
  "demo_persist = \<lparr>blk_ok = True,
     blk = \<lparr>blk_ready = True, medium = (\<lambda>_ _. NUL), reply = (\<lambda>_. Blk_done), requests = 0\<rparr>,
     io_oob = False\<rparr>"

definition demo_fs :: "string \<Rightarrow> ramfs" where
  "demo_fs c = blank_fs\<lparr>files := (files blank_fs)[0 := blank_file\<lparr>fpath := ''/notes'', fused := True,
     fdata := nth c, fsize := length c\<rparr>]\<rparr>"

lemma demo_persist_up [simp]: "blk_ok demo_persist" "blk_sound (blk demo_persist)" "io_oob demo_persist = False"
  by (simp_all add: demo_persist_def blk_sound_def)

lemma demo_fs_inv [simp]: "length c < 8192 \<Longrightarrow> ramfs_inv (demo_fs c)"
  by (auto simp: ramfs_inv_def demo_fs_def blank_fs_def blank_file_def nth_list_update path_fits_def)

lemma demo_fs_map [simp]: "length c < 8192 \<Longrightarrow> fs_map (demo_fs c) = [''/notes'' \<mapsto> c]"
proof
  fix q
  assume "length c < 8192"
  have "fs_map (demo_fs c) ''/notes'' = Some c"
    by (simp add: fs_map_def ramfs_find_def demo_fs_def blank_fs_def blank_file_def fcontents_def map_nth
        numeral_eq_Suc)
  moreover have "fs_map (demo_fs c) q = None" if "q \<noteq> ''/notes''"
    using that by (auto simp: fs_map_def ramfs_find_None_iff demo_fs_def blank_fs_def blank_file_def nth_list_update)
  ultimately show "fs_map (demo_fs c) q = [''/notes'' \<mapsto> c] q" by auto
qed

lemma demo_parts [simp]:
  "user_part [''/notes'' \<mapsto> c] = [''/notes'' \<mapsto> c]" "sys_part Map.empty = Map.empty"
  by (auto simp: user_part_def sys_part_def is_sys_path_def fun_eq_iff)

theorem persist_round_trip_witness:
  "case persist_sync (replicate 64 CHR ''x'') demo_persist (demo_fs ''hello'') of (p1, rc) \<Rightarrow>
   case persist_load [] p1 blank_fs of (p2, fs2, rc') \<Rightarrow>
     rc = 0 \<and> rc' = 0 \<and> ramfs_inv fs2 \<and> io_oob p2 = io_oob demo_persist \<and>
     fs_map fs2 = [''/notes'' \<mapsto> ''hello'']"
  using persist_round_trip [of demo_persist "demo_fs ''hello''" blank_fs "replicate 64 CHR ''x''" "[]"]
  by (simp split: if_splits)

text \<open>An empty file makes the next start fail.  When some user file is empty at the time of
  \<open>persist_sync\<close>, the sync still returns 0, and the following \<open>persist_load\<close> returns \<open>EIO\<close>: the
  size test of the load rejects the entry the sync has written.\<close>

theorem persist_empty_file_lost:
  assumes "blk_ok p" "blk_sound (blk p)" "ramfs_inv fs" "length buf = 64"
    "\<forall>q c. fs_map fs q = Some c \<and> \<not> is_sys_path q \<longrightarrow> NUL \<notin> set q"
    "fs_map fs q0 = Some []" "\<not> is_sys_path q0"
  shows "case persist_sync buf p fs of (p1, rc) \<Rightarrow>
    rc = 0 \<and> snd (snd (persist_load buf' p1 fs')) = EIO"
proof -
  have ent: "(q, c) \<in> set (entries fs) \<Longrightarrow> \<not> is_sys_path q \<and> fs_map fs q = Some c" for q c
    using map_of_is_SomeI [OF entries_distinct [OF assms(3)]] entries_map [OF assms(3), of q]
    by (auto split: if_splits)
  have up: "persist_up p" using assms(1,2) by (simp add: persist_up_def)
  have names: "names_ok fs" using ent assms(5) by (fastforce simp: names_ok_def entries_def)
  have short: "\<forall>e \<in> set (entries fs). length (snd e) < 8192"
    using ent fs_map_size [OF assms(3)] by fastforce
  have "map_of (entries fs) q0 = Some []" using assms(6,7) entries_map [OF assms(3)] by simp
  then have empty: "[] \<in> snd ` set (entries fs)" by (force dest: map_of_SomeD)
  obtain p1 where p1: "persist_sync buf p fs = (p1, 0)" "same_dev p p1" "holds (sects p1) 1 (entries fs)"
      "dec_super (sects p1 0) = \<lparr>sup_magic = PERSIST_MAGIC, sup_version = PERSIST_VERSION_AOS2,
        sup_file_count = of_int (ramfs_user_count fs), sup_checksum = roll 0 (entries fs)\<rparr>"
    using persist_sync_ok [OF up assms(3) names assms(4)] .
  obtain p2 where p2: "same_dev p1 p2" "sects p2 = sects p1"
      "persist_load buf' p1 fs' =
       (case load_v2_loop p2 (ramfs_clear_user fs') (length (entries fs)) 1 0 of (p3, fs2, rc, rolling) \<Rightarrow>
         (p3, fs2, if rc \<noteq> 0 \<or> rolling \<noteq> roll 0 (entries fs) then EIO else 0))"
    using persist_load_aos2 [OF same_dev_up [OF p1(2)] assms(3) p1(4)] .
  have "fst (snd (snd (load_v2_loop p2 (ramfs_clear_user fs') (length (entries fs)) 1 0))) = EIO"
    using load_v2_empty [OF same_dev_up [OF p2(1)] _ short empty] p1(3) p2(2) by simp
  then show ?thesis using p1(1) p2(3) by (simp add: case_prod_unfold)
qed

theorem persist_empty_file_lost_witness:
  "case persist_sync (replicate 64 CHR ''x'') demo_persist (demo_fs []) of (p1, rc) \<Rightarrow>
     rc = 0 \<and> snd (snd (persist_load [] p1 blank_fs)) = EIO"
  using persist_empty_file_lost [of demo_persist "demo_fs []" "replicate 64 CHR ''x''" "''/notes''" "[]" blank_fs]
  by (simp add: is_sys_path_def split: if_splits)

end
