(* ===== verification/World.thy ===== *)
theory World
  imports Prelude
begin

text \<open>
  What the modelled kernel code sees of the network stack, the host bridge and the display and
  input devices: the answer to each request.  The fields are functions of the number of
  requests made before, so nothing relates the answers to two equal requests; only the hash function
  of the mbedtls library is a function of its input alone.  A request for
  data answers with the return code and the bytes put into the caller's buffer.  The two build
  variants select the branches that the kernel chooses by preprocessor symbols.  \<open>kernel_va\<close> is the address at
  which the kernel holds a string of its own.
\<close>

datatype http_build = Http_faux | Http_net | Http_net_no_bridge

datatype llm_build = Llm_faux | Llm_native | Llm_virtio

record world =
  w_calls :: nat
  w_http_build :: http_build
  w_llm_build :: llm_build
  netstack_ready :: bool
  net_http_get :: "nat \<Rightarrow> string \<Rightarrow> int \<times> string"
  net_http_post :: "nat \<Rightarrow> string \<Rightarrow> int \<Rightarrow> string \<Rightarrow> string \<Rightarrow> int \<times> string"
  net_https_post_port :: "nat \<Rightarrow> string \<Rightarrow> int \<Rightarrow> string \<Rightarrow> string \<Rightarrow> int \<times> string"
  net_tcp_connect_ip :: "nat \<Rightarrow> int"
  net_tcp_write :: "nat \<Rightarrow> string \<Rightarrow> int"
  net_tcp_read :: "nat \<Rightarrow> int \<times> string"
  virtio_console_init :: "nat \<Rightarrow> int"
  virtio_http_exchange :: "nat \<Rightarrow> string \<Rightarrow> int \<times> string"
  llm_deepseek_query :: "nat \<Rightarrow> int \<times> string list \<times> string"
  virtio_llm_stream :: "nat \<Rightarrow> int \<times> string list \<times> string"
  mbedtls_sha256 :: "string \<Rightarrow> string"
  virtio_gpu_ready :: bool
  virtio_gpu_flush :: "nat \<Rightarrow> int"
  virtio_input_ready :: bool
  virtio_input_poll :: "nat \<Rightarrow> int \<times> int \<times> int \<times> int"
  kernel_va :: "string \<Rightarrow> u64"

definition w_step :: "world \<Rightarrow> world" where
  "w_step w = w\<lparr>w_calls := Suc (w_calls w)\<rparr>"

text \<open>A machine without network, display or input device.\<close>

definition offline :: world where
  "offline = \<lparr>w_calls = 0, w_http_build = Http_faux, w_llm_build = Llm_faux, netstack_ready = False,
     net_http_get = (\<lambda>_ _. (- 6, [])), net_http_post = (\<lambda>_ _ _ _ _. (- 6, [])),
     net_https_post_port = (\<lambda>_ _ _ _ _. (- 6, [])), net_tcp_connect_ip = (\<lambda>_. - 6),
     net_tcp_write = (\<lambda>_ _. - 6), net_tcp_read = (\<lambda>_. (- 6, [])), virtio_console_init = (\<lambda>_. - 6),
     virtio_http_exchange = (\<lambda>_ _. (- 6, [])), llm_deepseek_query = (\<lambda>_. (- 6, [], [])),
     virtio_llm_stream = (\<lambda>_. (- 6, [], [])), mbedtls_sha256 = (\<lambda>_. replicate 32 NUL), virtio_gpu_ready = False, virtio_gpu_flush = (\<lambda>_. 0),
     virtio_input_ready = False, virtio_input_poll = (\<lambda>_. (0, 0, 0, 0)),
     kernel_va = (\<lambda>_. 0x80200000)\<rparr>"

end
