(* ===== verification/Kernel.thy ===== *)
theory Kernel
  imports Uaccess Quota Policy Session Namespace Audit_Log Tenant Persist World
begin

text \<open>
  The state of the whole kernel: the globals of \<open>kernel/agent.c\<close>, \<open>kernel/sched.c\<close> and
  \<open>kernel/smp.c\<close>, the states of the components it is built from, and its environment.

  An agent is referred to by its index in \<open>agents\<close>; \<open>cpu_current\<close> holds one such pointer per hart.
  \<open>cpu_satp\<close> is the translation register of each hart.  \<open>uart_out\<close> is what has been written to the
  console, \<open>uart_in\<close> what will be typed.  \<open>ktime\<close>, \<open>kgp\<close> are the time counter and the global pointer the
  code reads; \<open>junk_check\<close> and \<open>junk_run\<close> are the bytes that happen to lie behind the local buffers
  of the tool functions.  \<open>kbuf_oob\<close> is a ghost flag, set when a kernel buffer is overrun.
  \<open>kworld\<close> answers the requests to the network and the devices.

  Functions of the hart they run on take it as the argument \<open>h\<close>.  A system call, an interrupt and
  a turn of the scheduler loop are atomic steps; inter-processor interrupts only end a wait and are
  not part of the state.
\<close>

section \<open>Definitions\<close>

record kernel =
  agents :: "agent list"
  agent_count :: int
  cpu_current :: "nat option list"
  cpu_rq :: "int list list"
  rr_next :: nat
  kernel_sched_ready :: bool
  online_harts :: int
  hart_ticks :: "u64 list"
  cpu_satp :: "u64 list"
  kvm :: vm
  kquota :: quota
  kfs :: ramfs
  kpol :: policy
  kdisk :: persist
  uart_out :: string
  uart_in :: string
  ktime :: u64
  kgp :: u64
  junk_check :: string
  junk_run :: string
  halted :: bool
  kbuf_oob :: bool
  kworld :: world
  remote_enabled :: bool
  llm_stream_buf :: string

definition agent_at :: "kernel \<Rightarrow> nat \<Rightarrow> agent" where
  "agent_at k i = agents k ! i"

definition upd_agent :: "kernel \<Rightarrow> nat \<Rightarrow> (agent \<Rightarrow> agent) \<Rightarrow> kernel" where
  "upd_agent k i f = k\<lparr>agents := (agents k)[i := f (agents k ! i)]\<rparr>"

definition cur_idx :: "kernel \<Rightarrow> nat \<Rightarrow> nat option" where
  "cur_idx k h = (if h < SMP_MAX_HARTS then cpu_current k ! h else None)"

definition agent_current :: "kernel \<Rightarrow> nat \<Rightarrow> agent option" where
  "agent_current k h = map_option (agent_at k) (cur_idx k h)"

definition agent_set_current :: "kernel \<Rightarrow> nat \<Rightarrow> nat option \<Rightarrow> kernel" where
  "agent_set_current k h i =
     (if h < SMP_MAX_HARTS then k\<lparr>cpu_current := (cpu_current k)[h := i]\<rparr> else k)"

definition smp_online_count :: "kernel \<Rightarrow> int" where
  "smp_online_count k = online_harts k"

definition smp_hart_ticks :: "kernel \<Rightarrow> int \<Rightarrow> u64" where
  "smp_hart_ticks k hartid =
     (if hartid < 0 \<or> hartid \<ge> int SMP_MAX_HARTS then 0 else hart_ticks k ! nat hartid)"

definition vm_activate :: "kernel \<Rightarrow> nat \<Rightarrow> u64 \<Rightarrow> kernel" where
  "vm_activate k h pt = k\<lparr>cpu_satp := (cpu_satp k)[h := satp_for pt]\<rparr>"

definition agent_get :: "kernel \<Rightarrow> int \<Rightarrow> nat option" where
  "agent_get k i =
     (if i < 0 \<or> i \<ge> int MAX_AGENTS then None
      else if astate (agent_at k (nat i)) = AGENT_UNUSED then None
      else Some (nat i))"

section \<open>Well-formedness\<close>

definition kernel_wf :: "kernel \<Rightarrow> bool" where
  "kernel_wf k \<longleftrightarrow>
     length (agents k) = MAX_AGENTS \<and> length (cpu_current k) = SMP_MAX_HARTS \<and>
     length (cpu_rq k) = SMP_MAX_HARTS \<and> length (cpu_satp k) = SMP_MAX_HARTS \<and>
     (\<forall>h < SMP_MAX_HARTS. \<forall>i. cpu_current k ! h = Some i \<longrightarrow> i < MAX_AGENTS) \<and>
     (\<forall>i < MAX_AGENTS. aid (agents k ! i) = int i)"

lemma kernel_wfD:
  assumes "kernel_wf k"
  shows "length (agents k) = 12" "length (cpu_current k) = 4" "length (cpu_rq k) = 4"
    "length (cpu_satp k) = 4" "h < 4 \<Longrightarrow> cpu_current k ! h = Some i \<Longrightarrow> i < 12"
    "i < 12 \<Longrightarrow> aid (agents k ! i) = int i"
  using assms by (auto simp: kernel_wf_def)

lemma agent_at_upd [simp]:
  "i < length (agents k) \<Longrightarrow> agent_at (upd_agent k i f) j = (if j = i then f (agent_at k i) else agent_at k j)"
  by (auto simp: agent_at_def upd_agent_def)

lemma upd_agent_frame [simp]:
  "agent_count (upd_agent k i f) = agent_count k" "cpu_current (upd_agent k i f) = cpu_current k"
  "cpu_rq (upd_agent k i f) = cpu_rq k" "rr_next (upd_agent k i f) = rr_next k"
  "kernel_sched_ready (upd_agent k i f) = kernel_sched_ready k"
  "online_harts (upd_agent k i f) = online_harts k" "cpu_satp (upd_agent k i f) = cpu_satp k"
  "kvm (upd_agent k i f) = kvm k" "kquota (upd_agent k i f) = kquota k" "kfs (upd_agent k i f) = kfs k"
  "kpol (upd_agent k i f) = kpol k" "kdisk (upd_agent k i f) = kdisk k"
  "uart_out (upd_agent k i f) = uart_out k" "uart_in (upd_agent k i f) = uart_in k"
  "halted (upd_agent k i f) = halted k" "kbuf_oob (upd_agent k i f) = kbuf_oob k"
  "kworld (upd_agent k i f) = kworld k" "remote_enabled (upd_agent k i f) = remote_enabled k"
  "ktime (upd_agent k i f) = ktime k" "junk_check (upd_agent k i f) = junk_check k"
  "junk_run (upd_agent k i f) = junk_run k"
  "length (agents (upd_agent k i f)) = length (agents k)" "cur_idx (upd_agent k i f) h = cur_idx k h"
  by (simp_all add: upd_agent_def cur_idx_def)

lemma agents_upd: "agents (upd_agent k i f) = (agents k)[i := f (agents k ! i)]"
  by (simp add: upd_agent_def)

lemma kernel_wf_upd [inv_intros]:
  assumes "kernel_wf k" "\<And>a. aid (f a) = aid a"
  shows "kernel_wf (upd_agent k i f)"
proof -
  have "aid ((agents k)[i := f (agents k ! i)] ! j) = int j" if "j < 12" for j
    using assms that by (cases "j = i") (simp_all add: kernel_wf_def)
  with assms(1) show ?thesis by (simp add: kernel_wf_def agents_upd)
qed

lemma kernel_wf_fields [simp]:
  "kernel_wf (k\<lparr>agent_count := xagent_count\<rparr>) = kernel_wf k" "kernel_wf (k\<lparr>rr_next := xrr_next\<rparr>) = kernel_wf k"
  "kernel_wf (k\<lparr>kernel_sched_ready := xkernel_sched_ready\<rparr>) = kernel_wf k" "kernel_wf (k\<lparr>online_harts := xonline_harts\<rparr>) = kernel_wf k"
  "kernel_wf (k\<lparr>kvm := xkvm\<rparr>) = kernel_wf k" "kernel_wf (k\<lparr>kquota := xkquota\<rparr>) = kernel_wf k"
  "kernel_wf (k\<lparr>kfs := xkfs\<rparr>) = kernel_wf k" "kernel_wf (k\<lparr>kpol := xkpol\<rparr>) = kernel_wf k"
  "kernel_wf (k\<lparr>kdisk := xkdisk\<rparr>) = kernel_wf k" "kernel_wf (k\<lparr>uart_out := xuart_out\<rparr>) = kernel_wf k"
  "kernel_wf (k\<lparr>uart_in := xuart_in\<rparr>) = kernel_wf k" "kernel_wf (k\<lparr>halted := xhalted\<rparr>) = kernel_wf k"
  "kernel_wf (k\<lparr>kbuf_oob := xkbuf_oob\<rparr>) = kernel_wf k" "kernel_wf (k\<lparr>kworld := xkworld\<rparr>) = kernel_wf k"
  "kernel_wf (k\<lparr>remote_enabled := xremote\<rparr>) = kernel_wf k" "kernel_wf (k\<lparr>llm_stream_buf := xllm\<rparr>) = kernel_wf k"
  by (simp_all add: kernel_wf_def)

lemma agent_at_fields [simp]:
  "agent_at (k\<lparr>agent_count := xagent_count\<rparr>) = agent_at k" "agent_at (k\<lparr>rr_next := xrr_next\<rparr>) = agent_at k"
  "agent_at (k\<lparr>kernel_sched_ready := xkernel_sched_ready\<rparr>) = agent_at k" "agent_at (k\<lparr>online_harts := xonline_harts\<rparr>) = agent_at k"
  "agent_at (k\<lparr>kvm := xkvm\<rparr>) = agent_at k" "agent_at (k\<lparr>kquota := xkquota\<rparr>) = agent_at k"
  "agent_at (k\<lparr>kfs := xkfs\<rparr>) = agent_at k" "agent_at (k\<lparr>kpol := xkpol\<rparr>) = agent_at k"
  "agent_at (k\<lparr>kdisk := xkdisk\<rparr>) = agent_at k" "agent_at (k\<lparr>uart_out := xuart_out\<rparr>) = agent_at k"
  "agent_at (k\<lparr>uart_in := xuart_in\<rparr>) = agent_at k" "agent_at (k\<lparr>halted := xhalted\<rparr>) = agent_at k"
  "agent_at (k\<lparr>kbuf_oob := xkbuf_oob\<rparr>) = agent_at k" "agent_at (k\<lparr>kworld := xkworld\<rparr>) = agent_at k"
  "agent_at (k\<lparr>remote_enabled := xremote\<rparr>) = agent_at k" "agent_at (k\<lparr>llm_stream_buf := xllm\<rparr>) = agent_at k"
  by (simp_all add: fun_eq_iff agent_at_def)

lemma cur_idx_fields [simp]:
  "cur_idx (k\<lparr>agent_count := xagent_count\<rparr>) = cur_idx k" "cur_idx (k\<lparr>rr_next := xrr_next\<rparr>) = cur_idx k"
  "cur_idx (k\<lparr>kernel_sched_ready := xkernel_sched_ready\<rparr>) = cur_idx k" "cur_idx (k\<lparr>online_harts := xonline_harts\<rparr>) = cur_idx k"
  "cur_idx (k\<lparr>kvm := xkvm\<rparr>) = cur_idx k" "cur_idx (k\<lparr>kquota := xkquota\<rparr>) = cur_idx k"
  "cur_idx (k\<lparr>kfs := xkfs\<rparr>) = cur_idx k" "cur_idx (k\<lparr>kpol := xkpol\<rparr>) = cur_idx k"
  "cur_idx (k\<lparr>kdisk := xkdisk\<rparr>) = cur_idx k" "cur_idx (k\<lparr>uart_out := xuart_out\<rparr>) = cur_idx k"
  "cur_idx (k\<lparr>uart_in := xuart_in\<rparr>) = cur_idx k" "cur_idx (k\<lparr>halted := xhalted\<rparr>) = cur_idx k"
  "cur_idx (k\<lparr>kbuf_oob := xkbuf_oob\<rparr>) = cur_idx k" "cur_idx (k\<lparr>kworld := xkworld\<rparr>) = cur_idx k"
  "cur_idx (k\<lparr>remote_enabled := xremote\<rparr>) = cur_idx k" "cur_idx (k\<lparr>llm_stream_buf := xllm\<rparr>) = cur_idx k"
  by (simp_all add: fun_eq_iff cur_idx_def)

lemma cur_idx_bound: "kernel_wf k \<Longrightarrow> cur_idx k h = Some i \<Longrightarrow> h < 4 \<and> i < 12"
  by (auto simp: cur_idx_def kernel_wf_def split: if_splits)

lemma agent_get_SomeD:
  "agent_get k d = Some i \<Longrightarrow> i < 12 \<and> d = int i \<and> astate (agent_at k i) \<noteq> AGENT_UNUSED"
  by (auto simp: agent_get_def split: if_splits)

end
