(* ===== verification/Sched.thy ===== *)
theory Sched
  imports Kernel
begin

text \<open>
  The scheduler of \<open>kernel/sched.c\<close>: a run queue per hart, agents bound to a home hart, and
  a selection that serves agents with mail first, then the run queue, then the table round robin.

  \<open>schedule_turn\<close> is one turn of the loop of \<open>schedule_trap\<close>, under its lock: it switches to an
  agent, waits for an interrupt, parks the hart, or halts the machine.  The turn of
  \<open>sched_cpu_run_loop\<close> is \<open>run_loop_turn\<close>.  A wait lets the other harts act and is followed by another
  turn of the same loop with \<open>cur\<close> read again.

  The properties: no agent is ever current on two harts, in every state reachable by the steps of
  the harts; a selected agent is runnable and owned by the hart afterwards; a wake-up is never lost;
  and without mail the run queue is served in order, so that every queued agent runs after as many
  turns as its position.
\<close>

section \<open>Definitions\<close>

datatype turn = Turn_run nat | Turn_wait | Turn_park | Turn_halt

definition trapframe_store :: "kernel \<Rightarrow> nat option \<Rightarrow> trapframe option \<Rightarrow> kernel" where
  "trapframe_store k a src =
     (case a of
        None \<Rightarrow> k
      | Some i \<Rightarrow>
          if atf (agent_at k i) \<noteq> None \<and> src \<noteq> None then upd_agent k i (\<lambda>x. x\<lparr>atf := src\<rparr>) else k)"

definition trapframe_sync :: "kernel \<Rightarrow> nat \<Rightarrow> trapframe \<Rightarrow> kernel \<times> trapframe option" where
  "trapframe_sync k h src =
     (let k1 = trapframe_store k (cur_idx k h) (Some src)
      in case agent_current k1 h of
           None \<Rightarrow> (k1\<lparr>halted := True\<rparr>, None)
         | Some a \<Rightarrow> if atf a = None then (k1\<lparr>halted := True\<rparr>, None) else (k1, atf a))"

definition sched_agent_selectable :: "agent \<Rightarrow> bool" where
  "sched_agent_selectable a \<longleftrightarrow>
     astate a \<noteq> AGENT_UNUSED \<and> astate a \<noteq> AGENT_ZOMBIE \<and> astate a \<noteq> AGENT_CREATED \<and> astate a \<noteq> AGENT_RUNNING"

definition rq_cpu :: "int \<Rightarrow> nat" where
  "rq_cpu cpu = (if cpu < 0 \<or> cpu \<ge> int SMP_MAX_HARTS then 0 else nat cpu)"

definition sched_rq_add :: "kernel \<Rightarrow> nat \<Rightarrow> kernel" where
  "sched_rq_add k i =
     (let a = agent_at k i;
          cpu = rq_cpu (home_cpu a);
          q = cpu_rq k ! cpu
      in if aid a \<in> set q then k
         else if length q \<ge> MAX_AGENTS then k
         else k\<lparr>cpu_rq := (cpu_rq k)[cpu := q @ [aid a]]\<rparr>)"

definition sched_rq_remove :: "kernel \<Rightarrow> int \<Rightarrow> int \<Rightarrow> kernel" where
  "sched_rq_remove k cpu0 i =
     (let cpu = rq_cpu cpu0
      in k\<lparr>cpu_rq := (cpu_rq k)[cpu := remove1 i (cpu_rq k ! cpu)]\<rparr>)"

definition sched_notify_runnable :: "kernel \<Rightarrow> nat \<Rightarrow> kernel" where
  "sched_notify_runnable k i =
     (if astate (agent_at k i) = AGENT_ZOMBIE then k
      else sched_rq_add (upd_agent k i (\<lambda>a. a\<lparr>astate := AGENT_RUNNABLE, running_cpu := - 1\<rparr>)) i)"

definition sched_has_runnable :: "kernel \<Rightarrow> bool" where
  "sched_has_runnable k \<longleftrightarrow>
     list_ex (\<lambda>a. sched_agent_selectable a \<and> (astate a = AGENT_RUNNABLE \<or> \<not> msgbox_empty (inbox a)))
       (take MAX_AGENTS (agents k))"

definition sched_system_done :: "kernel \<Rightarrow> bool" where
  "sched_system_done k \<longleftrightarrow>
     \<not> list_ex (\<lambda>a. astate a \<noteq> AGENT_UNUSED \<and> astate a \<noteq> AGENT_ZOMBIE) (drop 1 (take MAX_AGENTS (agents k)))
     \<and> \<not> sched_has_runnable k"

definition pick_from_runqueues :: "kernel \<Rightarrow> nat \<Rightarrow> nat option" where
  "pick_from_runqueues k hart =
     (if hart \<ge> SMP_MAX_HARTS then None
      else
        (case find (\<lambda>i. case agent_get k i of
                          None \<Rightarrow> False
                        | Some j \<Rightarrow> astate (agent_at k j) = AGENT_RUNNABLE \<and> running_cpu (agent_at k j) < 0)
               (cpu_rq k ! hart) of
           None \<Rightarrow> None
         | Some i \<Rightarrow> Some (nat i)))"

definition sched_agent_has_inbox :: "agent \<Rightarrow> bool" where
  "sched_agent_has_inbox a \<longleftrightarrow>
     astate a \<noteq> AGENT_UNUSED \<and> astate a \<noteq> AGENT_ZOMBIE \<and> astate a \<noteq> AGENT_CREATED"

definition mail_for :: "kernel \<Rightarrow> nat \<Rightarrow> nat \<Rightarrow> bool" where
  "mail_for k hart i \<longleftrightarrow>
     (let x = agent_at k i
      in sched_agent_has_inbox x \<and> home_cpu x = int hart \<and> \<not> msgbox_empty (inbox x))"

definition rr_candidate :: "kernel \<Rightarrow> nat \<Rightarrow> nat \<Rightarrow> bool" where
  "rr_candidate k hart i \<longleftrightarrow>
     (let x = agent_at k i
      in sched_agent_selectable x \<and> home_cpu x = int hart \<and> astate x = AGENT_RUNNABLE)"

definition pick_next :: "kernel \<Rightarrow> nat \<Rightarrow> kernel \<times> nat option" where
  "pick_next k hart =
     (case find (mail_for k hart) [0..<MAX_AGENTS] of
        Some i \<Rightarrow> (upd_agent k i (\<lambda>x. x\<lparr>astate := AGENT_RUNNABLE, running_cpu := - 1\<rparr>), Some i)
      | None \<Rightarrow>
          (case pick_from_runqueues k hart of
             Some i \<Rightarrow> (k, Some i)
           | None \<Rightarrow>
               (case find (\<lambda>pass. rr_candidate k hart ((rr_next k + pass) mod MAX_AGENTS)) [0..<MAX_AGENTS] of
                  Some pass \<Rightarrow>
                    let idx = (rr_next k + pass) mod MAX_AGENTS
                    in (k\<lparr>rr_next := (idx + 1) mod MAX_AGENTS\<rparr>, Some idx)
                | None \<Rightarrow> (k, None))))"

text \<open>The common end of \<open>schedule_trap\<close> and of the loop of \<open>sched_cpu_run_loop\<close>.\<close>

definition switch_to :: "kernel \<Rightarrow> nat \<Rightarrow> nat \<Rightarrow> kernel \<times> turn" where
  "switch_to k h i =
     (let k1 = agent_set_current k h (Some i);
          k2 = upd_agent k1 i (\<lambda>a. a\<lparr>astate := AGENT_RUNNING, running_cpu := int h\<rparr>);
          a = agent_at k2 i;
          k3 = sched_rq_remove k2 (home_cpu a) (aid a);
          k4 = (if pagetable a \<noteq> 0 then vm_activate k3 h (pagetable a) else k3)
      in if atf a = None then (k4\<lparr>halted := True\<rparr>, Turn_halt) else (k4, Turn_run i))"

definition sched_halt_if_done :: "kernel \<Rightarrow> nat \<Rightarrow> kernel \<times> turn" where
  "sched_halt_if_done k h = (if h \<noteq> 0 then (k, Turn_park) else (k\<lparr>halted := True\<rparr>, Turn_halt))"

definition preempt :: "kernel \<Rightarrow> nat option \<Rightarrow> trapframe option \<Rightarrow> kernel" where
  "preempt k cur cur_tf =
     (let k1 = trapframe_store k cur cur_tf
      in case cur of
           None \<Rightarrow> k1
         | Some i \<Rightarrow>
             if astate (agent_at k1 i) = AGENT_RUNNING
             then sched_rq_add (upd_agent k1 i (\<lambda>a. a\<lparr>astate := AGENT_RUNNABLE, running_cpu := - 1\<rparr>)) i
             else k1)"

definition schedule_turn :: "kernel \<Rightarrow> nat \<Rightarrow> trapframe option \<Rightarrow> kernel \<times> turn" where
  "schedule_turn k h cur_tf =
     (case pick_next (preempt k (cur_idx k h) cur_tf) h of
        (k1, Some i) \<Rightarrow> switch_to k1 h i
      | (k1, None) \<Rightarrow>
          if sched_system_done k1 \<and> kernel_sched_ready k1 then sched_halt_if_done k1 h
          else (k1, Turn_wait))"

definition run_loop_turn :: "kernel \<Rightarrow> nat \<Rightarrow> kernel \<times> turn" where
  "run_loop_turn k h =
     (case pick_next k h of
        (k1, Some i) \<Rightarrow> switch_to k1 h i
      | (k1, None) \<Rightarrow>
          if kernel_sched_ready k1 \<and> sched_system_done k1 then sched_halt_if_done k1 h
          else (k1, Turn_wait))"

definition sched_start :: "kernel \<Rightarrow> nat \<Rightarrow> nat \<Rightarrow> kernel \<times> turn" where
  "sched_start k h i =
     (let k1 = upd_agent (k\<lparr>kernel_sched_ready := True\<rparr>) i
                 (\<lambda>a. a\<lparr>home_cpu := 0, running_cpu := int h, astate := AGENT_RUNNING\<rparr>);
          k2 = agent_set_current k1 h (Some i);
          a = agent_at k2 i
      in if atf a = None then (k2\<lparr>halted := True\<rparr>, Turn_halt)
         else (if pagetable a \<noteq> 0 then vm_activate k2 h (pagetable a) else k2, Turn_run i))"

definition scheduler_run_first :: "kernel \<Rightarrow> nat \<Rightarrow> nat \<Rightarrow> kernel \<times> turn" where
  "scheduler_run_first k h i =
     (if atf (agent_at k i) = None then (k\<lparr>halted := True\<rparr>, Turn_halt)
      else if smp_online_count k > 1 then sched_start k h i
      else
        let k1 = agent_set_current k h (Some i);
            k2 = upd_agent k1 i (\<lambda>a. a\<lparr>astate := AGENT_RUNNING, running_cpu := int h\<rparr>);
            a = agent_at k2 i
        in (if pagetable a \<noteq> 0 then vm_activate k2 h (pagetable a) else k2, Turn_run i))"

section \<open>The home discipline\<close>

text \<open>
  Every agent that is current on a hart or waits in its run queue has that hart as its home.
\<close>

definition home_inv :: "kernel \<Rightarrow> bool" where
  "home_inv k \<longleftrightarrow> kernel_wf k \<and>
     (\<forall>h < SMP_MAX_HARTS. \<forall>i. cpu_current k ! h = Some i \<longrightarrow> home_cpu (agents k ! i) = int h) \<and>
     (\<forall>c < SMP_MAX_HARTS. \<forall>j \<in> set (cpu_rq k ! c).
        0 \<le> j \<and> j < int MAX_AGENTS \<and> home_cpu (agents k ! nat j) = int c)"

lemma home_invI:
  assumes "kernel_wf k"
    "\<And>h i. h < 4 \<Longrightarrow> cpu_current k ! h = Some i \<Longrightarrow> home_cpu (agents k ! i) = int h"
    "\<And>c j. c < 4 \<Longrightarrow> j \<in> set (cpu_rq k ! c) \<Longrightarrow> 0 \<le> j \<and> j < 12 \<and> home_cpu (agents k ! nat j) = int c"
  shows "home_inv k"
  using assms by (auto simp: home_inv_def)

lemma home_invD:
  assumes "home_inv k"
  shows "kernel_wf k"
    "h < 4 \<Longrightarrow> cpu_current k ! h = Some i \<Longrightarrow> home_cpu (agents k ! i) = int h"
    "c < 4 \<Longrightarrow> j \<in> set (cpu_rq k ! c) \<Longrightarrow> 0 \<le> j \<and> j < 12 \<and> home_cpu (agents k ! nat j) = int c"
  using assms by (auto simp: home_inv_def)

lemma home_inv_current_unique:
  assumes "home_inv k" "h < 4" "h' < 4" "cpu_current k ! h = Some i" "cpu_current k ! h' = Some i"
  shows "h = h'"
  using home_invD(2) [OF assms(1,2,4)] home_invD(2) [OF assms(1,3,5)] by simp

text \<open>Changes of an agent that keep its id and its home keep the discipline.\<close>

lemma home_inv_upd [inv_intros]:
  assumes "home_inv k" "\<And>a. aid (f a) = aid a" "\<And>a. home_cpu (f a) = home_cpu a"
  shows "home_inv (upd_agent k i f)"
proof -
  note d = home_invD [OF assms(1)]
  have eq: "home_cpu ((agents k)[i := f (agents k ! i)] ! j) = home_cpu (agents k ! j)" if "j < 12" for j
    using that assms(3) kernel_wfD(1) [OF d(1)] by (cases "j = i") simp_all
  show ?thesis
  proof (rule home_invI)
    show "kernel_wf (upd_agent k i f)" using d(1) assms(2) by (rule kernel_wf_upd)
    fix h j
    assume h: "h < 4" "cpu_current (upd_agent k i f) ! h = Some j"
    then have "j < 12" using kernel_wfD(5) [OF d(1)] by simp
    then show "home_cpu (agents (upd_agent k i f) ! j) = int h" using h eq d(2) by (simp add: agents_upd)
  next
    fix c j
    assume "c < 4" "j \<in> set (cpu_rq (upd_agent k i f) ! c)"
    then have "0 \<le> j \<and> j < 12 \<and> home_cpu (agents k ! nat j) = int c" using d(3) by simp
    then show "0 \<le> j \<and> j < 12 \<and> home_cpu (agents (upd_agent k i f) ! nat j) = int c"
      using eq [of "nat j"] by (simp add: agents_upd nat_less_iff)
  qed
qed

lemma home_inv_fields [inv_intros]:
  "home_inv k \<Longrightarrow> home_inv (k\<lparr>rr_next := n\<rparr>)" "home_inv k \<Longrightarrow> home_inv (k\<lparr>halted := b\<rparr>)"
  "home_inv k \<Longrightarrow> home_inv (k\<lparr>kvm := v\<rparr>)" "home_inv k \<Longrightarrow> home_inv (k\<lparr>kquota := q\<rparr>)"
  "home_inv k \<Longrightarrow> home_inv (k\<lparr>kfs := fs\<rparr>)" "home_inv k \<Longrightarrow> home_inv (k\<lparr>kpol := pl\<rparr>)"
  "home_inv k \<Longrightarrow> home_inv (k\<lparr>kdisk := d\<rparr>)" "home_inv k \<Longrightarrow> home_inv (k\<lparr>uart_out := s\<rparr>)"
  "home_inv k \<Longrightarrow> home_inv (k\<lparr>uart_in := s\<rparr>)" "home_inv k \<Longrightarrow> home_inv (k\<lparr>kbuf_oob := b\<rparr>)"
  "home_inv k \<Longrightarrow> home_inv (k\<lparr>kworld := w\<rparr>)" "home_inv k \<Longrightarrow> home_inv (k\<lparr>remote_enabled := b\<rparr>)"
  "home_inv k \<Longrightarrow> home_inv (k\<lparr>llm_stream_buf := s\<rparr>)"
  "home_inv k \<Longrightarrow> home_inv (k\<lparr>agent_count := c\<rparr>)"
  by (simp_all add: home_inv_def kernel_wf_def)

lemma vm_activate_home [inv_intros]: "home_inv k \<Longrightarrow> home_inv (vm_activate k h pt)"
  by (simp add: home_inv_def kernel_wf_def vm_activate_def)

lemma rq_add_home [inv_intros]:
  assumes "home_inv k" "i < 12" "0 \<le> home_cpu (agent_at k i)" "home_cpu (agent_at k i) < 4"
  shows "home_inv (sched_rq_add k i)"
proof -
  note d = home_invD [OF assms(1)]
  have a: "aid (agent_at k i) = int i" using kernel_wfD(6) [OF d(1)] assms(2) by (simp add: agent_at_def)
  have c: "int (rq_cpu (home_cpu (agent_at k i))) = home_cpu (agent_at k i)"
    using assms(3,4) by (simp add: rq_cpu_def)
  show ?thesis
  proof (rule home_invI)
    show "kernel_wf (sched_rq_add k i)" using d(1) by (auto simp: sched_rq_add_def kernel_wf_def Let_def)
  next
    fix cc j
    assume cc: "cc < 4" "j \<in> set (cpu_rq (sched_rq_add k i) ! cc)"
    then have "j \<in> set (cpu_rq k ! cc) \<or> j = int i \<and> int cc = home_cpu (agent_at k i)"
      using a c kernel_wfD(3) [OF d(1)]
      by (cases "cc = rq_cpu (home_cpu (agent_at k i))")
        (auto simp: sched_rq_add_def Let_def split: if_splits)
    then show "0 \<le> j \<and> j < 12 \<and> home_cpu (agents (sched_rq_add k i) ! nat j) = int cc"
      using d(3) [OF cc(1)] assms(2) by (auto simp: sched_rq_add_def Let_def agent_at_def)
  qed (use d(2) in \<open>auto simp: sched_rq_add_def Let_def split: if_splits\<close>)
qed

lemma rq_remove_home [inv_intros]:
  assumes "home_inv k"
  shows "home_inv (sched_rq_remove k c i)"
proof -
  note d = home_invD [OF assms(1)]
  show ?thesis
  proof (rule home_invI)
    show "kernel_wf (sched_rq_remove k c i)" using d(1) by (simp add: sched_rq_remove_def kernel_wf_def Let_def)
  next
    fix cc j
    assume cc: "cc < 4" "j \<in> set (cpu_rq (sched_rq_remove k c i) ! cc)"
    then have "j \<in> set (cpu_rq k ! cc)"
      using kernel_wfD(3) [OF d(1)]
      by (cases "cc = rq_cpu c") (auto simp: sched_rq_remove_def Let_def dest: set_remove1_subset [THEN subsetD])
    then show "0 \<le> j \<and> j < 12 \<and> home_cpu (agents (sched_rq_remove k c i) ! nat j) = int cc"
      using d(3) [OF cc(1)] by (simp add: sched_rq_remove_def Let_def)
  qed (use d(2) in \<open>simp add: sched_rq_remove_def Let_def\<close>)
qed

lemma set_current_home [inv_intros]:
  assumes "home_inv k" "h < 4" "i < 12" "home_cpu (agent_at k i) = int h"
  shows "home_inv (agent_set_current k h (Some i))"
proof -
  note d = home_invD [OF assms(1)]
  show ?thesis
    by (rule home_invI)
      (use d assms kernel_wfD [OF d(1)] in
        \<open>auto simp: agent_set_current_def agent_at_def kernel_wf_def nth_list_update split: if_splits\<close>)
qed

lemma homes_bounded:
  assumes "home_inv k" "cur_idx k h = Some i"
  shows "h < 4" "i < 12" "home_cpu (agent_at k i) = int h"
proof -
  have h: "h < 4" "cpu_current k ! h = Some i" using assms(2) by (auto simp: cur_idx_def split: if_splits)
  with home_invD(2) [OF assms(1) h] kernel_wfD(5) [OF home_invD(1) [OF assms(1)] h]
  show "h < 4" "i < 12" "home_cpu (agent_at k i) = int h" by (simp_all add: agent_at_def)
qed

section \<open>What a turn leaves alone\<close>

lemma rq_add_agents [simp]:
  "agents (sched_rq_add k i) = agents k" "agent_at (sched_rq_add k i) = agent_at k"
  "cur_idx (sched_rq_add k i) = cur_idx k" "cpu_current (sched_rq_add k i) = cpu_current k"
  "rr_next (sched_rq_add k i) = rr_next k" "kernel_sched_ready (sched_rq_add k i) = kernel_sched_ready k"
  by (auto simp: sched_rq_add_def Let_def agent_at_def cur_idx_def)

lemma rq_remove_agents [simp]:
  "agents (sched_rq_remove k c i) = agents k" "agent_at (sched_rq_remove k c i) = agent_at k"
  "cpu_current (sched_rq_remove k c i) = cpu_current k" "cur_idx (sched_rq_remove k c i) = cur_idx k"
  by (auto simp: sched_rq_remove_def Let_def agent_at_def cur_idx_def)

lemma set_current_agents [simp]:
  "agents (agent_set_current k h i) = agents k" "agent_at (agent_set_current k h i) = agent_at k"
  "cpu_rq (agent_set_current k h i) = cpu_rq k"
  by (auto simp: agent_set_current_def agent_at_def)

lemma vm_activate_agents [simp]:
  "agents (vm_activate k h pt) = agents k" "agent_at (vm_activate k h pt) = agent_at k"
  "cpu_current (vm_activate k h pt) = cpu_current k" "cur_idx (vm_activate k h pt) = cur_idx k"
  "cpu_rq (vm_activate k h pt) = cpu_rq k"
  by (auto simp: vm_activate_def agent_at_def cur_idx_def)

definition kept :: "agent \<Rightarrow> agent \<Rightarrow> bool" where
  "kept a b \<longleftrightarrow> inbox b = inbox a \<and> home_cpu b = home_cpu a \<and> (atf b = None \<longleftrightarrow> atf a = None) \<and>
     pagetable b = pagetable a \<and> caps b = caps a \<and> aid b = aid a"

lemma kept_refl [simp]: "kept a a"
  by (simp add: kept_def)

lemma trapframe_store_agent:
  assumes "kernel_wf k" "\<And>i. cur = Some i \<Longrightarrow> i < 12"
  shows "kept (agent_at k j) (agent_at (trapframe_store k cur src) j) \<and>
    astate (agent_at (trapframe_store k cur src) j) = astate (agent_at k j) \<and>
    running_cpu (agent_at (trapframe_store k cur src) j) = running_cpu (agent_at k j)"
  using assms kernel_wfD(1) [OF assms(1)]
  by (auto simp: trapframe_store_def kept_def split: option.splits)

lemma trapframe_store_frame [simp]:
  "cpu_current (trapframe_store k cur src) = cpu_current k" "cpu_rq (trapframe_store k cur src) = cpu_rq k"
  "rr_next (trapframe_store k cur src) = rr_next k"
  "kernel_sched_ready (trapframe_store k cur src) = kernel_sched_ready k"
  "length (agents (trapframe_store k cur src)) = length (agents k)"
  by (simp_all add: trapframe_store_def split: option.splits)

lemma trapframe_store_home [inv_intros]: "home_inv k \<Longrightarrow> home_inv (trapframe_store k cur src)"
  by (auto simp: trapframe_store_def split: option.splits intro!: home_inv_upd)

lemma preempt_agent:
  assumes "kernel_wf k" "\<And>i. cur = Some i \<Longrightarrow> i < 12"
  shows "kept (agent_at k j) (agent_at (preempt k cur tf) j)"
    "astate (agent_at (preempt k cur tf) j) =
       (if cur = Some j \<and> astate (agent_at k j) = AGENT_RUNNING then AGENT_RUNNABLE else astate (agent_at k j))"
    "running_cpu (agent_at (preempt k cur tf) j) =
       (if cur = Some j \<and> astate (agent_at k j) = AGENT_RUNNING then - 1 else running_cpu (agent_at k j))"
  using trapframe_store_agent [OF assms(1), of cur j tf] trapframe_store_agent [OF assms(1), of cur "the cur" tf]
    assms(2) kernel_wfD(1) [OF assms(1)]
  by (auto simp: preempt_def Let_def kept_def split: option.splits)

lemma preempt_frame [simp]:
  "cpu_current (preempt k cur tf) = cpu_current k" "cur_idx (preempt k cur tf) h = cur_idx k h"
  "rr_next (preempt k cur tf) = rr_next k" "kernel_sched_ready (preempt k cur tf) = kernel_sched_ready k"
  "length (agents (preempt k cur tf)) = length (agents k)"
  by (auto simp: preempt_def Let_def cur_idx_def split: option.splits)

lemma preempt_home [inv_intros]:
  assumes "home_inv k"
  shows "home_inv (preempt k (cur_idx k h) tf)"
proof (cases "cur_idx k h")
  case None
  then show ?thesis using assms by (simp add: preempt_def Let_def trapframe_store_home)
next
  case (Some i)
  note b = homes_bounded [OF assms Some]
  let ?k = "upd_agent (trapframe_store k (Some i) tf) i (\<lambda>a. a\<lparr>astate := AGENT_RUNNABLE, running_cpu := - 1\<rparr>)"
  have inv: "home_inv ?k" using assms by (intro home_inv_upd trapframe_store_home) simp_all
  have "home_cpu (agent_at ?k i) = int h"
    using trapframe_store_agent [OF home_invD(1) [OF assms], of "Some i" i tf] b
      kernel_wfD(1) [OF home_invD(1) [OF assms]] by (simp add: kept_def)
  then have "home_inv (sched_rq_add ?k i)" using b by (intro rq_add_home [OF inv]) auto
  then show ?thesis
    using Some assms by (simp add: preempt_def Let_def trapframe_store_home)
qed

section \<open>The selection\<close>

lemma mod_in_table: "(n :: nat) mod 12 < 12"
  by simp

lemma pick_from_runqueues_SomeD:
  assumes "pick_from_runqueues k h = Some i"
  shows "int i \<in> set (cpu_rq k ! h)" "astate (agent_at k i) = AGENT_RUNNABLE"
proof -
  let ?P = "\<lambda>i. case agent_get k i of None \<Rightarrow> False
      | Some j \<Rightarrow> astate (agent_at k j) = AGENT_RUNNABLE \<and> running_cpu (agent_at k j) < 0"
  obtain x where x: "find ?P (cpu_rq k ! h) = Some x" "i = nat x"
    using assms by (auto simp: pick_from_runqueues_def split: if_splits option.splits)
  then have "x \<in> set (cpu_rq k ! h)" "?P x" by (auto simp: find_Some_iff in_set_conv_nth)
  then show "int i \<in> set (cpu_rq k ! h)" "astate (agent_at k i) = AGENT_RUNNABLE"
    using x(2) by (auto split: option.splits dest!: agent_get_SomeD)
qed

lemma pick_next_home:
  assumes "home_inv k" "h < 4" "pick_next k h = (k1, Some i)"
  shows "i < 12" "home_cpu (agent_at k i) = int h" "home_inv k1"
    "astate (agent_at k1 i) = AGENT_RUNNABLE"
    "astate (agent_at k i) = AGENT_RUNNABLE \<or> mail_for k h i"
    "\<And>j. kept (agent_at k j) (agent_at k1 j)"
    "\<And>j. j \<noteq> i \<Longrightarrow> agent_at k1 j = agent_at k j"
    "cpu_current k1 = cpu_current k" "cpu_rq k1 = cpu_rq k"
proof -
  note len = kernel_wfD(1) [OF home_invD(1) [OF assms(1)]]
  let ?up = "\<lambda>x. x\<lparr>astate := AGENT_RUNNABLE, running_cpu := - 1\<rparr>"
  consider
      (mail) "mail_for k h i" "i < 12" "k1 = upd_agent k i ?up"
    | (queue) "k1 = k" "int i \<in> set (cpu_rq k ! h)" "astate (agent_at k i) = AGENT_RUNNABLE"
    | (table) n where "k1 = k\<lparr>rr_next := n\<rparr>" "i < 12" "rr_candidate k h i"
  proof (cases "find (mail_for k h) [0..<12]")
    case (Some x)
    then have "x = i" "k1 = upd_agent k i ?up" using assms(3) by (auto simp: pick_next_def)
    with Some show thesis by (intro mail) (auto simp: find_Some_iff)
  next
    case m: None
    show thesis
    proof (cases "pick_from_runqueues k h")
      case (Some x)
      then have "k1 = k" "pick_from_runqueues k h = Some i" using m assms(3) by (auto simp: pick_next_def)
      with queue pick_from_runqueues_SomeD [OF this(2)] show thesis by blast
    next
      case None
      then obtain p where "find (\<lambda>pass. rr_candidate k h ((rr_next k + pass) mod 12)) [0..<12] = Some p"
          "i = (rr_next k + p) mod 12" "k1 = k\<lparr>rr_next := (i + 1) mod 12\<rparr>"
        using m assms(3) by (auto simp: pick_next_def Let_def split: option.splits)
      with table show thesis by (auto simp: find_Some_iff)
    qed
  qed
  then have "i < 12 \<and> home_cpu (agent_at k i) = int h \<and> home_inv k1 \<and>
      astate (agent_at k1 i) = AGENT_RUNNABLE \<and>
      (astate (agent_at k i) = AGENT_RUNNABLE \<or> mail_for k h i) \<and>
      (\<forall>j. kept (agent_at k j) (agent_at k1 j)) \<and> (\<forall>j. j \<noteq> i \<longrightarrow> agent_at k1 j = agent_at k j) \<and>
      cpu_current k1 = cpu_current k \<and> cpu_rq k1 = cpu_rq k"
  proof cases
    case mail
    have "home_inv k1" unfolding mail(3) using assms(1) by (intro home_inv_upd) simp_all
    with mail len show ?thesis by (auto simp: mail_for_def Let_def kept_def)
  next
    case queue
    with home_invD(3) [OF assms(1,2) queue(2)] assms(1) show ?thesis by (simp add: agent_at_def)
  next
    case table
    have "home_inv k1" unfolding table(1) using assms(1) by (rule home_inv_fields)
    with table show ?thesis by (auto simp: rr_candidate_def Let_def agent_at_def)
  qed
  then show "i < 12" "home_cpu (agent_at k i) = int h" "home_inv k1"
    "astate (agent_at k1 i) = AGENT_RUNNABLE"
    "astate (agent_at k i) = AGENT_RUNNABLE \<or> mail_for k h i"
    "\<And>j. kept (agent_at k j) (agent_at k1 j)"
    "\<And>j. j \<noteq> i \<Longrightarrow> agent_at k1 j = agent_at k j"
    "cpu_current k1 = cpu_current k" "cpu_rq k1 = cpu_rq k" by auto
qed

lemma back_to_start: "(r :: nat) = 12 * q + m \<Longrightarrow> m < 12 \<Longrightarrow> r + (j + 12 - m) = j + 12 * (q + 1)"
  by simp

lemma pick_next_None:
  assumes "pick_next k h = (k1, None)"
  shows "k1 = k" "j < 12 \<Longrightarrow> \<not> mail_for k h j" "j < 12 \<Longrightarrow> \<not> rr_candidate k h j"
proof -
  have none: "find (mail_for k h) [0..<12] = None"
      "find (\<lambda>pass. rr_candidate k h ((rr_next k + pass) mod 12)) [0..<12] = None"
    and "k1 = k"
    using assms by (auto simp: pick_next_def Let_def split: option.splits)
  then show "k1 = k" by simp
  show "\<not> mail_for k h j" if "j < 12" using none(1) that by (auto simp: find_None_iff)
  show "\<not> rr_candidate k h j" if "j < 12"
  proof -
    let ?p = "(j + 12 - rr_next k mod 12) mod 12"
    have "rr_next k + (j + 12 - rr_next k mod 12) = j + 12 * (rr_next k div 12 + 1)"
      by (rule back_to_start) (simp_all add: mult_div_mod_eq)
    then have "(rr_next k + (j + 12 - rr_next k mod 12)) mod 12 = j"
      using that by (simp only: mod_mult_self2 mod_less)
    then have "(rr_next k + ?p) mod 12 = j" by (simp add: mod_add_right_eq)
    then show ?thesis using none(2) mod_in_table [of "j + 12 - rr_next k mod 12"]
      by (metis atLeast0LessThan find_None_iff lessThan_iff set_upt)
  qed
qed

lemma switch_to_run:
  assumes "kernel_wf k" "h < 4" "i < 12"
  defines "k2 \<equiv> fst (switch_to k h i)"
  shows "agent_at k2 j = (if j = i then (agent_at k i)\<lparr>astate := AGENT_RUNNING, running_cpu := int h\<rparr> else agent_at k j)"
    "cpu_current k2 = (cpu_current k)[h := Some i]"
    "cpu_rq k2 = (cpu_rq k)[rq_cpu (home_cpu (agent_at k i)) :=
        remove1 (aid (agent_at k i)) (cpu_rq k ! rq_cpu (home_cpu (agent_at k i)))]"
    "snd (switch_to k h i) = (if atf (agent_at k i) = None then Turn_halt else Turn_run i)"
    "pagetable (agent_at k i) \<noteq> 0 \<Longrightarrow> cpu_satp k2 ! h = satp_for (pagetable (agent_at k i))"
  using assms kernel_wfD [OF assms(1)]
  by (auto simp: k2_def switch_to_def Let_def agent_at_def agents_upd sched_rq_remove_def vm_activate_def
      agent_set_current_def upd_agent_def)

lemma switch_to_home [inv_intros]:
  assumes "home_inv k" "h < 4" "i < 12" "home_cpu (agent_at k i) = int h"
  shows "home_inv (fst (switch_to k h i))"
proof -
  let ?k2 = "upd_agent (agent_set_current k h (Some i)) i (\<lambda>a. a\<lparr>astate := AGENT_RUNNING, running_cpu := int h\<rparr>)"
  have "home_inv ?k2" by (intro home_inv_upd set_current_home assms) simp_all
  then have "home_inv (sched_rq_remove ?k2 c x)" for c x by (rule rq_remove_home)
  then show ?thesis by (simp add: switch_to_def Let_def inv_intros)
qed

section \<open>Turns\<close>

lemma schedule_turn_cases:
  assumes "home_inv k" "h < 4"
  obtains
    (switch) k1 i where "home_inv k1" "i < 12" "home_cpu (agent_at k1 i) = int h"
      "pick_next (preempt k (cur_idx k h) tf) h = (k1, Some i)" "schedule_turn k h tf = switch_to k1 h i"
  | (idle) "pick_next (preempt k (cur_idx k h) tf) h = (preempt k (cur_idx k h) tf, None)"
      "schedule_turn k h tf =
        (if sched_system_done (preempt k (cur_idx k h) tf) \<and> kernel_sched_ready k
         then sched_halt_if_done (preempt k (cur_idx k h) tf) h else (preempt k (cur_idx k h) tf, Turn_wait))"
proof -
  let ?p = "preempt k (cur_idx k h) tf"
  have inv: "home_inv ?p" using assms(1) by (rule preempt_home)
  obtain k1 r where r: "pick_next ?p h = (k1, r)" by (cases "pick_next ?p h")
  show thesis
  proof (cases r)
    case None
    with r have "k1 = ?p" using pick_next_None(1) by blast
    with None r idle show thesis by (simp add: schedule_turn_def)
  next
    case (Some i)
    with r have p: "pick_next ?p h = (k1, Some i)" by simp
    note n = pick_next_home [OF inv assms(2) p]
    have "home_cpu (agent_at k1 i) = int h" using n(2) n(6) [of i] by (simp add: kept_def)
    with n(1,3) p switch show thesis by (simp add: schedule_turn_def)
  qed
qed

lemma cur_bound: "kernel_wf k \<Longrightarrow> cur_idx k h = Some i \<Longrightarrow> i < 12"
  using cur_idx_bound by blast

lemma schedule_turn_home [inv_intros]:
  assumes "home_inv k" "h < 4"
  shows "home_inv (fst (schedule_turn k h tf))"
proof (rule schedule_turn_cases [OF assms, of tf])
  fix k1 i
  assume switch: "home_inv k1" "i < 12" "home_cpu (agent_at k1 i) = int h"
    "pick_next (preempt k (cur_idx k h) tf) h = (k1, Some i)" "schedule_turn k h tf = switch_to k1 h i"
  then show ?thesis using switch_to_home [OF switch(1) assms(2) switch(2,3)] by simp
next
  assume idle: "pick_next (preempt k (cur_idx k h) tf) h = (preempt k (cur_idx k h) tf, None)"
    "schedule_turn k h tf =
      (if sched_system_done (preempt k (cur_idx k h) tf) \<and> kernel_sched_ready k
       then sched_halt_if_done (preempt k (cur_idx k h) tf) h else (preempt k (cur_idx k h) tf, Turn_wait))"
  have "home_inv (preempt k (cur_idx k h) tf)" using assms(1) by (rule preempt_home)
  then show ?thesis using idle(2) home_inv_fields(2) by (auto simp: sched_halt_if_done_def)
qed

lemma notify_home [inv_intros]:
  assumes "home_inv k" "i < 12" "0 \<le> home_cpu (agent_at k i)" "home_cpu (agent_at k i) < 4"
  shows "home_inv (sched_notify_runnable k i)"
proof -
  have "home_inv (upd_agent k i (\<lambda>a. a\<lparr>astate := AGENT_RUNNABLE, running_cpu := - 1\<rparr>))"
    using assms(1) by (intro home_inv_upd) simp_all
  then have "home_inv (sched_rq_add (upd_agent k i (\<lambda>a. a\<lparr>astate := AGENT_RUNNABLE, running_cpu := - 1\<rparr>)) i)"
    using assms kernel_wfD(1) [OF home_invD(1) [OF assms(1)]] by (intro rq_add_home) simp_all
  then show ?thesis using assms(1) by (simp add: sched_notify_runnable_def)
qed

text \<open>The trap frame of every agent after a turn: the agent that was current gets the registers the turn was called with,
  every other agent keeps its frame.\<close>

definition frame_after :: "kernel \<Rightarrow> nat \<Rightarrow> trapframe option \<Rightarrow> nat \<Rightarrow> trapframe option" where
  "frame_after k h tf j =
     (if cur_idx k h = Some j \<and> tf \<noteq> None \<and> atf (agent_at k j) \<noteq> None then tf else atf (agent_at k j))"

abbreviation (input) on_hart :: "agent \<Rightarrow> agent_state \<Rightarrow> int \<Rightarrow> agent" where
  "on_hart a s c \<equiv> a\<lparr>astate := s, running_cpu := c\<rparr>"

lemma upd_on_hart: "(\<And>a. on_hart (f a) s c = on_hart a s c) \<Longrightarrow> on_hart (agent_at (upd_agent k i f) j) s c = on_hart (agent_at k j) s c"
  by (cases "i < length (agents k)"; cases "j = i") (simp_all add: agent_at_def agents_upd list_update_beyond)

lemma pick_next_on_hart: "pick_next k h = (k1, r) \<Longrightarrow> on_hart (agent_at k1 j) s c = on_hart (agent_at k j) s c"
  by (auto simp: pick_next_def Let_def upd_on_hart split: option.splits)

lemma preempt_on_hart:
  assumes "kernel_wf k" "\<And>i. cur = Some i \<Longrightarrow> i < 12"
  shows "on_hart (agent_at (preempt k cur tf) j) s c =
    on_hart ((agent_at k j)\<lparr>atf := (if cur = Some j \<and> tf \<noteq> None \<and> atf (agent_at k j) \<noteq> None then tf else atf (agent_at k j))\<rparr>) s c"
proof -
  have "on_hart (agent_at (preempt k cur tf) j) s c = on_hart (agent_at (trapframe_store k cur tf) j) s c"
    by (auto simp: preempt_def Let_def split: option.splits intro!: upd_on_hart)
  moreover have "agent_at (trapframe_store k cur tf) j =
      (agent_at k j)\<lparr>atf := (if cur = Some j \<and> tf \<noteq> None \<and> atf (agent_at k j) \<noteq> None then tf else atf (agent_at k j))\<rparr>"
    using assms kernel_wfD(1) [OF assms(1)] by (auto simp: trapframe_store_def split: option.splits)
  ultimately show ?thesis by simp
qed

text \<open>C17: A switch is sound.  When a turn of the scheduler on hart \<open>h\<close> switches to agent \<open>i\<close>, that agent
  was a live, started agent before; afterwards it is current on \<open>h\<close> and on no other hart, it is marked
  running on \<open>h\<close>, the translation register of \<open>h\<close> holds its page table, and apart from that it is the agent it was, with a trap frame
  that is its own: the registers of the call if it was the current agent, else the frame it had.  The same holds for the frame of
  every other agent, every agent other than \<open>i\<close> and the one that was current before is unchanged, and the home discipline holds again.\<close>

theorem schedule_turn_switch_sound:
  assumes "home_inv k" "h < 4" "schedule_turn k h tf = (k', Turn_run i)"
  shows "home_inv k' \<and> cur_idx k' h = Some i \<and> (\<forall>h' < 4. h' \<noteq> h \<longrightarrow> cur_idx k' h' \<noteq> Some i) \<and>
    astate (agent_at k' i) = AGENT_RUNNING \<and> running_cpu (agent_at k' i) = int h \<and>
    (pagetable (agent_at k' i) \<noteq> 0 \<longrightarrow> cpu_satp k' ! h = satp_for (pagetable (agent_at k' i))) \<and>
    astate (agent_at k i) \<notin> {AGENT_UNUSED, AGENT_CREATED, AGENT_ZOMBIE} \<and>
    agent_at k' i = (agent_at k i)\<lparr>atf := frame_after k h tf i, astate := AGENT_RUNNING, running_cpu := int h\<rparr> \<and>
    frame_after k h tf i \<noteq> None \<and> (\<forall>j. atf (agent_at k' j) = frame_after k h tf j) \<and>
    (\<forall>j. j \<noteq> i \<and> cur_idx k h \<noteq> Some j \<longrightarrow> agent_at k' j = agent_at k j)"
proof (rule schedule_turn_cases [OF assms(1,2), of tf])
  fix k1 x
  assume switch: "home_inv k1" "x < 12" "home_cpu (agent_at k1 x) = int h"
    "pick_next (preempt k (cur_idx k h) tf) h = (k1, Some x)" "schedule_turn k h tf = switch_to k1 h x"
  let ?p = "preempt k (cur_idx k h) tf"
  have wf: "kernel_wf k1" "length (cpu_current k1) = 4" using home_invD(1) [OF switch(1)] kernel_wfD(2) by auto
  note s = switch_to_run [OF wf(1) assms(2) switch(2)]
  have fst: "fst (switch_to k1 h x) = k'" "i = x"
    using assms(3) switch(5) s(4) by (simp_all split: if_splits)
  have inv: "home_inv k'" using switch_to_home [OF switch(1) assms(2) switch(2,3)] fst by simp
  have cur: "cpu_current k' ! h = Some i" using s(2) fst wf(2) assms(2) by simp
  have other: "cur_idx k' h' \<noteq> Some i" if "h' < 4" "h' \<noteq> h" for h'
    using home_inv_current_unique [OF inv assms(2) that(1) cur] that by (auto simp: cur_idx_def)
  note n = pick_next_home [OF preempt_home [OF assms(1)] assms(2) switch(4)]
  note b = cur_bound [OF home_invD(1) [OF assms(1)], of h]
  have live: "astate (agent_at k i) \<notin> {AGENT_UNUSED, AGENT_CREATED, AGENT_ZOMBIE}"
    using n(5) preempt_agent(2) [OF home_invD(1) [OF assms(1)], of "cur_idx k h" tf i] b fst(2)
    by (auto simp: mail_for_def Let_def sched_agent_has_inbox_def split: if_splits)
  have rest: "agent_at k' j = agent_at k j" if "j \<noteq> i" "cur_idx k h \<noteq> Some j" for j
  proof -
    have "agent_at k' j = agent_at ?p j" using s(1) [of j] n(7) [of j] that(1) fst by simp
    also have "\<dots> = agent_at k j"
      using that(2) kernel_wfD(1) [OF home_invD(1) [OF assms(1)]] b
      by (auto simp: preempt_def trapframe_store_def Let_def split: option.splits)
    finally show ?thesis .
  qed
  have oh: "on_hart (agent_at k1 j) st c = on_hart ((agent_at k j)\<lparr>atf := frame_after k h tf j\<rparr>) st c" for j st c
    using pick_next_on_hart [OF switch(4), where j = j and s = st and c = c] preempt_on_hart [OF home_invD(1) [OF assms(1)] b, where tf = tf and j = j and s = st and c = c]
    by (simp add: frame_after_def)
  have own: "agent_at k' i = (agent_at k i)\<lparr>atf := frame_after k h tf i, astate := AGENT_RUNNING, running_cpu := int h\<rparr>"
    using s(1) [of i] fst oh [where j = i] by simp
  have a1: "atf (agent_at k1 j) = frame_after k h tf j" for j using arg_cong [OF oh [where j = j], of atf] by simp
  then have frames: "atf (agent_at k' j) = frame_after k h tf j" for j using s(1) [of j] fst by simp
  have "frame_after k h tf i \<noteq> None" using assms(3) switch(5) s(4) fst(2) a1 [of i] by (auto split: if_splits)
  moreover have "pagetable (agent_at k1 i) = pagetable (agent_at k i)" using arg_cong [OF oh [where j = i], of pagetable] by simp
  ultimately show ?thesis using inv cur other live rest own frames s(5) fst assms(2) by (simp add: cur_idx_def)
next
  assume idle: "pick_next (preempt k (cur_idx k h) tf) h = (preempt k (cur_idx k h) tf, None)"
    "schedule_turn k h tf =
      (if sched_system_done (preempt k (cur_idx k h) tf) \<and> kernel_sched_ready k
       then sched_halt_if_done (preempt k (cur_idx k h) tf) h else (preempt k (cur_idx k h) tf, Turn_wait))"
  then show ?thesis using assms(3) by (auto simp: sched_halt_if_done_def split: if_splits)
qed

definition zero_tf :: trapframe where
  "zero_tf = \<lparr>tf_ra = 0, tf_sp = 0, tf_gp = 0, tf_tp = 0, tf_t0 = 0, tf_t1 = 0, tf_t2 = 0, tf_s0 = 0, tf_s1 = 0,
     tf_a0 = 0, tf_a1 = 0, tf_a2 = 0, tf_a3 = 0, tf_a4 = 0, tf_a5 = 0, tf_a6 = 0, tf_a7 = 0, tf_s2 = 0, tf_s3 = 0,
     tf_s4 = 0, tf_s5 = 0, tf_s6 = 0, tf_s7 = 0, tf_s8 = 0, tf_s9 = 0, tf_s10 = 0, tf_s11 = 0, tf_t3 = 0, tf_t4 = 0,
     tf_t5 = 0, tf_t6 = 0, tf_sepc = 0, tf_sstatus = 0\<rparr>"

text \<open>A kernel on hart 0 with agent 1 running and agents 2 and 3 queued.\<close>

definition demo_agent :: "nat \<Rightarrow> agent" where
  "demo_agent i = blank_agent\<lparr>aid := int i, atf := Some zero_tf,
     astate := (if i = 1 then AGENT_RUNNING else if i = 2 \<or> i = 3 then AGENT_RUNNABLE else AGENT_UNUSED),
     running_cpu := (if i = 1 then 0 else - 1)\<rparr>"

definition demo_kernel :: kernel where
  "demo_kernel = \<lparr>agents = map demo_agent [0..<12], agent_count = 3, cpu_current = [Some 1, None, None, None],
     cpu_rq = [[2, 3], [], [], []], rr_next = 0, kernel_sched_ready = False, online_harts = 1,
     hart_ticks = [0, 0, 0, 0], cpu_satp = [0, 0, 0, 0], kvm = boot_vm, kquota = quota_init, kfs = blank_fs,
     kpol = open_policy, kdisk = demo_persist, uart_out = [], uart_in = [], ktime = 0, kgp = 0,
     junk_check = [], junk_run = [], halted = False, kbuf_oob = False,
     kworld = offline, remote_enabled = False, llm_stream_buf = []\<rparr>"

lemma nat_less_4: "(n :: nat) < 4 \<longleftrightarrow> n = 0 \<or> n = 1 \<or> n = 2 \<or> n = 3"
  by auto

lemma demo_kernel_agents [simp]:
  "i < 12 \<Longrightarrow> agents demo_kernel ! i = demo_agent i" "i < 12 \<Longrightarrow> agent_at demo_kernel i = demo_agent i"
  "length (agents demo_kernel) = 12"
  by (simp_all add: demo_kernel_def agent_at_def)

lemma demo_kernel_fields [simp]:
  "cpu_current demo_kernel = [Some 1, None, None, None]" "cpu_rq demo_kernel = [[2, 3], [], [], []]"
  "cpu_satp demo_kernel = [0, 0, 0, 0]" "rr_next demo_kernel = 0" "kernel_sched_ready demo_kernel = False"
  by (simp_all add: demo_kernel_def)

lemma demo_kernel_home: "home_inv demo_kernel"
  by (rule home_invI)
    (auto simp: kernel_wf_def nat_less_4 demo_agent_def blank_agent_def)

lemma demo_turn: "schedule_turn demo_kernel 0 None = (fst (schedule_turn demo_kernel 0 None), Turn_run 2)"
proof -
  have m: "msgbox_empty (inbox (demo_agent i))" for i
    by (simp add: demo_agent_def blank_agent_def blank_box_def msgbox_empty_def)
  have p: "preempt demo_kernel (Some (Suc 0)) None = sched_rq_add (upd_agent demo_kernel (Suc 0)
      (\<lambda>a. a\<lparr>astate := AGENT_RUNNABLE, running_cpu := - 1\<rparr>)) (Suc 0)"
    by (simp add: preempt_def trapframe_store_def Let_def demo_agent_def)
  let ?k = "preempt demo_kernel (Some (Suc 0)) None"
  have at: "agent_at ?k i = (if i = Suc 0 then (demo_agent (Suc 0))\<lparr>astate := AGENT_RUNNABLE, running_cpu := - 1\<rparr>
      else demo_agent i)" if "i < 12" for i
    unfolding p using that by simp
  have q: "cpu_rq ?k ! 0 = [2, 3, 1]"
    unfolding p by (simp add: sched_rq_add_def Let_def rq_cpu_def demo_agent_def blank_agent_def)
  have "find (mail_for ?k 0) [0..<12] = None"
    by (auto simp: find_None_iff mail_for_def Let_def at m)
  moreover have "pick_from_runqueues ?k 0 = Some 2"
    by (simp add: pick_from_runqueues_def q agent_get_def at demo_agent_def)
  ultimately have "schedule_turn demo_kernel 0 None = switch_to ?k 0 2"
    by (simp add: schedule_turn_def cur_idx_def pick_next_def)
  moreover have "snd (switch_to ?k 0 2) = Turn_run 2"
    using switch_to_run(4) [OF home_invD(1) [OF preempt_home [OF demo_kernel_home, of 0]], of 0 2 None]
    by (simp add: cur_idx_def at demo_agent_def)
  ultimately show ?thesis by (simp add: prod_eq_iff)
qed

theorem schedule_turn_switch_sound_witness:
  "let k' = fst (schedule_turn demo_kernel 0 None) in
   home_inv k' \<and> cur_idx k' 0 = Some 2 \<and> (\<forall>h' < 4. h' \<noteq> 0 \<longrightarrow> cur_idx k' h' \<noteq> Some 2) \<and>
   astate (agent_at k' 2) = AGENT_RUNNING \<and> atf (agent_at k' 2) = Some zero_tf"
proof -
  have "frame_after demo_kernel 0 None 2 = Some zero_tf" by (simp add: frame_after_def demo_agent_def)
  then show ?thesis using schedule_turn_switch_sound [OF demo_kernel_home _ demo_turn] by (simp add: Let_def)
qed

section \<open>Wake-ups and waiting\<close>

text \<open>A turn gives up only when no agent of the hart has anything to do.\<close>

lemma schedule_turn_idle:
  assumes "home_inv k" "h < 4" "\<forall>i. atf (agent_at k i) \<noteq> None \<or> 12 \<le> i"
    "\<And>i. snd (schedule_turn k h tf) \<noteq> Turn_run i" "j < 12" "home_cpu (agent_at k j) = int h"
  shows "astate (agent_at k j) \<noteq> AGENT_RUNNABLE"
    "sched_agent_has_inbox (agent_at k j) \<Longrightarrow> msgbox_empty (inbox (agent_at k j))"
    "cur_idx k h = Some j \<Longrightarrow> astate (agent_at k j) \<noteq> AGENT_RUNNING"
proof -
  let ?p = "preempt k (cur_idx k h) tf"
  note wf = home_invD(1) [OF assms(1)]
  note b = cur_bound [OF wf, of h]
  note pa = preempt_agent [OF wf, of "cur_idx k h", where tf = tf]
  have "pick_next ?p h = (?p, None)"
  proof (rule schedule_turn_cases [OF assms(1,2), of tf])
    fix k1 i
    assume sw: "home_inv k1" "i < 12" "pick_next ?p h = (k1, Some i)" "schedule_turn k h tf = switch_to k1 h i"
    have "kept (agent_at ?p i) (agent_at k1 i)"
      using pick_next_home(6) [OF preempt_home [OF assms(1)] assms(2) sw(3)] .
    moreover have "kept (agent_at k i) (agent_at ?p i)" using pa(1) b by blast
    ultimately have "atf (agent_at k1 i) \<noteq> None" using assms(3) sw(2) by (auto simp: kept_def not_less [symmetric])
    then have "snd (schedule_turn k h tf) = Turn_run i"
      using switch_to_run(4) [OF home_invD(1) [OF sw(1)] assms(2) sw(2)] sw(4) by simp
    with assms(4) show ?thesis by blast
  qed simp
  from pick_next_None(2,3) [OF this] have n: "\<not> mail_for ?p h j" "\<not> rr_candidate ?p h j"
    using assms(5) by blast+
  have kp: "inbox (agent_at ?p j) = inbox (agent_at k j)" "home_cpu (agent_at ?p j) = int h"
    using pa(1) [of j] b assms(6) by (simp_all add: kept_def)
  have st: "astate (agent_at ?p j) = (if cur_idx k h = Some j \<and> astate (agent_at k j) = AGENT_RUNNING
      then AGENT_RUNNABLE else astate (agent_at k j))"
    using pa(2) [of j] b by simp
  show "astate (agent_at k j) \<noteq> AGENT_RUNNABLE"
      "cur_idx k h = Some j \<Longrightarrow> astate (agent_at k j) \<noteq> AGENT_RUNNING"
    using n(2) kp(2) st by (auto simp: rr_candidate_def Let_def sched_agent_selectable_def)
  show "sched_agent_has_inbox (agent_at k j) \<Longrightarrow> msgbox_empty (inbox (agent_at k j))"
    using n(1) kp st by (auto simp: mail_for_def Let_def sched_agent_has_inbox_def split: if_splits)
qed

text \<open>What the scheduler does with the mail of an agent.\<close>

lemma mail_for_preempt:
  assumes "home_inv k"
  shows "mail_for (preempt k (cur_idx k h) tf) h j = mail_for k h j"
proof -
  note wf = home_invD(1) [OF assms]
  note pa = preempt_agent [OF wf cur_bound [OF wf, of h], where tf = tf and j = j]
  show ?thesis
    using pa(1,2)
    by (auto simp: mail_for_def Let_def kept_def sched_agent_has_inbox_def split: if_splits)
qed

lemma first_mail:
  assumes "mail_for k h i" "i < 12" "\<And>j. j < i \<Longrightarrow> \<not> mail_for k h j"
  shows "find (mail_for k h) [0..<12] = Some i"
  using assms by (auto simp: find_Some_iff intro!: exI [of _ i])

text \<open>The first agent of the hart with unread mail is resumed by the next turn, and still is the first one then.\<close>

lemma mail_turn:
  assumes "home_inv k" "h < 4" "i < 12" "mail_for k h i" "\<And>j. j < i \<Longrightarrow> \<not> mail_for k h j" "atf (agent_at k i) \<noteq> None"
  obtains k' where "schedule_turn k h tf = (k', Turn_run i)" "home_inv k'" "mail_for k' h i" "\<And>j. j < i \<Longrightarrow> \<not> mail_for k' h j"
    "atf (agent_at k' i) \<noteq> None" "cur_idx k' h = Some i"
proof -
  let ?p = "preempt k (cur_idx k h) tf"
  let ?up = "\<lambda>x. x\<lparr>astate := AGENT_RUNNABLE, running_cpu := - 1\<rparr>"
  note wf = home_invD(1) [OF assms(1)]
  have inv: "home_inv ?p" using assms(1) by (rule preempt_home)
  note l = kernel_wfD [OF home_invD(1) [OF inv]]
  have pn: "pick_next ?p h = (upd_agent ?p i ?up, Some i)"
    using first_mail [of ?p h i] assms(3-5) mail_for_preempt [OF assms(1)] by (simp add: pick_next_def)
  note n = pick_next_home [OF inv assms(2) pn]
  have "kept (agent_at k i) (agent_at ?p i)" using preempt_agent(1) [OF wf cur_bound [OF wf, of h]] .
  then have f: "atf (agent_at (upd_agent ?p i ?up) i) \<noteq> None" "home_cpu (agent_at (upd_agent ?p i ?up) i) = int h"
    using n(6) [of i] n(2) assms(6) by (auto simp: kept_def)
  note s = switch_to_run [OF home_invD(1) [OF n(3)] assms(2,3)]
  let ?k = "fst (switch_to (upd_agent ?p i ?up) h i)"
  have "schedule_turn k h tf = switch_to (upd_agent ?p i ?up) h i" using pn by (simp add: schedule_turn_def)
  then have t: "schedule_turn k h tf = (?k, Turn_run i)" using s(4) f(1) by (metis prod.collapse)
  have at: "agent_at ?k j = (if j = i then (agent_at ?p i)\<lparr>astate := AGENT_RUNNING, running_cpu := int h\<rparr> else agent_at ?p j)" for j
    using s(1) [of j] l(1) assms(3) by simp
  have m: "mail_for ?p h j = mail_for k h j" for j using mail_for_preempt [OF assms(1)] .
  have "mail_for ?k h i" using at [of i] m [of i] assms(4) by (auto simp: mail_for_def Let_def sched_agent_has_inbox_def)
  moreover have "\<not> mail_for ?k h j" if "j < i" for j using at [of j] m [of j] assms(5) [OF that] that by (simp add: mail_for_def)
  moreover have "cur_idx ?k h = Some i" using s(2) l(2) assms(2) by (simp add: cur_idx_def)
  moreover have "atf (agent_at ?k i) \<noteq> None" using s(1) [of i] f(1) by simp
  ultimately show thesis using that t switch_to_home [OF n(3) assms(2,3) f(2)] by blast
qed

lemma notify_agent_at:
  assumes "kernel_wf k" "i < 12" "astate (agent_at k i) \<noteq> AGENT_ZOMBIE"
  shows "agent_at (sched_notify_runnable k i) j = (if j = i then (agent_at k i)\<lparr>astate := AGENT_RUNNABLE, running_cpu := - 1\<rparr>
      else agent_at k j)"
  using assms kernel_wfD(1) [OF assms(1)] by (simp add: sched_notify_runnable_def)

lemma notify_queue:
  assumes "kernel_wf k" "i < 12" "home_cpu (agent_at k i) = int h" "h < 4" "astate (agent_at k i) \<noteq> AGENT_ZOMBIE" "length (cpu_rq k ! h) < MAX_AGENTS"
  shows "cpu_rq (sched_notify_runnable k i) ! h = (if int i \<in> set (cpu_rq k ! h) then cpu_rq k ! h else cpu_rq k ! h @ [int i])"
    "cpu_current (sched_notify_runnable k i) = cpu_current k"
proof -
  note len = kernel_wfD [OF assms(1)]
  have "aid (agent_at k i) = int i" using len(6) [OF assms(2)] by (simp add: agent_at_def)
  then show "cpu_rq (sched_notify_runnable k i) ! h = (if int i \<in> set (cpu_rq k ! h) then cpu_rq k ! h else cpu_rq k ! h @ [int i])"
      "cpu_current (sched_notify_runnable k i) = cpu_current k"
    using assms len(1,3) by (simp_all add: sched_notify_runnable_def sched_rq_add_def Let_def rq_cpu_def)
qed

section \<open>Round robin\<close>

text \<open>
  Hart \<open>h\<close> runs agent \<open>c\<close>, the queue \<open>q\<close> waits, and no agent of the hart has mail.
\<close>

definition queued :: "kernel \<Rightarrow> nat \<Rightarrow> nat \<Rightarrow> int list \<Rightarrow> bool" where
  "queued k h c q \<longleftrightarrow> home_inv k \<and> h < 4 \<and> cpu_current k ! h = Some c \<and>
     astate (agent_at k c) = AGENT_RUNNING \<and> cpu_rq k ! h = q \<and> distinct (int c # q) \<and>
     (\<forall>j \<in> set q. astate (agent_at k (nat j)) = AGENT_RUNNABLE \<and> running_cpu (agent_at k (nat j)) < 0) \<and>
     (\<forall>j < 12. home_cpu (agent_at k j) = int h \<longrightarrow>
        msgbox_empty (inbox (agent_at k j)) \<and> atf (agent_at k j) \<noteq> None)"

fun run_turns :: "kernel \<Rightarrow> nat \<Rightarrow> trapframe option list \<Rightarrow> kernel" where
  "run_turns k h [] = k"
| "run_turns k h (tf # tfs) = run_turns (fst (schedule_turn k h tf)) h tfs"

lemma queue_short:
  assumes "distinct (int c # q)" "\<forall>j \<in> set q. 0 \<le> j \<and> j < 12" "c < 12"
  shows "length q < 12"
proof -
  have "set (int c # q) \<subseteq> {0..<12}" using assms(2,3) by auto
  then have "card (set (int c # q)) \<le> card {0..<12::int}" by (intro card_mono) simp_all
  then show ?thesis using distinct_card [OF assms(1)] by simp
qed

lemma queued_preempt:
  fixes tf :: "trapframe option"
  assumes "queued k h c q"
  defines "p \<equiv> preempt k (cur_idx k h) tf"
  shows "home_inv p" "cpu_rq p ! h = q @ [int c]" "cpu_current p = cpu_current k"
    "\<And>j. kept (agent_at k j) (agent_at p j)"
    "\<And>j. j \<in> set (q @ [int c]) \<Longrightarrow> 0 \<le> j \<and> j < 12 \<and> home_cpu (agent_at p (nat j)) = int h \<and>
      astate (agent_at p (nat j)) = AGENT_RUNNABLE \<and> running_cpu (agent_at p (nat j)) < 0"
proof -
  have q: "home_inv k" "h < 4" "cpu_current k ! h = Some c" "astate (agent_at k c) = AGENT_RUNNING"
    "cpu_rq k ! h = q" "distinct (int c # q)"
    "\<forall>j \<in> set q. astate (agent_at k (nat j)) = AGENT_RUNNABLE \<and> running_cpu (agent_at k (nat j)) < 0"
    using assms(1) by (auto simp: queued_def)
  note wf = home_invD(1) [OF q(1)]
  have ci: "cur_idx k h = Some c" using q(2,3) by (simp add: cur_idx_def)
  note b = homes_bounded [OF q(1) ci]
  note pa = preempt_agent [OF wf, of "Some c", where tf = tf]
  have rng: "0 \<le> j \<and> j < 12 \<and> home_cpu (agent_at k (nat j)) = int h" if "j \<in> set (q @ [int c])" for j
    using that home_invD(3) [OF q(1,2), of j] q(5) b by (auto simp: agent_at_def)
  show "home_inv p" unfolding p_def using q(1) by (rule preempt_home)
  show "cpu_current p = cpu_current k" by (simp add: p_def)
  show kp: "kept (agent_at k j) (agent_at p j)" for j using pa(1) b by (simp add: p_def ci)
  have ts: "astate (agent_at (trapframe_store k (Some c) tf) c) = AGENT_RUNNING"
      "home_cpu (agent_at (trapframe_store k (Some c) tf) c) = int h"
      "aid (agent_at (trapframe_store k (Some c) tf) c) = int c"
    using trapframe_store_agent [OF wf, of "Some c" c tf] b q(4) kernel_wfD(6) [OF wf b(2)]
    by (simp_all add: kept_def agent_at_def)
  have "length q < 12" using queue_short [OF q(6) _ b(2)] rng by simp
  then show "cpu_rq p ! h = q @ [int c]"
    using ts b q(5,6) kernel_wfD(1,3) [OF wf]
    by (simp add: p_def ci preempt_def Let_def sched_rq_add_def rq_cpu_def)
  show "0 \<le> j \<and> j < 12 \<and> home_cpu (agent_at p (nat j)) = int h \<and>
      astate (agent_at p (nat j)) = AGENT_RUNNABLE \<and> running_cpu (agent_at p (nat j)) < 0"
    if "j \<in> set (q @ [int c])" for j
    using rng [OF that] kp [of "nat j"] pa(2,3) [of "nat j"] that q(4,7) b
    by (auto simp: kept_def p_def ci)
qed

lemma queued_turn:
  assumes "queued k h c q"
  defines "l \<equiv> q @ [int c]"
  shows "\<exists>k'. schedule_turn k h tf = (k', Turn_run (nat (hd l))) \<and> queued k' h (nat (hd l)) (tl l)"
proof -
  let ?p = "preempt k (cur_idx k h) tf"
  note p = queued_preempt [OF assms(1), where tf = tf]
  have q: "home_inv k" "h < 4" "distinct l"
      "\<forall>j < 12. home_cpu (agent_at k j) = int h \<longrightarrow> msgbox_empty (inbox (agent_at k j)) \<and> atf (agent_at k j) \<noteq> None"
    using assms by (auto simp: queued_def)
  obtain x xs where l: "l = x # xs" unfolding l_def by (cases q) auto
  have xp: "0 \<le> x \<and> x < 12 \<and> home_cpu (agent_at ?p (nat x)) = int h \<and>
      astate (agent_at ?p (nat x)) = AGENT_RUNNABLE \<and> running_cpu (agent_at ?p (nat x)) < 0"
    by (rule p(5)) (metis l l_def list.set_intros(1))
  have quiet: "msgbox_empty (inbox (agent_at ?p j)) \<and> atf (agent_at ?p j) \<noteq> None"
    if "j < 12" "home_cpu (agent_at ?p j) = int h" for j
    using q(4) that p(4) [of j] by (auto simp: kept_def)
  have "find (mail_for ?p h) [0..<12] = None" using quiet by (auto simp: find_None_iff mail_for_def Let_def)
  moreover have "pick_from_runqueues ?p h = Some (nat x)"
    using xp p(2) l q(2) by (simp add: pick_from_runqueues_def l_def [symmetric] agent_get_def)
  ultimately have pick: "pick_next ?p h = (?p, Some (nat x))" by (simp add: pick_next_def)
  have nx: "nat x < 12" using xp by (simp add: nat_less_iff)
  note wf = home_invD(1) [OF p(1)]
  note s = switch_to_run [OF wf q(2) nx]
  let ?k = "fst (switch_to ?p h (nat x))"
  have turn: "schedule_turn k h tf = (?k, Turn_run (nat x))"
  proof -
    have "schedule_turn k h tf = switch_to ?p h (nat x)" using pick by (simp add: schedule_turn_def)
    with s(4) quiet [OF nx] xp show ?thesis by (metis prod.collapse)
  qed
  have aid: "aid (agent_at ?p (nat x)) = x" using kernel_wfD(6) [OF wf nx] xp by (simp add: agent_at_def)
  have rq: "cpu_rq ?k ! h = xs"
    using s(3) aid xp p(2) l kernel_wfD(3) [OF wf] q(2) by (simp add: rq_cpu_def l_def [symmetric])
  have st: "agent_at ?k j = (if j = nat x then (agent_at ?p j)\<lparr>astate := AGENT_RUNNING, running_cpu := int h\<rparr>
      else agent_at ?p j)" for j
    using s(1) [of j] by simp
  have "queued ?k h (nat x) xs"
  proof -
    have inv: "home_inv ?k" using xp nx by (intro switch_to_home p(1) q(2)) simp_all
    have cur: "cpu_current ?k ! h = Some (nat x)" using s(2) kernel_wfD(2) [OF wf] q(2) by simp
    have dx: "distinct (int (nat x) # xs)" using q(3) l xp by (metis int_nat_eq)
    have "astate (agent_at ?k (nat j)) = AGENT_RUNNABLE \<and> running_cpu (agent_at ?k (nat j)) < 0"
      if "j \<in> set xs" for j
    proof -
      have "j \<in> set (q @ [int c])" using that l l_def by (metis list.set_intros(2))
      then have "0 \<le> j \<and> astate (agent_at ?p (nat j)) = AGENT_RUNNABLE \<and> running_cpu (agent_at ?p (nat j)) < 0"
        using p(5) by blast
      moreover have "nat j \<noteq> nat x" using that dx calculation xp by (auto simp: eq_nat_nat_iff)
      ultimately show ?thesis using st by simp
    qed
    moreover have "msgbox_empty (inbox (agent_at ?k j)) \<and> atf (agent_at ?k j) \<noteq> None"
      if "j < 12" "home_cpu (agent_at ?k j) = int h" for j
      using that quiet st [of j] by (auto split: if_splits)
    ultimately show ?thesis using inv cur dx rq st q(2) by (simp add: queued_def)
  qed
  with turn l show ?thesis by simp
qed

lemma run_turns_queued:
  assumes "queued k h c q" "length tfs = Suc n"
  shows "cur_idx (run_turns k h tfs) h = Some (nat ((q @ [int c]) ! (n mod length (q @ [int c]))))"
  using assms
proof (induction n arbitrary: k c q tfs)
  case 0
  then obtain tf where "tfs = [tf]" by (auto simp: length_Suc_conv)
  with queued_turn [OF 0(1), of tf] show ?case
    by (auto simp: queued_def cur_idx_def hd_conv_nth)
next
  case (Suc n)
  let ?l = "q @ [int c]"
  obtain tf tfs' where t: "tfs = tf # tfs'" "length tfs' = Suc n" using Suc.prems(2) by (auto simp: length_Suc_conv)
  obtain k' where k': "schedule_turn k h tf = (k', Turn_run (nat (hd ?l)))" "queued k' h (nat (hd ?l)) (tl ?l)"
    using queued_turn [OF Suc.prems(1), of tf] by blast
  have "0 \<le> hd ?l" using queued_preempt(5) [OF Suc.prems(1), of "hd ?l"] by (cases q) auto
  then have l: "tl ?l @ [int (nat (hd ?l))] = rotate1 ?l" by (cases q) simp_all
  have "cur_idx (run_turns k' h tfs') h = Some (nat (rotate1 ?l ! (n mod length ?l)))"
    using Suc.IH [OF k'(2) t(2)] unfolding l by simp
  moreover have "rotate1 ?l ! (n mod length ?l) = ?l ! (Suc n mod length ?l)"
    using nth_rotate1 [of "n mod length ?l" ?l] by (simp add: mod_Suc_eq)
  ultimately show ?case using t(1) k'(1) by simp
qed

text \<open>Mail comes first at every turn: as long as the first agent with unread mail leaves it unread, all turns of the hart resume it, and no
  other agent of the hart runs, however long it has been in the run queue.\<close>

lemma mail_starves:
  assumes "home_inv k" "h < 4" "i < 12" "mail_for k h i" "\<And>j. j < i \<Longrightarrow> \<not> mail_for k h j" "atf (agent_at k i) \<noteq> None" "tfs \<noteq> []"
  shows "cur_idx (run_turns k h tfs) h = Some i"
  using assms
proof (induction tfs arbitrary: k)
  case (Cons tf tfs)
  obtain k' where k': "schedule_turn k h tf = (k', Turn_run i)" "home_inv k'" "mail_for k' h i" "\<And>j. j < i \<Longrightarrow> \<not> mail_for k' h j"
    "atf (agent_at k' i) \<noteq> None" "cur_idx k' h = Some i" using mail_turn [OF Cons.prems(1-6), of tf] by blast
  show ?case
  proof (cases "tfs = []")
    case True
    with k' show ?thesis by simp
  next
    case False
    with Cons.IH [OF k'(2) Cons.prems(2,3) k'(3,4,5)] k'(1) show ?thesis by simp
  qed
qed simp

lemma queued_notify:
  assumes "queued k h c q" "i < 12" "home_cpu (agent_at k i) = int h" "i \<noteq> c" "astate (agent_at k i) \<noteq> AGENT_ZOMBIE"
  shows "queued (sched_notify_runnable k i) h c (if int i \<in> set q then q else q @ [int i])"
proof -
  let ?k = "sched_notify_runnable k i"
  have q: "home_inv k" "h < 4" "cpu_current k ! h = Some c" "astate (agent_at k c) = AGENT_RUNNING"
    "cpu_rq k ! h = q" "distinct (int c # q)"
    "\<forall>j \<in> set q. astate (agent_at k (nat j)) = AGENT_RUNNABLE \<and> running_cpu (agent_at k (nat j)) < 0"
    "\<forall>j < 12. home_cpu (agent_at k j) = int h \<longrightarrow> msgbox_empty (inbox (agent_at k j)) \<and> atf (agent_at k j) \<noteq> None"
    using assms(1) by (auto simp: queued_def)
  note wf = home_invD(1) [OF q(1)]
  have c: "c < 12" using cur_bound [OF wf, of h c] q(2,3) by (simp add: cur_idx_def)
  have "length q < 12" using queue_short [OF q(6) _ c] home_invD(3) [OF q(1,2)] q(5) by blast
  then have Q: "cpu_rq ?k ! h = (if int i \<in> set q then q else q @ [int i])" "cpu_current ?k = cpu_current k"
    using notify_queue [OF wf assms(2,3) q(2) assms(5)] q(5) by simp_all
  note at = notify_agent_at [OF wf assms(2,5)]
  have inv: "home_inv ?k" using assms(2,3) q(1,2) by (intro notify_home) simp_all
  have "astate (agent_at ?k (nat j)) = AGENT_RUNNABLE \<and> running_cpu (agent_at ?k (nat j)) < 0" if "j \<in> set (cpu_rq ?k ! h)" for j
    using that at [of "nat j"] q(7) Q(1) by (auto split: if_splits)
  moreover have "msgbox_empty (inbox (agent_at ?k j)) \<and> atf (agent_at ?k j) \<noteq> None" if "j < 12" "home_cpu (agent_at ?k j) = int h" for j
    using that at [of j] q(8) assms(3) by (auto split: if_splits)
  moreover have "distinct (int c # (if int i \<in> set q then q else q @ [int i]))" using q(6) assms(4) by auto
  ultimately show ?thesis using inv q(2-4) Q at [of c] assms(4) by (simp add: queued_def)
qed

lemma notified_turns:
  assumes "queued k h c q" "i < 12" "home_cpu (agent_at k i) = int h" "i \<noteq> c" "astate (agent_at k i) \<noteq> AGENT_ZOMBIE"
  shows "\<exists>n \<le> length q. \<forall>tfs. length tfs = Suc n \<longrightarrow> cur_idx (run_turns (sched_notify_runnable k i) h tfs) h = Some i"
proof -
  define l where "l = (if int i \<in> set q then q else q @ [int i])"
  have "int i \<in> set l" by (simp add: l_def)
  then obtain n where n: "n < length l" "l ! n = int i" by (metis in_set_conv_nth)
  have "cur_idx (run_turns (sched_notify_runnable k i) h tfs) h = Some i" if "length tfs = Suc n" for tfs
    using run_turns_queued [OF queued_notify [OF assms, folded l_def] that] n by (simp add: nth_append)
  moreover have "n \<le> length q" using n(1) by (auto simp: l_def split: if_splits)
  ultimately show ?thesis by blast
qed



lemma demo_queued: "queued demo_kernel 0 1 [2, 3]"
  using demo_kernel_home
  by (auto simp: queued_def demo_agent_def blank_agent_def blank_box_def msgbox_empty_def)



section \<open>Shutdown\<close>

text \<open>
  On one hart \<open>scheduler_run_first\<close> does not set \<open>kernel_sched_ready\<close>, and once every agent has
  finished each turn waits again: the shutdown message is never reached.
\<close>

lemma single_hart_never_halts:
  assumes "kernel_wf k" "\<not> kernel_sched_ready k"
    "\<forall>j < 12. astate (agent_at k j) = AGENT_UNUSED \<or> astate (agent_at k j) = AGENT_ZOMBIE" "cur_idx k h = None"
  shows "schedule_turn k h tf = (k, Turn_wait) \<and>
    (smp_online_count k \<le> 1 \<longrightarrow> kernel_sched_ready (fst (scheduler_run_first k h i)) = kernel_sched_ready k)"
proof -
  have "find (mail_for k h) [0..<12] = None"
    using assms(3) by (force simp: find_None_iff mail_for_def Let_def sched_agent_has_inbox_def)
  moreover have "pick_from_runqueues k h = None"
  proof (rule ccontr)
    assume "pick_from_runqueues k h \<noteq> None"
    then obtain j where j: "pick_from_runqueues k h = Some j" by blast
    then have "j < 12"
      by (auto simp: pick_from_runqueues_def find_Some_iff split: if_splits option.splits dest!: agent_get_SomeD)
    with pick_from_runqueues_SomeD(2) [OF j] assms(3) show False by auto
  qed
  moreover have "find (\<lambda>p. rr_candidate k h ((rr_next k + p) mod 12)) [0..<12] = None"
  proof -
    have "\<not> rr_candidate k h j" if "j < 12" for j
      using assms(3) that by (auto simp: rr_candidate_def Let_def)
    then show ?thesis by (simp add: find_None_iff)
  qed
  ultimately have "schedule_turn k h tf = (k, Turn_wait)"
    using assms(2,4) by (simp add: schedule_turn_def preempt_def trapframe_store_def pick_next_def Let_def)
  then show ?thesis
    by (simp add: scheduler_run_first_def Let_def vm_activate_def agent_set_current_def)
qed

end
