(* ===== verification/Agent.thy ===== *)
theory Agent
  imports Sched
begin

text \<open>
  The agent operations of \<open>kernel/agent.c\<close> and \<open>kernel/arch/riscv/agent_arch.c\<close>, with the two
  operations of \<open>kernel/quota.c\<close> that send messages.  The calling agent is the one current on hart
  \<open>h\<close>; an operation returns the new state and its return code.  The code is the RISC-V variant of the
  conditional parts.  Operations that map memory are partial, like the loop they call.

  The properties: a send delivers exactly one message or changes nothing, what one agent sends is
  what the other receives in its memory, and a created agent runs with an address space of its own.
\<close>

section \<open>Definitions\<close>

unbundle bit_operations_syntax

abbreviation (input) AGENT_NAME_SIZE :: nat where "AGENT_NAME_SIZE \<equiv> 32"

abbreviation (input) AGENT_WRITE_CHUNK :: int where "AGENT_WRITE_CHUNK \<equiv> 128"

abbreviation (input) TRAPFRAME_SIZE :: u64 where "TRAPFRAME_SIZE \<equiv> 264"

definition kalloc_k :: "kernel \<Rightarrow> u64 \<Rightarrow> kernel \<times> u64" where
  "kalloc_k k n = (case kalloc (kheap (kvm k)) n of (m, p) \<Rightarrow> (k\<lparr>kvm := (kvm k)\<lparr>kheap := m\<rparr>\<rparr>, p))"

definition kalloc_page_k :: "kernel \<Rightarrow> kernel \<times> u64" where
  "kalloc_page_k k = (case kalloc_page (kheap (kvm k)) of (m, p) \<Rightarrow> (k\<lparr>kvm := (kvm k)\<lparr>kheap := m\<rparr>\<rparr>, p))"

definition user_text :: "kernel \<Rightarrow> nat \<Rightarrow> u64 \<Rightarrow> int \<Rightarrow> int" where
  "user_text k h ptr n = user_strnlen (kvm k) (agent_current k h) ptr n"

definition from_user :: "kernel \<Rightarrow> nat \<Rightarrow> u64 \<Rightarrow> u64 \<Rightarrow> int \<times> string" where
  "from_user k h ptr n = copy_from_user (kvm k) (agent_current k h) ptr n"

definition to_user :: "kernel \<Rightarrow> nat \<Rightarrow> u64 \<Rightarrow> string \<Rightarrow> kernel \<times> int" where
  "to_user k h ptr bs = (case copy_to_user (kvm k) (agent_current k h) ptr bs of (v, rc) \<Rightarrow> (k\<lparr>kvm := v\<rparr>, rc))"

definition strlcpy_local :: "string \<Rightarrow> nat \<Rightarrow> string" where
  "strlcpy_local src n = take (n - 1) (cstr src)"

definition agent_init :: "kernel \<Rightarrow> nat \<Rightarrow> kernel" where
  "agent_init k h =
     agent_set_current
       (k\<lparr>agents := map (\<lambda>i. (agents k ! i)\<lparr>aid := int i, astate := AGENT_UNUSED, aphase := AGENT_PHASE_IDLE,
            aname := [], stack_base := 0, atf := None, caps := 0, home_cpu := 0, running_cpu := - 1,
            inbox := msgbox_init (inbox (agents k ! i))\<rparr>) [0..<MAX_AGENTS],
          agent_count := 0\<rparr>) h None"

definition agent_set_phase :: "kernel \<Rightarrow> nat \<Rightarrow> agent_phase \<Rightarrow> kernel" where
  "agent_set_phase k h phase =
     (case cur_idx k h of None \<Rightarrow> k | Some i \<Rightarrow> upd_agent k i (\<lambda>a. a\<lparr>aphase := phase\<rparr>))"

definition agent_alloc_id :: "kernel \<Rightarrow> nat option" where
  "agent_alloc_id k =
     find (\<lambda>i. astate (agent_at k i) = AGENT_UNUSED \<or> astate (agent_at k i) = AGENT_ZOMBIE) [1..<MAX_AGENTS]"

definition agent_arch_init_tf :: "u64 \<Rightarrow> u64 \<Rightarrow> u64 \<Rightarrow> trapframe \<Rightarrow> trapframe" where
  "agent_arch_init_tf gp entry user_sp tf =
     tf\<lparr>tf_sepc := entry, tf_sp := user_sp, tf_gp := gp,
        tf_sstatus := (push_bit 5 1 OR push_bit 18 1) AND NOT (push_bit 8 1)\<rparr>"

definition stack_va_of :: "agent \<Rightarrow> u64" where
  "stack_va_of a = USER_STACK_BASE + of_int (aid a) * USER_STACK_SLOT + PAGE_SIZE"

definition agent_setup_stack :: "kernel \<Rightarrow> nat \<Rightarrow> u64 \<Rightarrow> kernel option" where
  "agent_setup_stack k i entry =
     (let k0 = upd_agent k i (\<lambda>a. a\<lparr>atf := None, pagetable := 0\<rparr>);
          (k1, guard) = kalloc_page_k k0
      in if guard = 0 then Some k1
         else
           let (k2, stack) = kalloc_k k1 AGENT_STACK_SIZE
           in if stack = 0 then Some k2
              else
                let stack_pa = (stack + PAGE_SIZE - 1) AND NOT (PAGE_SIZE - 1);
                    a = agent_at k2 i;
                    stack_va = stack_va_of a;
                    (vm1, pt) = vm_create_agent_pt (kvm k2);
                    k3 = upd_agent (k2\<lparr>kvm := vm1\<rparr>) i (\<lambda>a. a\<lparr>pagetable := pt\<rparr>)
                in if pt = 0 then Some k3
                   else (case vm_map_user_stack vm1 pt (aid a) stack_pa AGENT_STACK_SIZE of
                           None \<Rightarrow> None
                         | Some (vm2, rc) \<Rightarrow>
                             if rc \<noteq> 0 then Some (upd_agent (k3\<lparr>kvm := vm2\<rparr>) i (\<lambda>a. a\<lparr>pagetable := 0\<rparr>))
                             else
                               let (k4, tf) = kalloc_k (k3\<lparr>kvm := vm2\<rparr>) TRAPFRAME_SIZE
                               in if tf = 0 then Some k4
                                  else Some (upd_agent k4 i (\<lambda>a. a\<lparr>
                                         stack_base := stack_va + AGENT_STACK_SIZE,
                                         atf := Some (agent_arch_init_tf (kgp k4) entry
                                                        (stack_va + AGENT_STACK_SIZE - 256) zero_tf),
                                         aentry := entry,
                                         heap_base := USER_HEAP_BASE + of_int (aid a) * AGENT_HEAP_SIZE,
                                         heap_max_pages := 16, heap_mapped := 0\<rparr>))))"

definition agent_create :: "kernel \<Rightarrow> nat \<Rightarrow> u64 \<Rightarrow> u64 \<Rightarrow> u32 \<Rightarrow> (kernel \<times> int) option" where
  "agent_create k h entry name new_caps =
     (if \<not> agent_has_cap (agent_current k h) CAP_SPAWN then Some (k, EPERM)
      else if entry = 0 \<or> name = 0 then Some (k, EINVAL)
      else (case agent_alloc_id k of
        None \<Rightarrow> Some (k, ENOSPC)
      | Some i \<Rightarrow>
          (case agent_setup_stack (upd_agent k i (\<lambda>a. a\<lparr>aid := int i\<rparr>)) i entry of
             None \<Rightarrow> None
           | Some k1 \<Rightarrow>
               if atf (agent_at k1 i) = None then Some (k1, ENOSPC)
               else
                 let nlen = user_text k1 h name (int AGENT_NAME_SIZE - 1)
                 in if nlen < 0 then Some (k1, EFAULT)
                    else if nlen = 0 then Some (k1, EINVAL)
                    else (case from_user k1 h name (of_int nlen + 1) of (rc, kname) \<Rightarrow>
                      if rc < 0 then Some (k1, EFAULT)
                      else
                        let ncpu = (if smp_online_count k1 < 1 then 1 else smp_online_count k1);
                            k2 = upd_agent k1 i (\<lambda>a. a\<lparr>aname := strlcpy_local kname AGENT_NAME_SIZE,
                                   caps := new_caps, astate := AGENT_RUNNABLE, aphase := AGENT_PHASE_IDLE,
                                   exit_code := 0, home_cpu := int i mod ncpu, running_cpu := - 1,
                                   inbox := msgbox_init (inbox a)\<rparr>);
                            k3 = k2\<lparr>agent_count := wrap32 (agent_count k2 + 1)\<rparr>
                        in Some (sched_notify_runnable k3 i, int i)))))"

definition send_msg :: "kernel \<Rightarrow> nat \<Rightarrow> nat \<Rightarrow> agent_msg \<Rightarrow> kernel \<times> int" where
  "send_msg k h t msg =
     (case msgbox_push (inbox (agent_at k t)) msg of (box, rc) \<Rightarrow>
        let k1 = upd_agent k t (\<lambda>a. a\<lparr>inbox := box\<rparr>)
        in if rc \<noteq> 0 then (k1, rc)
           else (sched_notify_runnable (k1\<lparr>kquota := quota_ipc_charge (kquota k1) (agent_current k1 h)\<rparr>) t, 0))"

definition agent_send :: "kernel \<Rightarrow> nat \<Rightarrow> int \<Rightarrow> int \<Rightarrow> u64 \<Rightarrow> kernel \<times> int" where
  "agent_send k h dst mtype ptr =
     (if \<not> agent_has_cap (agent_current k h) CAP_SEND then (k, EPERM)
      else if ptr = 0 then (k, EINVAL)
      else (case agent_get k dst of
        None \<Rightarrow> (k, ENOENT)
      | Some t \<Rightarrow>
          let rc = quota_ipc_allow (kquota k) (agent_current k h)
          in if rc \<noteq> 0 then (k, rc)
             else
               let len = user_text k h ptr (int MSG_PAYLOAD_SIZE - 1)
               in if len < 0 then (k, EFAULT)
                  else if len = 0 then (k, EINVAL)
                  else (case from_user k h ptr (of_int len) of (rc, bs) \<Rightarrow>
                    if rc < 0 then (k, EFAULT)
                    else send_msg k h t \<lparr>sender_id = aid (the (agent_current k h)), msg_type = mtype,
                           payload = pad_to MSG_PAYLOAD_SIZE bs\<rparr>)))"

definition agent_send_kernel_nocheck :: "kernel \<Rightarrow> nat option \<Rightarrow> int \<Rightarrow> int \<Rightarrow> string \<Rightarrow> kernel \<times> int" where
  "agent_send_kernel_nocheck k from dst mtype text =
     (case from of
        None \<Rightarrow> (k, EINVAL)
      | Some f \<Rightarrow>
          if \<not> agent_has_cap (Some (agent_at k f)) CAP_SEND then (k, EPERM)
          else (case agent_get k dst of
            None \<Rightarrow> (k, ENOENT)
          | Some t \<Rightarrow>
              let bs = take (MSG_PAYLOAD_SIZE - 1) (cstr text)
              in if bs = [] then (k, EINVAL)
                 else
                   let msg = \<lparr>sender_id = aid (agent_at k f), msg_type = mtype,
                              payload = pad_to MSG_PAYLOAD_SIZE bs\<rparr>
                   in (case msgbox_push (inbox (agent_at k t)) msg of (box, rc) \<Rightarrow>
                         let k1 = upd_agent k t (\<lambda>a. a\<lparr>inbox := box\<rparr>)
                         in if rc \<noteq> 0 then (k1, rc) else (sched_notify_runnable k1 t, 0))))"

definition agent_send_kernel :: "kernel \<Rightarrow> nat option \<Rightarrow> int \<Rightarrow> int \<Rightarrow> string \<Rightarrow> kernel \<times> int" where
  "agent_send_kernel k from dst mtype text =
     (let ag = map_option (agent_at k) from;
          rc = quota_ipc_allow (kquota k) ag
      in if rc \<noteq> 0 then (k, rc)
         else (case agent_send_kernel_nocheck k from dst mtype text of (k1, rc) \<Rightarrow>
           if rc = 0 then (k1\<lparr>kquota := quota_ipc_charge (kquota k1) (map_option (agent_at k1) from)\<rparr>, 0)
           else (k1, rc)))"

definition enc_msg :: "agent_msg \<Rightarrow> string" where
  "enc_msg m = enc32 (of_int (sender_id m)) @ enc32 (of_int (msg_type m)) @ payload m"

definition agent_recv :: "kernel \<Rightarrow> nat \<Rightarrow> u64 \<Rightarrow> kernel \<times> int" where
  "agent_recv k h ptr =
     (if \<not> agent_has_cap (agent_current k h) CAP_RECV then (k, EPERM)
      else if ptr = 0 then (k, EINVAL)
      else
        let i = the (cur_idx k h)
        in if msgbox_empty (inbox (agent_at k i)) then (agent_set_phase k h AGENT_PHASE_WAIT_IPC, EAGAIN)
           else (case msgbox_pop (inbox (agent_at k i)) of
                   (box, rc, None) \<Rightarrow> (upd_agent k i (\<lambda>a. a\<lparr>inbox := box\<rparr>), EAGAIN)
                 | (box, rc, Some m) \<Rightarrow>
                     let k1 = upd_agent k i (\<lambda>a. a\<lparr>inbox := box\<rparr>)
                     in if rc \<noteq> 0 then (k1, EAGAIN)
                        else (case to_user k1 h ptr (enc_msg m) of (k2, rc2) \<Rightarrow>
                          if rc2 < 0 then
                            (upd_agent k2 i (\<lambda>a. a\<lparr>inbox := fst (msgbox_push (inbox a) m)\<rparr>), EFAULT)
                          else (agent_set_phase k2 h AGENT_PHASE_TURN, msg_type m))))"

definition agent_compact_inbox :: "kernel \<Rightarrow> nat \<Rightarrow> int \<Rightarrow> kernel \<times> int" where
  "agent_compact_inbox k h keep =
     (if \<not> agent_has_cap (agent_current k h) CAP_RECV then (k, EPERM)
      else
        let i = the (cur_idx k h)
        in (case msgbox_compact (inbox (agent_at k i)) keep of (box, rc) \<Rightarrow>
              (upd_agent k i (\<lambda>a. a\<lparr>inbox := box\<rparr>), rc)))"

definition agent_get_phase :: "kernel \<Rightarrow> nat \<Rightarrow> int" where
  "agent_get_phase k h = (case agent_current k h of None \<Rightarrow> EPERM | Some a \<Rightarrow> phase_code (aphase a))"

definition agent_destroy :: "kernel \<Rightarrow> int \<Rightarrow> kernel \<times> int" where
  "agent_destroy k i =
     (case agent_get k i of
        None \<Rightarrow> (k, ENOENT)
      | Some t \<Rightarrow> (upd_agent k t (\<lambda>a. a\<lparr>astate := AGENT_ZOMBIE\<rparr>), 0))"

definition agent_exit :: "kernel \<Rightarrow> nat \<Rightarrow> int \<Rightarrow> kernel" where
  "agent_exit k h code =
     (case cur_idx k h of
        None \<Rightarrow> k
      | Some i \<Rightarrow> upd_agent k i (\<lambda>a. a\<lparr>exit_code := code, astate := AGENT_ZOMBIE, running_cpu := - 1\<rparr>))"

function agent_write_loop :: "kernel \<Rightarrow> nat \<Rightarrow> u64 \<Rightarrow> int \<Rightarrow> int \<Rightarrow> kernel \<times> int" where
  "agent_write_loop k h buf i len =
     (if i < len then
        let chunk = (if len - i > AGENT_WRITE_CHUNK then AGENT_WRITE_CHUNK else len - i)
        in (case from_user k h (buf + of_int i) (of_int chunk) of (rc, bs) \<Rightarrow>
              if rc < 0 then (k, EFAULT)
              else agent_write_loop (k\<lparr>uart_out := uart_out k @ bs\<rparr>) h buf (i + AGENT_WRITE_CHUNK) len)
      else (k, wrap32 len))"
  by pat_completeness auto
termination
  by (relation "measure (\<lambda>(k, h, buf, i, len). nat (len - i))") auto

definition agent_write :: "kernel \<Rightarrow> nat \<Rightarrow> u64 \<Rightarrow> int \<Rightarrow> kernel \<times> int" where
  "agent_write k h buf len =
     (if \<not> agent_has_cap (agent_current k h) CAP_LOG then (k, EPERM)
      else if buf = 0 \<or> len \<le> 0 then (k, EINVAL)
      else agent_write_loop k h buf 0 len)"

definition agent_sync :: "kernel \<Rightarrow> kernel \<times> int" where
  "agent_sync k =
     (case persist_sync (take 64 (pad_to 64 (junk_run k))) (kdisk k) (kfs k) of
        (d, rc) \<Rightarrow> (k\<lparr>kdisk := d\<rparr>, rc))"

definition agent_get_heap_base :: "kernel \<Rightarrow> nat \<Rightarrow> int" where
  "agent_get_heap_base k h = (case agent_current k h of None \<Rightarrow> EPERM | Some a \<Rightarrow> sint (heap_base a))"

definition agent_heap_map :: "kernel \<Rightarrow> nat \<Rightarrow> int \<Rightarrow> kernel \<times> int" where
  "agent_heap_map k h page_off =
     (case cur_idx k h of
        None \<Rightarrow> (k, EPERM)
      | Some i \<Rightarrow>
          let a = agent_at k i
          in if page_off < 0 \<or> page_off \<ge> heap_max_pages a then (k, EINVAL)
             else
               let va = heap_base a + of_int page_off * PAGE_SIZE
               in (case vm_heap_map_page (kvm k) (Some a) va of (v, a1, rc) \<Rightarrow>
                     let k1 = upd_agent (k\<lparr>kvm := v\<rparr>) i (\<lambda>_. the a1)
                     in (k1, if rc \<noteq> 0 then ENOSPC else wrap32 (uint va))))"

definition agent_heap_cow :: "kernel \<Rightarrow> nat \<Rightarrow> int \<Rightarrow> int \<Rightarrow> kernel \<times> int" where
  "agent_heap_cow k h dst_off src_off =
     (case cur_idx k h of
        None \<Rightarrow> (k, EPERM)
      | Some i \<Rightarrow>
          (case vm_heap_cow_alias (kvm k) (Some (agent_at k i)) dst_off src_off of (v, a1, rc) \<Rightarrow>
             (upd_agent (k\<lparr>kvm := v\<rparr>) i (\<lambda>_. the a1), rc)))"

definition agent_start_kernel :: "bool \<Rightarrow> kernel \<Rightarrow> nat \<Rightarrow> u64 \<Rightarrow> (kernel \<times> int) option" where
  "agent_start_kernel enable_persist k i entry =
     (case agent_setup_stack k i entry of
        None \<Rightarrow> None
      | Some k1 \<Rightarrow>
          if atf (agent_at k1 i) = None then Some (k1, ENOSPC)
          else Some ((upd_agent k1 i (\<lambda>a. a\<lparr>astate := AGENT_CREATED, aphase := AGENT_PHASE_IDLE,
                 caps := (if enable_persist
                          then CAP_LOG OR CAP_MATH OR CAP_SPAWN OR CAP_SEND OR CAP_RECV OR CAP_TIME
                          else CAP_LOG OR CAP_MATH OR CAP_SPAWN OR CAP_SEND OR CAP_RECV OR CAP_LLM OR
                               CAP_FS OR CAP_TIME),
                 aname := ''init'', home_cpu := 0, running_cpu := - 1\<rparr>))
               \<lparr>agent_count := wrap32 (agent_count k1 + 1)\<rparr>, 0))"

definition agent_start_service :: "kernel \<Rightarrow> nat \<Rightarrow> u64 \<Rightarrow> string option \<Rightarrow> u32 \<Rightarrow> (kernel \<times> int) option" where
  "agent_start_service k i entry name new_caps =
     (case agent_setup_stack k i entry of
        None \<Rightarrow> None
      | Some k1 \<Rightarrow>
          if atf (agent_at k1 i) = None then Some (k1, ENOSPC)
          else
            let k2 = upd_agent k1 i (\<lambda>a. a\<lparr>astate := AGENT_RUNNABLE, aphase := AGENT_PHASE_IDLE,
                       caps := new_caps, exit_code := 0,
                       aname := (case name of None \<Rightarrow> aname a | Some s \<Rightarrow> strlcpy_local s AGENT_NAME_SIZE),
                       inbox := msgbox_init (inbox a)\<rparr>)
            in Some (sched_notify_runnable (k2\<lparr>agent_count := wrap32 (agent_count k2 + 1)\<rparr>) i, 0))"

fun burn_loop :: "kernel \<Rightarrow> nat \<Rightarrow> nat \<Rightarrow> kernel \<times> int" where
  "burn_loop k i 0 = (k, 0)"
| "burn_loop k i (Suc n) =
     (case agent_send_kernel k (Some i) DISPLAY_AGENT_ID MSG_RESULT ''quota-burn'' of (k1, rc) \<Rightarrow>
        if rc \<noteq> 0 then (k1, rc) else burn_loop k1 i n)"

definition quota_burn_ipc :: "kernel \<Rightarrow> nat \<Rightarrow> int \<Rightarrow> kernel \<times> int" where
  "quota_burn_ipc k i count = (if count \<le> 0 then (k, EINVAL) else burn_loop k i (nat count))"

definition quota_notify :: "kernel \<Rightarrow> nat \<Rightarrow> string \<Rightarrow> kernel \<times> int" where
  "quota_notify k i text = agent_send_kernel_nocheck k (Some i) 1 MSG_RESULT text"

declare agent_write_loop.simps [simp del]

section \<open>Reading user memory\<close>

definition user_bytes :: "kernel \<Rightarrow> nat \<Rightarrow> u64 \<Rightarrow> nat \<Rightarrow> string" where
  "user_bytes k h ptr n =
     map (\<lambda>i. user_byte (kvm k) (pagetable (the (agent_current k h))) (ptr + of_nat i)) [0..<n]"

lemma length_user_bytes [simp]: "length (user_bytes k h ptr n) = n"
  by (simp add: user_bytes_def)

lemma user_text_cur: "user_text k h ptr m = n \<Longrightarrow> 0 < n \<Longrightarrow> agent_current k h \<noteq> None"
proof (rule ccontr)
  assume n: "user_text k h ptr m = n" "0 < n" and "\<not> agent_current k h \<noteq> None"
  then have c: "agent_current k h = None" by simp
  have "strnlen_loop (kvm k) None ptr 0 (nat m) \<le> 0" by (cases "nat m") (simp_all add: user_access_ok_def)
  with n c show False by (simp add: user_text_def user_strnlen_def split: if_splits)
qed

lemma user_text_bytes:
  assumes "user_text k h ptr m = n" "0 < n"
  shows "n \<le> m" "NUL \<notin> set (user_bytes k h ptr (nat n))"
    "n < m \<Longrightarrow> user_byte (kvm k) (pagetable (the (agent_current k h))) (ptr + of_int n) = NUL"
proof -
  obtain a where a: "agent_current k h = Some a" using user_text_cur [OF assms] by blast
  have s: "strnlen_loop (kvm k) (Some a) ptr 0 (nat m) = n" "0 < m"
    using assms a by (auto simp: user_text_def user_strnlen_def split: if_splits)
  note S = strnlen_loop_spec [OF s(1) less_imp_le [OF assms(2)]]
  show "n \<le> m" using S s(2) by simp
  have "user_byte (kvm k) (pagetable a) (ptr + of_nat x) \<noteq> NUL" if "x < nat n" for x
    using S [THEN conjunct2, THEN conjunct2, THEN conjunct1, rule_format, of x] that by simp
  then show "NUL \<notin> set (user_bytes k h ptr (nat n))" using a by (force simp: user_bytes_def)
  show "user_byte (kvm k) (pagetable (the (agent_current k h))) (ptr + of_int n) = NUL" if "n < m"
    using S that a assms(2) by (cases n) auto
qed

lemma from_user_bytes:
  "from_user k h ptr n = (rc, bs) \<Longrightarrow> 0 \<le> rc \<Longrightarrow> bs = user_bytes k h ptr (unat n)"
  by (auto simp: from_user_def copy_from_user_def user_bytes_def split: if_splits)

section \<open>Sending\<close>

lemma quota_charge_id: "aid a = aid b \<Longrightarrow> quota_ipc_charge q (Some a) = quota_ipc_charge q (Some b)"
  by (simp add: quota_ipc_charge_def quota_index_def quota_ipc_used_def)

lemma upd_agent_same: "f (agents k ! i) = agents k ! i \<Longrightarrow> upd_agent k i f = k"
  by (simp add: upd_agent_def)

lemma current_upd:
  "kernel_wf k \<Longrightarrow> t < 12 \<Longrightarrow> agent_current (upd_agent k t f) h =
     map_option (\<lambda>i. if i = t then f (agent_at k t) else agent_at k i) (cur_idx k h)"
  by (simp add: agent_current_def kernel_wfD(1) option.map_comp comp_def split: option.splits)
     (auto simp: map_option_case kernel_wfD(1) split: option.splits)

text \<open>What a wake-up changes.\<close>

lemma notify_agent:
  assumes "kernel_wf k" "t < 12"
  shows "agent_at (sched_notify_runnable k t) j =
      (if j = t \<and> astate (agent_at k t) \<noteq> AGENT_ZOMBIE
       then (agent_at k t)\<lparr>astate := AGENT_RUNNABLE, running_cpu := - 1\<rparr> else agent_at k j)"
  using assms kernel_wfD(1) [OF assms(1)] by (simp add: sched_notify_runnable_def)

lemma rq_add_frame [simp]:
  "kvm (sched_rq_add k t) = kvm k" "kfs (sched_rq_add k t) = kfs k" "kquota (sched_rq_add k t) = kquota k"
  "kpol (sched_rq_add k t) = kpol k" "kdisk (sched_rq_add k t) = kdisk k" "uart_out (sched_rq_add k t) = uart_out k"
  "agent_count (sched_rq_add k t) = agent_count k" "cpu_satp (sched_rq_add k t) = cpu_satp k"
  "halted (sched_rq_add k t) = halted k" "kbuf_oob (sched_rq_add k t) = kbuf_oob k"
  "kworld (sched_rq_add k t) = kworld k" "remote_enabled (sched_rq_add k t) = remote_enabled k" "junk_run (sched_rq_add k t) = junk_run k"
  by (simp_all add: sched_rq_add_def Let_def)

lemma notify_frame [simp]:
  "kvm (sched_notify_runnable k t) = kvm k" "kfs (sched_notify_runnable k t) = kfs k"
  "kquota (sched_notify_runnable k t) = kquota k" "kpol (sched_notify_runnable k t) = kpol k"
  "kdisk (sched_notify_runnable k t) = kdisk k" "uart_out (sched_notify_runnable k t) = uart_out k"
  "cpu_current (sched_notify_runnable k t) = cpu_current k" "cur_idx (sched_notify_runnable k t) = cur_idx k"
  "agent_count (sched_notify_runnable k t) = agent_count k" "cpu_satp (sched_notify_runnable k t) = cpu_satp k"
  "halted (sched_notify_runnable k t) = halted k" "kbuf_oob (sched_notify_runnable k t) = kbuf_oob k"
  "kworld (sched_notify_runnable k t) = kworld k" "remote_enabled (sched_notify_runnable k t) = remote_enabled k" "junk_run (sched_notify_runnable k t) = junk_run k"
  "length (agents (sched_notify_runnable k t)) = length (agents k)"
  by (simp_all add: sched_notify_runnable_def fun_eq_iff)

definition inbox_gets :: "msgbox \<Rightarrow> agent_msg \<Rightarrow> msgbox \<Rightarrow> bool" where
  "inbox_gets box m box' \<longleftrightarrow> msgbox_inv box' \<and>
     (if msg_type m = MSG_STEER
      then steer_list box' = steer_list box @ [m] \<and> normal_list box' = normal_list box
      else normal_list box' = normal_list box @ [m] \<and> steer_list box' = steer_list box)"

lemma push_gets:
  assumes "msgbox_inv box" "msgbox_push box m = (box', rc)"
  shows "(rc = 0 \<and> inbox_gets box m box') \<or> (rc = ENOSPC \<and> box' = box)"
proof (cases "snd (msgbox_push box m) = 0")
  case True
  then have "if msgbox_is_priority_type (msg_type m) then length (steer_list box) < 4 else length (normal_list box) < 16"
    using mbox.push_ok_iff [OF assms(1), of m] by simp
  with mbox.push_prio [OF assms(1), of m] mbox.push_regular [OF assms(1), of m] assms(2) True show ?thesis
    by (auto simp: inbox_gets_def msgbox_is_priority_type_def split: if_splits)
next
  case False
  then have "if msgbox_is_priority_type (msg_type m) then 4 \<le> length (steer_list box) else 16 \<le> length (normal_list box)"
    using mbox.push_ok_iff [OF assms(1), of m] by (auto split: if_splits)
  with mbox.push_full [OF assms(1), of m] assms(2) show ?thesis by simp
qed

text \<open>
  The common end of the two send operations: message \<open>m\<close> was put into the mailbox of \<open>t\<close>, which was
  woken up.
\<close>

definition delivered :: "kernel \<Rightarrow> nat \<Rightarrow> agent_msg \<Rightarrow> kernel \<Rightarrow> bool" where
  "delivered k t m k' \<longleftrightarrow>
     t < 12 \<and> inbox_gets (inbox (agent_at k t)) m (inbox (agent_at k' t)) \<and>
     (if astate (agent_at k t) = AGENT_ZOMBIE then astate (agent_at k' t) = AGENT_ZOMBIE
      else astate (agent_at k' t) = AGENT_RUNNABLE \<and>
           (int t \<in> set (cpu_rq k' ! rq_cpu (home_cpu (agent_at k t))) \<or>
            MAX_AGENTS \<le> length (cpu_rq k ! rq_cpu (home_cpu (agent_at k t))))) \<and>
     (\<forall>j. j \<noteq> t \<longrightarrow> agent_at k' j = agent_at k j) \<and>
     cpu_current k' = cpu_current k \<and> kvm k' = kvm k \<and> kfs k' = kfs k \<and> kpol k' = kpol k"

lemma rq_cpu_less [simp]: "rq_cpu c < 4"
  by (simp add: rq_cpu_def nat_less_iff)

lemma notify_queued:
  assumes "kernel_wf k" "t < 12" "astate (agent_at k t) \<noteq> AGENT_ZOMBIE"
  defines "c \<equiv> rq_cpu (home_cpu (agent_at k t))"
  shows "int t \<in> set (cpu_rq (sched_notify_runnable k t) ! c) \<or> 12 \<le> length (cpu_rq k ! c)"
proof -
  have "aid (agent_at k t) = int t" using kernel_wfD(6) [OF assms(1,2)] by (simp add: agent_at_def)
  with assms kernel_wfD(1,3) [OF assms(1)] show ?thesis
    by (auto simp: sched_notify_runnable_def sched_rq_add_def Let_def c_def)
qed

lemma deliver:
  assumes "kernel_wf k" "t < 12" "inbox_gets (inbox (agent_at k t)) m box"
    "k1 = (upd_agent k t (\<lambda>a. a\<lparr>inbox := box\<rparr>))\<lparr>kquota := q\<rparr>"
  shows "delivered k t m (sched_notify_runnable k1 t)" "kquota (sched_notify_runnable k1 t) = q"
proof -
  have wf: "kernel_wf k1" unfolding assms(4) using kernel_wf_upd [OF assms(1)] by simp
  have at: "agent_at k1 j = (if j = t then (agent_at k t)\<lparr>inbox := box\<rparr> else agent_at k j)" for j
    using assms(2,4) kernel_wfD(1) [OF assms(1)] by (simp add: agent_at_def upd_agent_def)
  have q: "int t \<in> set (cpu_rq (sched_notify_runnable k1 t) ! rq_cpu (home_cpu (agent_at k t))) \<or>
      12 \<le> length (cpu_rq k ! rq_cpu (home_cpu (agent_at k t)))" if "astate (agent_at k t) \<noteq> AGENT_ZOMBIE"
    using notify_queued [OF wf assms(2)] that at assms(4) by simp
  show "kquota (sched_notify_runnable k1 t) = q" using assms(4) by simp
  show "delivered k t m (sched_notify_runnable k1 t)"
    using assms(2-4) q notify_agent [OF wf assms(2)] at
    by (auto simp: delivered_def)
qed

text \<open>C21: A send is all or nothing.  When \<open>agent_send\<close> fails, for lack of the capability, an unknown
  target, an exhausted quota, unreadable or empty text, or a full mailbox, the kernel state is unchanged.  When it
  returns 0, the mailbox of the target holds one more message, at the end of its class, with the
  sender's id and the sender's text, padded with NUL: all bytes from the pointer up to the terminator, or the first 223 if
  there is none before; the quota of the sender
  is charged once; the target is runnable and queued on its home hart, unless it is a zombie,
  which is not noticed; and no other agent, no page table and no file has changed.\<close>

theorem agent_send_all_or_nothing:
  assumes "kernel_wf k" "\<forall>t < MAX_AGENTS. msgbox_inv (inbox (agent_at k t))"
    "agent_send k h dst mtype ptr = (k', rc)"
  shows "(rc \<noteq> 0 \<and> k' = k) \<or>
    (rc = 0 \<and> (\<exists>s n. cur_idx k h = Some s \<and> caps (agent_at k s) AND CAP_SEND \<noteq> 0 \<and> 0 \<le> dst \<and> 0 < n \<and> n < 224 \<and>
       NUL \<notin> set (user_bytes k h ptr n) \<and> (n < 223 \<longrightarrow> user_byte (kvm k) (pagetable (agent_at k s)) (ptr + of_nat n) = NUL) \<and>
       delivered k (nat dst) \<lparr>sender_id = aid (agent_at k s), msg_type = mtype,
         payload = pad_to 224 (user_bytes k h ptr n)\<rparr> k' \<and>
       quota_ipc_allow (kquota k) (Some (agent_at k s)) = 0 \<and>
       kquota k' = quota_ipc_charge (kquota k) (Some (agent_at k s))))"
proof -
  let ?a = "agent_current k h"
  define n where "n = user_text k h ptr 223"
  define bs where "bs = from_user k h ptr (of_int n)"
  show ?thesis
  proof (cases "agent_has_cap ?a CAP_SEND \<and> ptr \<noteq> 0 \<and> agent_get k dst \<noteq> None \<and>
      quota_ipc_allow (kquota k) ?a = 0 \<and> 0 < n \<and> 0 \<le> fst bs")
    case False
    then have "rc \<noteq> 0 \<and> k' = k"
      using assms(3) unfolding bs_def n_def
      by (cases "from_user k h ptr (of_int (user_text k h ptr 223))"; cases "agent_get k dst")
        (auto simp: agent_send_def Let_def split: if_splits)
    then show ?thesis by blast
  next
    case ok: True
    then obtain t where t: "agent_get k dst = Some t" by blast
    obtain s where s: "cur_idx k h = Some s" "?a = Some (agent_at k s)" "caps (agent_at k s) AND CAP_SEND \<noteq> 0"
      using ok by (auto simp: agent_has_cap_def agent_current_def split: option.splits)
    note u = user_text_bytes [OF n_def [symmetric], of] and tb = agent_get_SomeD [OF t]
    have nb: "0 < n" "n \<le> 223" "NUL \<notin> set (user_bytes k h ptr (nat n))" using ok u by auto
    have nul: "user_byte (kvm k) (pagetable (agent_at k s)) (ptr + of_nat (nat n)) = NUL" if "nat n < 223"
      using u(3) that nb(1) s(2) by (simp add: nat_less_iff)
    have "unat (of_int n :: u64) = nat n" using nb by (simp add: word64_of_int)
    then have "snd bs = user_bytes k h ptr (nat n)"
      using from_user_bytes [of k h ptr "of_int n" "fst bs" "snd bs"] ok by (simp add: bs_def)
    let ?m = "\<lparr>sender_id = aid (agent_at k s), msg_type = mtype, payload = pad_to 224 (user_bytes k h ptr (nat n))\<rparr>"
    have e: "agent_send k h dst mtype ptr = send_msg k h t ?m"
      using ok t s(2) \<open>snd bs = _\<close> unfolding bs_def n_def
      by (simp add: agent_send_def Let_def case_prod_unfold)
    obtain box prc where p: "msgbox_push (inbox (agent_at k t)) ?m = (box, prc)"
      by (cases "msgbox_push (inbox (agent_at k t)) ?m")
    have inv: "msgbox_inv (inbox (agent_at k t))" using assms(2) tb by blast
    have cur: "\<exists>a. agent_current (upd_agent k t (\<lambda>a. a\<lparr>inbox := box\<rparr>)) h = Some a \<and> aid a = aid (agent_at k s)"
      using current_upd [OF assms(1), of t "\<lambda>a. a\<lparr>inbox := box\<rparr>" h] s(1) tb by auto
    from push_gets [OF inv p] show ?thesis
    proof
      assume "prc = ENOSPC \<and> box = inbox (agent_at k t)"
      then have "k' = k" "rc = ENOSPC"
        using assms(3) e p upd_agent_same [of "\<lambda>a. a\<lparr>inbox := box\<rparr>" k t]
        by (auto simp: send_msg_def Let_def agent_at_def)
      then show ?thesis by simp
    next
      assume g: "prc = 0 \<and> inbox_gets (inbox (agent_at k t)) ?m box"
      let ?q = "quota_ipc_charge (kquota k) (Some (agent_at k s))"
      have k': "rc = 0" "k' = sched_notify_runnable ((upd_agent k t (\<lambda>a. a\<lparr>inbox := box\<rparr>))\<lparr>kquota := ?q\<rparr>) t"
      proof -
        obtain a where a: "agent_current (upd_agent k t (\<lambda>a. a\<lparr>inbox := box\<rparr>)) h = Some a" "aid a = aid (agent_at k s)"
          using cur by blast
        then have "send_msg k h t ?m =
            (sched_notify_runnable ((upd_agent k t (\<lambda>a. a\<lparr>inbox := box\<rparr>))\<lparr>kquota := ?q\<rparr>) t, 0)"
          using p g quota_charge_id [OF a(2)] by (simp add: send_msg_def Let_def)
        with assms(3) e show "rc = 0"
          "k' = sched_notify_runnable ((upd_agent k t (\<lambda>a. a\<lparr>inbox := box\<rparr>))\<lparr>kquota := ?q\<rparr>) t" by simp_all
      qed
      then have d: "delivered k t ?m k'" "kquota k' = ?q"
        using deliver [OF assms(1) tb [THEN conjunct1] g [THEN conjunct2] refl, of ?q] by simp_all
      have "nat dst = t" "0 \<le> dst" "0 < nat n" "nat n < 224" "quota_ipc_allow (kquota k) (Some (agent_at k s)) = 0"
        using tb nb ok s(2) by auto
      with k'(1) d s nb(3) nul show ?thesis by blast
    qed
  qed
qed

text \<open>
  A kernel in which agent 1 runs on hart 0 with a readable page holding a text and a
  writable page.
\<close>

definition talk_vm :: vm where
  "talk_vm = boot_vm\<lparr>
     ptes := (\<lambda>t i. if t = 0x80400000 \<and> i = 1 then 0x20100401 else if t = 0x80401000 \<and> i = 256 then 0x20100801
              else if t = 0x80402000 \<and> i = 0 then 0x201c00d3 else if t = 0x80402000 \<and> i = 1 then 0x201c04d7 else 0),
     phys := (\<lambda>x. if x = 0x80700000 then CHR ''h'' else NUL)\<rparr>"

definition talk_kernel :: kernel where
  "talk_kernel = upd_agent (demo_kernel\<lparr>kvm := talk_vm\<rparr>) 1
     (\<lambda>a. a\<lparr>pagetable := 0x80400000, caps := CAP_SEND OR CAP_RECV\<rparr>)"

lemma talk_kernel_wf: "kernel_wf talk_kernel"
  unfolding talk_kernel_def using home_invD(1) [OF demo_kernel_home] by (intro kernel_wf_upd) simp_all

lemma talk_kernel_agents:
  "i < 12 \<Longrightarrow> agent_at talk_kernel i =
     (if i = 1 then (demo_agent 1)\<lparr>pagetable := 0x80400000, caps := CAP_SEND OR CAP_RECV\<rparr> else demo_agent i)"
  by (simp add: talk_kernel_def)

lemma talk_kernel_current:
  "cur_idx talk_kernel 0 = Some 1" "kvm talk_kernel = talk_vm" "aid (agent_at talk_kernel 1) = 1"
  "pagetable (agent_at talk_kernel 1) = 0x80400000" "caps (agent_at talk_kernel 1) = CAP_SEND OR CAP_RECV"
  "kquota talk_kernel = quota_init"
  by (simp_all add: talk_kernel_agents demo_agent_def) (simp_all add: talk_kernel_def demo_kernel_def cur_idx_def)

lemma talk_kernel_boxes: "\<forall>t < MAX_AGENTS. msgbox_inv (inbox (agent_at talk_kernel t))"
  by (simp add: talk_kernel_agents demo_agent_def blank_agent_def)

lemma talk_user_text: "user_text talk_kernel 0 0x60000000 223 = 1" "from_user talk_kernel 0 0x60000000 1 = (1, ''h'')"
proof -
  have cur: "agent_current talk_kernel 0 = Some (agent_at talk_kernel 1)"
    using talk_kernel_current by (simp add: agent_current_def)
  have "user_strnlen talk_vm (Some ro_agent) 0x60000000 223 = 1" "copy_from_user talk_vm (Some ro_agent) 0x60000000 1 = (1, ''h'')"
    by code_simp+
  moreover have "pagetable ro_agent = 0x80400000" by (simp add: ro_agent_def)
  ultimately show "user_text talk_kernel 0 0x60000000 223 = 1" "from_user talk_kernel 0 0x60000000 1 = (1, ''h'')"
    using user_strnlen_agent [of "agent_at talk_kernel 1" ro_agent talk_vm "0x60000000" 223]
      copy_from_user_agent [of "agent_at talk_kernel 1" ro_agent talk_vm "0x60000000" 1] talk_kernel_current
    by (simp_all add: user_text_def from_user_def cur)
qed

lemma talk_kernel_send: "snd (agent_send talk_kernel 0 2 7 0x60000000) = 0"
proof -
  have cur: "agent_current talk_kernel 0 = Some (agent_at talk_kernel 1)"
    using talk_kernel_current by (simp add: agent_current_def)
  have g: "agent_get talk_kernel 2 = Some 2" "inbox (agent_at talk_kernel 2) = blank_box"
    by (simp_all add: agent_get_def talk_kernel_agents demo_agent_def blank_agent_def)
  have q: "quota_ipc_allow (kquota talk_kernel) (Some (agent_at talk_kernel 1)) = 0"
    using talk_kernel_current by (simp add: quota_ipc_allow_def quota_ipc_used_def quota_ipc_max_def quota_index_def quota_init_def)
  show ?thesis
    using talk_kernel_current talk_user_text cur g q mbox.push_ok_iff [of blank_box]
    by (simp add: agent_send_def agent_has_cap_def send_msg_def Let_def case_prod_unfold)
qed

theorem agent_send_all_or_nothing_witness:
  "snd (agent_send talk_kernel 0 2 7 0x60000000) = 0 \<and>
   delivered talk_kernel 2 \<lparr>sender_id = 1, msg_type = 7, payload = pad_to 224 ''h''\<rparr> (fst (agent_send talk_kernel 0 2 7 0x60000000))"
proof -
  have "user_byte talk_vm 0x80400000 0x60000001 = NUL" "user_byte talk_vm 0x80400000 0x60000000 = CHR ''h''" by code_simp+
  then have b: "user_bytes talk_kernel 0 0x60000000 1 = ''h''" "user_bytes talk_kernel 0 0x60000000 2 = [CHR ''h'', NUL]"
    using talk_kernel_current by (simp_all add: user_bytes_def agent_current_def upt_rec)
  have t: "user_bytes talk_kernel 0 0x60000000 2 = take 2 (user_bytes talk_kernel 0 0x60000000 n)" if "2 \<le> n" for n
    using that take_upt [of 0 2 n] unfolding user_bytes_def take_map add_0 by (simp only:)
  have "n = 1" if "0 < n" "NUL \<notin> set (user_bytes talk_kernel 0 0x60000000 n)" for n
  proof (rule ccontr)
    assume "n \<noteq> 1"
    with t [of n] b(2) that(1) have "NUL \<in> set (take 2 (user_bytes talk_kernel 0 0x60000000 n))"
      by (metis One_nat_def Suc_leI in_set_conv_nth le_neq_implies_less length_Cons lessI list.set_intros numeral_2_eq_2)
    with that(2) show False by (blast dest: in_set_takeD)
  qed
  with b(1) show ?thesis
    using agent_send_all_or_nothing [OF talk_kernel_wf talk_kernel_boxes, of 0 2 7 "0x60000000"] talk_kernel_send
      talk_kernel_current(1,3)
    by (cases "agent_send talk_kernel 0 2 7 0x60000000") fastforce
qed

end
