(* ===== verification/Agent_Msg.thy ===== *)
theory Agent_Msg
  imports Agent
begin

text \<open>
  Message exchange through user memory: what \<^verbatim>\<open>agent_recv\<close> hands to the receiver, and the
  read-back of bytes stored through a page table.
\<close>

section \<open>Receiving\<close>

lemma page_key_page: "unat va div 4096 = unat va' div 4096 \<Longrightarrow> page_key va = page_key va'"
proof -
  assume e: "unat va div 4096 = unat va' div 4096"
  have "vpn l va = vpn l va'" for l
    using e by (simp add: vpn_unat power_add div_mult2_eq)
  then show ?thesis by (simp add: page_key_def)
qed

lemma page_offset: "unat ((va :: u64) AND 4095) = unat va mod 4096"
proof -
  have "va AND 4095 = take_bit 12 va" by (simp add: take_bit_eq_mask mask_eq_exp_minus_1)
  then show ?thesis by (simp add: take_bit_eq_mod unat_mod)
qed

text \<open>A range that passes the check is mapped, at every byte, and no two of its bytes share a physical address
  when it is no longer than a page, even if it crosses a page boundary: their page offsets differ.\<close>

lemma check_loop_pages:
  "user_check_loop vm pt a lim wr = Some 0 \<Longrightarrow> unat a + 4096 * k < unat lim \<Longrightarrow> access_ok (leaf vm pt (a + of_nat (4096 * k))) wr"
proof (induction k arbitrary: a)
  case 0
  then show ?case by (subst (asm) user_check_unfold) (auto simp: word_less_nat_alt split: if_splits)
next
  case (Suc k)
  have "unat lim < 18446744073709551616" using unsigned_less [of lim] by simp
  then have "unat (a + 4096) = unat a + 4096" using Suc.prems(2) by (simp add: unat_word_ariths)
  moreover have "user_check_loop vm pt (a + 4096) lim wr = Some 0"
    using Suc.prems by (subst (asm) user_check_unfold) (auto simp: word_less_nat_alt split: if_splits)
  ultimately show ?case using Suc.IH [of "a + 4096"] Suc.prems(2) by (simp add: algebra_simps)
qed

lemma access_ok_mapped:
  assumes "user_access_ok vm (Some a) ptr (of_nat n) wr" "i < n" "n \<le> 4096"
  obtains e where "leaf vm (pagetable a) (ptr + of_nat i) = Some e"
proof -
  let ?b = "ptr AND NOT 4095" and ?x = "unat ptr + i" and ?l = "of_nat n :: u64"
  have n: "unat ?l = n" using assms(3) by (simp add: unat_of_nat64)
  then have "?l \<noteq> 0" using assms(2) by force
  then have c: "user_check_loop vm (pagetable a) ?b (ptr + ?l) wr = Some 0" "\<not> ptr + ?l < ptr"
    using assms(1) by (auto simp: user_access_ok_def vm_user_check_def Let_def split: if_splits)
  have lim: "unat (ptr + ?l) = unat ptr + n" using c(2) n by (metis linorder_not_less unat_plus_simple word_le_nat_alt no_olen_add_nat unat_add_lem)
  then have x: "unat ptr + n < 18446744073709551616" "unat (ptr + of_nat i) = ?x"
    using unsigned_less [of "ptr + ?l"] assms(2) by (simp_all add: unat_word_ariths unat_of_nat)
  define k where "k = ?x div 4096 - unat ptr div 4096"
  have b: "unat ?b = unat ptr div 4096 * 4096" using unat_round_down [of ptr 12] by (simp add: mask_12)
  have "unat ptr div 4096 \<le> ?x div 4096" by (simp add: div_le_mono)
  then have s: "unat ?b + 4096 * k = ?x div 4096 * 4096" unfolding b k_def by (simp only: add.commute diff_mult_distrib2 mult.commute)
  moreover have "?x div 4096 * 4096 \<le> ?x" by simp
  ultimately have lt: "unat ?b + 4096 * k < unat (ptr + ?l)" using lim assms(2) by linarith
  then have "unat (?b + of_nat (4096 * k)) = ?x div 4096 * 4096"
    using s x(1) lim by (simp add: unat_word_ariths unat_of_nat del: of_nat_mult)
  then have "leaf vm (pagetable a) (?b + of_nat (4096 * k)) = leaf vm (pagetable a) (ptr + of_nat i)"
    using x(2) by (intro leaf_key page_key_page) simp
  with check_loop_pages [OF c(1) lt] that show thesis by (auto simp: access_ok_def split: option.splits)
qed

lemma pa_offset: "leaf vm pt va = Some e \<Longrightarrow> user_pa vm pt va AND 4095 = va AND 4095"
proof -
  assume l: "leaf vm pt va = Some e"
  have "vm_pte_pa e AND 4095 = take_bit 12 (vm_pte_pa e)" by (simp add: take_bit_eq_mask mask_eq_exp_minus_1)
  also have "\<dots> = 0" by (simp add: vm_pte_pa_def take_bit_push_bit)
  finally have z: "unat (vm_pte_pa e) mod 4096 = 0" using page_offset [of "vm_pte_pa e"] by simp
  have "unat ((vm_pte_pa e + (va AND 4095)) AND 4095) = (unat (vm_pte_pa e) + unat va mod 4096) mod 4096"
    unfolding page_offset unat_word_ariths by (simp add: mod_mod_cancel page_offset)
  also have "\<dots> = unat va mod 4096" using z by (metis add_0 mod_add_left_eq mod_mod_trivial)
  finally have "(vm_pte_pa e + (va AND 4095)) AND 4095 = va AND 4095" by (simp only: word_unat_eq_iff page_offset)
  then show ?thesis using l by (simp add: user_pa_def)
qed

lemma mod_shift_inj:
  fixes u i j m :: nat
  assumes "(u + i) mod m = (u + j) mod m" "i < m" "j < m"
  shows "i = j"
proof -
  have "y \<le> x" if "(u + x) mod m = (u + y) mod m" "x < m" "y < m" for x y
  proof (rule ccontr)
    assume "\<not> y \<le> x"
    then have "m dvd y - x" using mod_eq_dvd_iff_nat [of "u + x" "u + y" m] that(1) by simp
    with \<open>\<not> y \<le> x\<close> that show False using dvd_imp_le [of m "y - x"] by linarith
  qed
  from this [OF assms] this [OF assms(1) [symmetric] assms(3,2)] show ?thesis by simp
qed

lemma user_pa_inj:
  assumes "user_access_ok vm (Some a) ptr (of_nat n) wr" "n \<le> 4096"
  shows "inj_on (\<lambda>i. user_pa vm (pagetable a) (ptr + of_nat i)) {..<n}"
proof (rule inj_onI)
  fix i j
  assume ij: "i \<in> {..<n}" "j \<in> {..<n}" and e: "user_pa vm (pagetable a) (ptr + of_nat i) = user_pa vm (pagetable a) (ptr + of_nat j)"
  obtain e1 e2 where "leaf vm (pagetable a) (ptr + of_nat i) = Some e1" "leaf vm (pagetable a) (ptr + of_nat j) = Some e2"
    using ij access_ok_mapped [OF assms(1) _ assms(2)] by (metis lessThan_iff)
  then have "(ptr + of_nat i) AND 4095 = (ptr + of_nat j) AND 4095" using e pa_offset by metis
  moreover have "unat ((ptr + of_nat x) AND 4095) = (unat ptr + x) mod 4096" if "x < 4096" for x
    unfolding page_offset using that by (simp add: unat_word_ariths unat_of_nat64 mod_mod_cancel)
  moreover have "i < 4096" "j < 4096" using ij assms(2) by auto
  ultimately have "(unat ptr + i) mod 4096 = (unat ptr + j) mod 4096" by metis
  from mod_shift_inj [OF this \<open>i < 4096\<close> \<open>j < 4096\<close>] show "i = j" .
qed

lemma store_user_read:
  "inj_on (\<lambda>i. user_pa vm pt (va + of_nat i)) {..<length cs} \<Longrightarrow> i < length cs \<Longrightarrow>
   phys (store_user vm pt va cs) (user_pa vm pt (va + of_nat i)) = cs ! i"
proof (induction cs arbitrary: vm va i)
  case (Cons c cs)
  let ?vm = "vm\<lparr>phys := (phys vm)(user_pa vm pt va := c)\<rparr>"
  have pa: "user_pa ?vm = user_pa vm" by (simp add: fun_eq_iff user_pa_def)
  have shift: "va + of_nat (Suc j) = va + 1 + of_nat j" for j by simp
  have inj: "inj_on (\<lambda>i. user_pa ?vm pt (va + 1 + of_nat i)) {..<length cs}"
    unfolding pa using Cons.prems(1) by (intro inj_onI) (auto simp: inj_on_def shift [symmetric] simp del: of_nat_Suc)
  show ?case
  proof (cases i)
    case 0
    have "user_pa vm pt va \<notin> (\<lambda>i. user_pa ?vm pt (va + 1 + of_nat i)) ` {..<length cs}"
    proof
      assume "user_pa vm pt va \<in> (\<lambda>i. user_pa ?vm pt (va + 1 + of_nat i)) ` {..<length cs}"
      then obtain j where "j < length cs" "user_pa vm pt (va + of_nat 0) = user_pa vm pt (va + of_nat (Suc j))"
        by (auto simp: pa add.assoc)
      with inj_onD [OF Cons.prems(1), of 0 "Suc j"] show False by simp
    qed
    with 0 store_user_frame [of ?vm pt "va + 1" cs] show ?thesis by simp
  next
    case (Suc j)
    with Cons.IH [OF inj, of j] Cons.prems(2) show ?thesis by (simp add: pa add.assoc)
  qed
qed simp

lemma to_user_read:
  assumes "agent_current k h = Some a" "user_access_ok (kvm k) (Some a) ptr (of_nat (length bs)) True"
    "ptr \<noteq> 0" "bs \<noteq> []" "length bs \<le> 4096"
  obtains v where "to_user k h ptr bs = (k\<lparr>kvm := v\<rparr>, int (length bs))" "v = (kvm k)\<lparr>phys := phys v\<rparr>"
    "map (\<lambda>i. user_byte v (pagetable a) (ptr + of_nat i)) [0..<length bs] = bs"
proof -
  let ?vm = "kvm k" and ?pt = "pagetable a"
  let ?v = "store_user ?vm ?pt ptr bs"
  have l: "unat (of_nat (length bs) :: u64) = length bs" using assms(5) by (simp add: unat_of_nat64)
  have nz: "(of_nat (length bs) :: u64) \<noteq> 0" using l assms(4) by force
  have "uint (of_nat (length bs) :: u64) = int (length bs)" using assms(5) by (simp add: uint_of_nat64)
  with nz have t: "to_user k h ptr bs = (k\<lparr>kvm := ?v\<rparr>, int (length bs))"
    using assms(1-3) by (simp add: to_user_def copy_to_user_def Let_def)
  have fr: "?v = ?vm\<lparr>phys := phys ?v\<rparr>" using store_user_frame [of ?vm ?pt ptr bs] by blast
  note rd = store_user_read [OF user_pa_inj [OF assms(2,5)]]
  have "user_pa ?v = user_pa ?vm" by (subst fr) (simp add: fun_eq_iff user_pa_def)
  then have "map (\<lambda>i. user_byte ?v ?pt (ptr + of_nat i)) [0..<length bs] = bs"
    using rd by (intro nth_equalityI) (auto simp: user_byte_def)
  with t fr that show thesis by blast
qed

text \<open>The queue of a mailbox in the order in which it is received.\<close>

definition waiting :: "msgbox \<Rightarrow> agent_msg list" where
  "waiting box = steer_list box @ normal_list box"

lemma pop_waiting:
  assumes "msgbox_inv box" "waiting box = m # ms"
  obtains box' where "msgbox_pop box = (box', 0, Some m)" "msgbox_inv box'" "waiting box' = ms"
proof (cases "steer_list box")
  case Nil
  with assms msgbox_pop_regular [OF assms(1) Nil, of m ms] that show thesis by (auto simp: waiting_def)
next
  case (Cons m' ms')
  with assms msgbox_pop_urgent [OF assms(1) Cons] that show thesis by (auto simp: waiting_def)
qed

definition box_sorted :: "msgbox \<Rightarrow> bool" where
  "box_sorted box \<longleftrightarrow> msgbox_inv box \<and> (\<forall>m \<in> set (waiting box). length (payload m) = MSG_PAYLOAD_SIZE) \<and>
     (\<forall>m \<in> set (steer_list box). msg_type m = MSG_STEER) \<and> (\<forall>m \<in> set (normal_list box). msg_type m \<noteq> MSG_STEER)"

lemma pop_push_again:
  assumes "box_sorted box" "msgbox_pop box = (box', 0, Some m)"
  shows "steer_list (fst (msgbox_push box' m)) =
      (if msg_type m = MSG_STEER then rotate1 (steer_list box) else steer_list box)"
    "normal_list (fst (msgbox_push box' m)) =
      (if msg_type m = MSG_STEER then normal_list box else rotate1 (normal_list box))"
proof -
  have inv: "msgbox_inv box" using assms(1) by (simp add: box_sorted_def)
  have le: "length (steer_list box) \<le> 4" "length (normal_list box) \<le> 16"
    using inv by (simp_all add: msgbox_inv_def ring_inv_def)
  have "steer_list (fst (msgbox_push box' m)) =
      (if msg_type m = MSG_STEER then rotate1 (steer_list box) else steer_list box) \<and>
    normal_list (fst (msgbox_push box' m)) =
      (if msg_type m = MSG_STEER then normal_list box else rotate1 (normal_list box))"
  proof (cases "steer_list box")
    case (Cons m' ms)
    with msgbox_pop_urgent [OF inv Cons] assms
    have b: "msgbox_inv box'" "steer_list box' = ms" "normal_list box' = normal_list box" "m' = m" "msg_type m = MSG_STEER"
      by (auto simp: box_sorted_def)
    with mbox.push_prio [OF b(1), of m] le Cons show ?thesis by (simp add: msgbox_is_priority_type_def)
  next
    case Nil
    show ?thesis
    proof (cases "normal_list box")
      case (Cons m' ms)
      with msgbox_pop_regular [OF inv Nil Cons] assms
      have b: "msgbox_inv box'" "steer_list box' = []" "normal_list box' = ms" "m' = m" "msg_type m \<noteq> MSG_STEER"
        by (auto simp: box_sorted_def)
      with mbox.push_regular [OF b(1), of m] le Cons Nil show ?thesis by (simp add: msgbox_is_priority_type_def)
    qed (use msgbox_pop_empty [OF Nil] assms in simp)
  qed
  then show "steer_list (fst (msgbox_push box' m)) =
      (if msg_type m = MSG_STEER then rotate1 (steer_list box) else steer_list box)"
    "normal_list (fst (msgbox_push box' m)) =
      (if msg_type m = MSG_STEER then normal_list box else rotate1 (normal_list box))" by blast+
qed

lemma length_enc_msg: "length (enc_msg m) = 8 + length (payload m)"
  by (simp add: enc_msg_def enc32_def)

lemma to_user_refused:
  "agent_current k h = Some a \<Longrightarrow> \<not> user_access_ok (kvm k) (Some a) ptr (of_nat (length bs)) True \<Longrightarrow>
   ptr \<noteq> 0 \<Longrightarrow> (of_nat (length bs) :: u64) \<noteq> 0 \<Longrightarrow> to_user k h ptr bs = (k, EFAULT)"
  by (simp add: to_user_def copy_to_user_def Let_def)

text \<open>C22: A receive takes the first waiting message, steer messages before normal ones, and hands
  over all its 232 bytes: sender, type and payload, also when the buffer crosses a page boundary.  It returns the message's type, and the other
  messages keep their order.  With nothing waiting the agent's phase becomes WAIT_IPC and the call
  returns EAGAIN.  When the buffer is not writable for the agent the call returns EFAULT, user
  memory is untouched and no message is lost, but the refused message has moved to the end of
  its queue.  In all three cases no other agent changes.\<close>

theorem agent_recv_hands_over:
  assumes "kernel_wf k" "cur_idx k h = Some i" "box_sorted (inbox (agent_at k i))"
    "caps (agent_at k i) AND CAP_RECV \<noteq> 0" "ptr \<noteq> 0"
  shows "case agent_recv k h ptr of (k', rc) \<Rightarrow>
    (\<forall>j. j \<noteq> i \<longrightarrow> agent_at k' j = agent_at k j) \<and>
    (let box = inbox (agent_at k i); box' = inbox (agent_at k' i) in
     case waiting box of
       [] \<Rightarrow> rc = EAGAIN \<and> k' = upd_agent k i (\<lambda>a. a\<lparr>aphase := AGENT_PHASE_WAIT_IPC\<rparr>)
     | m # ms \<Rightarrow>
         if user_access_ok (kvm k) (Some (agent_at k i)) ptr 232 True
         then rc = msg_type m \<and> user_bytes k' h ptr 232 = enc_msg m \<and> waiting box' = ms
         else rc = EFAULT \<and> kvm k' = kvm k \<and>
              steer_list box' = (if msg_type m = MSG_STEER then rotate1 (steer_list box) else steer_list box) \<and>
              normal_list box' = (if msg_type m = MSG_STEER then normal_list box else rotate1 (normal_list box)))"
proof -
  let ?a = "agent_at k i" and ?box = "inbox (agent_at k i)"
  have inv: "msgbox_inv ?box" using assms(3) by (simp add: box_sorted_def)
  have "h < 4" using assms(2) by (simp add: cur_idx_def split: if_splits)
  then have i: "i < 12" using cur_idx_bound [OF assms(1,2)] by blast
  have cap: "agent_has_cap (agent_current k h) CAP_RECV"
    using assms(2,4) by (simp add: agent_has_cap_def agent_current_def)
  show ?thesis
  proof (cases "waiting ?box")
    case Nil
    then have "msgbox_empty ?box" by (simp add: msgbox_empty_iff waiting_def)
    with Nil cap assms(2,5) kernel_wfD(1) [OF assms(1)] i show ?thesis
      by (simp add: agent_recv_def agent_set_phase_def)
  next
    case (Cons m ms)
    then obtain box' where pop: "msgbox_pop ?box = (box', 0, Some m)" "msgbox_inv box'" "waiting box' = ms"
      using pop_waiting [OF inv] by blast
    have ne: "\<not> msgbox_empty ?box" using Cons by (auto simp: msgbox_empty_iff waiting_def)
    have len: "length (enc_msg m) = 232" using assms(3) Cons by (simp add: length_enc_msg box_sorted_def)
    define k1 where "k1 = upd_agent k i (\<lambda>a. a\<lparr>inbox := box'\<rparr>)"
    have k1: "kernel_wf k1" "kvm k1 = kvm k" "cur_idx k1 h = Some i" "agent_current k1 h = Some (?a\<lparr>inbox := box'\<rparr>)"
      "agent_at k1 j = (if j = i then ?a\<lparr>inbox := box'\<rparr> else agent_at k j)" for j
      using assms(1,2) i kernel_wf_upd [OF assms(1)] kernel_wfD(1) [OF assms(1)]
      by (simp_all add: k1_def current_upd)
    have r: "agent_recv k h ptr = (case to_user k1 h ptr (enc_msg m) of (k2, rc2) \<Rightarrow>
        if rc2 < 0 then (upd_agent k2 i (\<lambda>a. a\<lparr>inbox := fst (msgbox_push (inbox a) m)\<rparr>), EFAULT)
        else (agent_set_phase k2 h AGENT_PHASE_TURN, msg_type m))"
      using cap assms(2,5) ne pop(1) by (simp add: agent_recv_def Let_def k1_def)
    have acc: "user_access_ok (kvm k) (Some ?a) ptr 232 True =
        user_access_ok (kvm k1) (Some (?a\<lparr>inbox := box'\<rparr>)) ptr (of_nat (length (enc_msg m))) True"
      using access_ok_agent [of ?a "?a\<lparr>inbox := box'\<rparr>"] len k1(2) by simp
    show ?thesis
    proof (cases "user_access_ok (kvm k) (Some ?a) ptr 232 True")
      case True
      have "enc_msg m \<noteq> []" "length (enc_msg m) \<le> 4096" using len by auto
      from to_user_read [OF k1(4) _ assms(5) this] True acc len
      obtain v where t: "to_user k1 h ptr (enc_msg m) = (k1\<lparr>kvm := v\<rparr>, 232)"
          "map (\<lambda>x. user_byte v (pagetable ?a) (ptr + of_nat x)) [0..<232] = enc_msg m"
        by auto
      with True Cons r k1 i pop(3) kernel_wfD(1) [OF k1(1)] show ?thesis
        by (auto simp: agent_set_phase_def user_bytes_def agent_current_def Let_def)
    next
      case False
      then have t: "to_user k1 h ptr (enc_msg m) = (k1, EFAULT)"
        using to_user_refused [OF k1(4) _ assms(5), of "enc_msg m"] acc len by simp
      with False Cons r k1 i kernel_wfD(1) [OF k1(1)] pop_push_again [OF assms(3) pop(1)] show ?thesis
        by (auto simp: Let_def)
    qed
  qed
qed

definition mail_kernel :: kernel where
  "mail_kernel = upd_agent talk_kernel 1 (\<lambda>a. a\<lparr>inbox := fst (msgbox_push blank_box blank_msg)\<rparr>)"

theorem agent_recv_hands_over_witness:
  "case agent_recv mail_kernel 0 0x60001000 of (k', rc) \<Rightarrow>
     rc = msg_type blank_msg \<and> user_bytes k' 0 0x60001000 232 = enc_msg blank_msg \<and> waiting (inbox (agent_at k' 1)) = []"
proof -
  have at: "agent_at mail_kernel 1 = (agent_at talk_kernel 1)\<lparr>inbox := fst (msgbox_push blank_box blank_msg)\<rparr>"
    using kernel_wfD(1) [OF talk_kernel_wf] by (simp add: mail_kernel_def)
  have q: "steer_list (fst (msgbox_push blank_box blank_msg)) = []"
      "normal_list (fst (msgbox_push blank_box blank_msg)) = [blank_msg]" "msgbox_inv (fst (msgbox_push blank_box blank_msg))"
    using mbox.push_regular [of blank_box blank_msg] by (simp_all add: msgbox_is_priority_type_def blank_msg_def)
  have "user_access_ok talk_vm (Some ro_agent) 0x60001000 232 True" by code_simp
  then have "user_access_ok (kvm mail_kernel) (Some (agent_at mail_kernel 1)) 0x60001000 232 True"
    using access_ok_agent [of "agent_at mail_kernel 1" ro_agent] at talk_kernel_current
    by (simp add: mail_kernel_def ro_agent_def)
  moreover have "kernel_wf mail_kernel" unfolding mail_kernel_def by (intro kernel_wf_upd talk_kernel_wf) simp_all
  moreover have "cur_idx mail_kernel 0 = Some 1" using talk_kernel_current by (simp add: mail_kernel_def)
  moreover have "box_sorted (inbox (agent_at mail_kernel 1))"
    unfolding at by (simp add: box_sorted_def q waiting_def) (simp add: blank_msg_def)
  moreover have "caps (agent_at mail_kernel 1) AND CAP_RECV \<noteq> 0" unfolding at by (simp add: talk_kernel_agents)
  moreover have "waiting (inbox (agent_at mail_kernel 1)) = [blank_msg]" unfolding at by (simp add: waiting_def q)
  ultimately show ?thesis
    using agent_recv_hands_over [of mail_kernel 0 1 "0x60001000"]
    by (simp add: case_prod_unfold Let_def)
qed

end
