(* ===== verification/Kaccess.thy ===== *)
theory Kaccess
  imports Agent
begin

text \<open>
  How the kernel's tool functions reach the memory of the calling agent.

  \<open>fetch_str\<close> is the pattern of nearly all of them: measure a user string with \<open>user_strnlen\<close>,
  reject it, and copy it with its terminator into a local buffer of \<open>cap\<close> bytes.  A string of \<open>cap - 1\<close>
  characters is not terminated by the copy when the byte behind it is not NUL; the string the kernel then
  works with goes on in the bytes behind the buffer, \<open>junk\<close>.

  \<open>sv_byte\<close> and \<open>sv_store\<close> are the accesses of supervisor code through a pointer it did not check.  The kernel
  runs on the page table of the current agent with user pages accessible (\<open>sstatus.SUM\<close>), so such an
  access goes through for every mapped page that is readable or writable, the
  kernel's own pages included; \<open>None\<close> is a page fault.  The kernel's own data is not in the memory of the model, so a store
  to a page that is not the user's sets \<open>kbuf_oob\<close> (\<open>sv_put\<close>): from then on the state of the model says nothing about the kernel.
\<close>

section \<open>Definitions\<close>

definition fetch_bytes :: "kernel \<Rightarrow> nat \<Rightarrow> u64 \<Rightarrow> nat \<Rightarrow> int \<Rightarrow> int option \<Rightarrow> int + string" where
  "fetch_bytes k h ptr cap neg zero =
     (let len = user_text k h ptr (int cap - 1)
      in if len < 0 then Inl neg
         else if len = 0 \<and> zero \<noteq> None then Inl (the zero)
         else (case from_user k h ptr (of_int (len + 1)) of (rc, bs) \<Rightarrow>
                 if rc < 0 then Inl EFAULT else Inr bs))"

definition fetch_str :: "kernel \<Rightarrow> nat \<Rightarrow> u64 \<Rightarrow> nat \<Rightarrow> int \<Rightarrow> int option \<Rightarrow> string \<Rightarrow> int + string" where
  "fetch_str k h ptr cap neg zero junk =
     (case fetch_bytes k h ptr cap neg zero of Inl e \<Rightarrow> Inl e | Inr bs \<Rightarrow> Inr (cstr (bs @ junk)))"

definition kpt :: "kernel \<Rightarrow> nat \<Rightarrow> u64" where
  "kpt k h = (case agent_current k h of None \<Rightarrow> kernel_pt (kvm k) | Some a \<Rightarrow> pagetable a)"

definition sv_byte :: "vm \<Rightarrow> u64 \<Rightarrow> u64 \<Rightarrow> char option" where
  "sv_byte vm pt va =
     (case leaf vm pt va of
        None \<Rightarrow> None
      | Some e \<Rightarrow> if e AND PTE_R = 0 then None else Some (phys vm (user_pa vm pt va)))"

fun sv_store :: "vm \<Rightarrow> u64 \<Rightarrow> u64 \<Rightarrow> string \<Rightarrow> vm option" where
  "sv_store vm pt va [] = Some vm"
| "sv_store vm pt va (c # cs) =
     (case leaf vm pt va of
        None \<Rightarrow> None
      | Some e \<Rightarrow>
          if e AND PTE_W = 0 then None
          else sv_store (vm\<lparr>phys := (phys vm)(user_pa vm pt va := c)\<rparr>) pt (va + 1) cs)"

definition sv_kernel :: "vm \<Rightarrow> u64 \<Rightarrow> u64 \<Rightarrow> nat \<Rightarrow> bool" where
  "sv_kernel vm pt va n =
     list_ex (\<lambda>i. case leaf vm pt (va + of_nat i) of None \<Rightarrow> False | Some e \<Rightarrow> e AND PTE_U = 0) [0..<n]"

definition sv_put :: "kernel \<Rightarrow> nat \<Rightarrow> u64 \<Rightarrow> string \<Rightarrow> kernel option" where
  "sv_put k h va cs =
     (case sv_store (kvm k) (kpt k h) va cs of
        None \<Rightarrow> None
      | Some v \<Rightarrow> Some (k\<lparr>kvm := v, kbuf_oob := kbuf_oob k \<or> sv_kernel (kvm k) (kpt k h) va (length cs)\<rparr>))"

text \<open>The state that a store which faults leaves behind: the bytes before the first page that cannot be written.\<close>

definition sv_part :: "kernel \<Rightarrow> nat \<Rightarrow> u64 \<Rightarrow> string \<Rightarrow> kernel" where
  "sv_part k h va cs =
     (let ok = (\<lambda>i. case leaf (kvm k) (kpt k h) (va + of_nat i) of None \<Rightarrow> False | Some e \<Rightarrow> e AND PTE_W \<noteq> 0);
          n = length (takeWhile ok [0..<length cs])
      in k\<lparr>kvm := store_user (kvm k) (kpt k h) va (take n cs), kbuf_oob := kbuf_oob k \<or> sv_kernel (kvm k) (kpt k h) va n\<rparr>)"

section \<open>Lemmas\<close>

lemma user_text_current:
  assumes "0 \<le> user_text k h ptr m"
  obtains a where "agent_current k h = Some a"
proof (cases "agent_current k h")
  case None
  have m: "0 < m" using assms by (auto simp: user_text_def user_strnlen_def split: if_splits)
  then obtain j where "nat m = Suc j" by (metis gr0_implies_Suc zero_less_nat_eq)
  then have "user_text k h ptr m < 0" using None by (auto simp: user_text_def user_strnlen_def user_access_ok_def)
  with assms show thesis by simp
qed

lemma fetch_bytesD:
  assumes "fetch_bytes k h ptr cap neg zero = Inr bs" "cap \<le> 4096"
  obtains a n where "agent_current k h = Some a" "n < cap" "bs = user_bytes k h ptr (Suc n)" "0 < n \<or> zero = None"
    "NUL \<notin> set (butlast bs)" "last bs \<noteq> NUL \<Longrightarrow> Suc n = cap"
proof -
  let ?len = "user_text k h ptr (int cap - 1)"
  have len: "0 \<le> ?len" "?len = 0 \<Longrightarrow> zero = None"
    using assms by (auto simp: fetch_bytes_def Let_def split: if_splits)
  obtain a where a: "agent_current k h = Some a" using user_text_current [OF len(1)] .
  have s: "strnlen_loop (kvm k) (Some a) ptr 0 (nat (int cap - 1)) = ?len" "0 < int cap - 1"
    using len(1) a by (auto simp: user_text_def user_strnlen_def split: if_splits)
  define n where "n = nat ?len"
  note S = strnlen_loop_spec [OF s(1) len(1)]
  have n: "?len = int n" "n < cap" using len(1) S s(2) by (auto simp: n_def)
  have w: "(of_int (?len + 1) :: u64) = of_nat (Suc n)" using n(1) by simp
  obtain rc b where f: "from_user k h ptr (of_nat (Suc n)) = (rc, b)" by fastforce
  have fb: "fetch_bytes k h ptr cap neg zero = (if rc < 0 then Inl EFAULT else Inr b)"
    using len f unfolding fetch_bytes_def Let_def w by auto
  then have "0 \<le> rc" "b = bs" using assms(1) by (auto split: if_splits)
  with from_user_bytes [OF f] have bs: "bs = user_bytes k h ptr (unat (of_nat (Suc n) :: u64))" by simp
  moreover have "unat (of_nat (Suc n) :: u64) = Suc n" using n(2) assms(2) by (intro unat_of_nat64) simp
  ultimately have bs: "bs = user_bytes k h ptr (Suc n)" by simp
  have bl: "butlast bs = user_bytes k h ptr n" unfolding bs by (simp add: user_bytes_def)
  have "user_byte (kvm k) (pagetable a) (ptr + of_nat x) \<noteq> NUL" if "x < n" for x
    using S n(1) that by simp
  then have "NUL \<notin> set (butlast bs)" unfolding bl using a by (force simp: user_bytes_def)
  moreover have "last bs = user_byte (kvm k) (pagetable a) (ptr + of_nat n)"
    unfolding bs using a by (simp add: user_bytes_def)
  then have "Suc n = cap" if "last bs \<noteq> NUL" using S that n s(2) by auto
  ultimately show thesis using that a n(2) bs len(2) n(1) by fastforce
qed

text \<open>A fetched string is the user's string, unless this fills the whole buffer.\<close>

lemma fetch_str_bytes:
  assumes "fetch_bytes k h ptr cap neg zero = Inr bs" "cap \<le> 4096"
  shows "cstr (bs @ junk) = (if NUL \<in> set bs then butlast bs else bs @ cstr junk)"
    "NUL \<notin> set bs \<Longrightarrow> length bs = cap" "length bs \<le> cap" "bs \<noteq> []"
proof -
  from fetch_bytesD [OF assms] obtain n where n: "n < cap" "bs = user_bytes k h ptr (Suc n)"
      "NUL \<notin> set (butlast bs)" "last bs \<noteq> NUL \<Longrightarrow> Suc n = cap" by metis
  show "length bs \<le> cap" "bs \<noteq> []" using n(1,2) by (auto simp: user_bytes_def)
  have bs: "bs = butlast bs @ [last bs]" using \<open>bs \<noteq> []\<close> by simp
  show "NUL \<notin> set bs \<Longrightarrow> length bs = cap"
    using n(2,4) \<open>bs \<noteq> []\<close> by (metis last_in_set length_user_bytes)
  show "cstr (bs @ junk) = (if NUL \<in> set bs then butlast bs else bs @ cstr junk)"
  proof (cases "NUL \<in> set bs")
    case True
    with bs n(3) have "last bs = NUL" by (metis Un_iff append_Nil set_ConsD set_append)
    then have e: "bs @ junk = butlast bs @ NUL # junk" using bs by (metis append.assoc append_Cons append_Nil)
    show ?thesis unfolding e using True cstr_append_NUL [OF n(3)] by simp
  next
    case False
    then show ?thesis unfolding cstr_def by (subst takeWhile_append2) auto
  qed
qed

lemma sv_store_frame:
  "sv_store vm pt va cs = Some vm' \<Longrightarrow> vm' = store_user vm pt va cs"
  by (induction cs arbitrary: vm va) (auto split: option.splits if_splits)


section \<open>Calls that leave the agents alone\<close>

text \<open>Between the two states only files, counters and the kernel heap may differ: the agents, and what each of
  them sees of its memory, are the same.\<close>

definition same_user :: "kernel \<Rightarrow> kernel \<Rightarrow> bool" where
  "same_user k k' \<longleftrightarrow> agents k' = agents k \<and> cpu_current k' = cpu_current k \<and> junk_run k' = junk_run k \<and>
     kvm k' = (kvm k)\<lparr>kheap := kheap (kvm k')\<rparr>"

lemma same_user_refl [simp]: "same_user k k"
  by (simp add: same_user_def)

lemma same_user_trans [trans]: "same_user k k1 \<Longrightarrow> same_user k1 k2 \<Longrightarrow> same_user k k2"
  unfolding same_user_def by (metis vm.update_convs(1) vm.surjective)

lemma get_pte_heap [simp]: "get_pte (vm\<lparr>kheap := m\<rparr>) s = get_pte vm s"
  by (simp add: get_pte_def)

lemma leaf_heap [simp]: "leaf (vm\<lparr>kheap := m\<rparr>) pt va = leaf vm pt va"
proof -
  have "vm_walk_loop (vm\<lparr>kheap := m\<rparr>) t va False l = (vm\<lparr>kheap := m\<rparr>, snd (vm_walk_loop vm t va False l))" for t l
    by (induction vm t va False l rule: vm_walk_loop.induct) (auto simp: Let_def)
  then show ?thesis by (simp add: leaf_def vm_walk_def)
qed

lemma user_check_loop_leaf:
  assumes "user_check_loop vm pt a lim wr = Some y" "\<And>a. leaf vm' pt a = leaf vm pt a"
  shows "user_check_loop vm' pt a lim wr = Some y"
proof -
  have "(\<forall>a. leaf vm' pt a = leaf vm pt a) \<longrightarrow> user_check_loop vm' pt a lim wr = Some y"
  proof (rule user_check_loop.raw_induct
      [where P = "\<lambda>vm pt a lim wr y. (\<forall>a. leaf vm' pt a = leaf vm pt a) \<longrightarrow> user_check_loop vm' pt a lim wr = Some y",
        OF _ assms(1)], intro impI)
    fix loop vm pt a lim wr y
    assume "\<And>vm pt a lim wr y. loop vm pt a lim wr = Some y \<Longrightarrow>
        (\<forall>a. leaf vm' pt a = leaf vm pt a) \<longrightarrow> user_check_loop vm' pt a lim wr = Some y"
      "(if a < lim then
          (case leaf vm pt a of
             None \<Rightarrow> Some (- 1)
           | Some pte \<Rightarrow>
               if pte AND PTE_U = 0 then Some (- 1)
               else if wr then (if pte AND PTE_W = 0 then Some (- 1) else loop vm pt (a + PAGE_SIZE) lim wr)
               else if pte AND PTE_R = 0 \<and> pte AND PTE_X = 0 then Some (- 1)
               else loop vm pt (a + PAGE_SIZE) lim wr)
        else Some 0) = Some y" "\<forall>a. leaf vm' pt a = leaf vm pt a"
    then show "user_check_loop vm' pt a lim wr = Some y"
      by (subst user_check_loop.simps) (auto split: if_splits option.splits)
  qed
  with assms(2) show ?thesis by blast
qed

lemma access_ok_heap: "user_access_ok (vm\<lparr>kheap := m\<rparr>) cur p n w = user_access_ok vm cur p n w"
proof -
  have "(user_check_loop (vm\<lparr>kheap := m\<rparr>) pt a lim w = Some 0) = (user_check_loop vm pt a lim w = Some 0)" for pt a lim
    using user_check_loop_leaf [of vm pt a lim w 0 "vm\<lparr>kheap := m\<rparr>"]
      user_check_loop_leaf [of "vm\<lparr>kheap := m\<rparr>" pt a lim w 0 vm] by auto
  then show ?thesis by (simp add: user_access_ok_def vm_user_check_def Let_def split: option.splits)
qed

lemma copy_from_user_heap: "copy_from_user (vm\<lparr>kheap := m\<rparr>) cur p n = copy_from_user vm cur p n"
  by (simp add: copy_from_user_def access_ok_heap user_byte_def user_pa_def)

lemma user_strnlen_heap: "user_strnlen (vm\<lparr>kheap := m\<rparr>) cur p n = user_strnlen vm cur p n"
proof -
  have "strnlen_loop (vm\<lparr>kheap := m\<rparr>) cur p i j = strnlen_loop vm cur p i j" for i j
    by (induction j arbitrary: i) (simp_all add: access_ok_heap copy_from_user_heap split: prod.splits)
  then show ?thesis by (simp add: user_strnlen_def)
qed

lemma same_user_current: "same_user k k' \<Longrightarrow> agent_current k' h = agent_current k h"
  by (auto simp: same_user_def agent_current_def cur_idx_def agent_at_def intro!: option.map_cong)

lemma same_user_fetch:
  assumes "same_user k k'"
  shows "fetch_str k' h ptr cap neg zero junk = fetch_str k h ptr cap neg zero junk"
proof -
  obtain m where m: "kvm k' = (kvm k)\<lparr>kheap := m\<rparr>" using assms by (auto simp: same_user_def)
  have "user_text k' h = user_text k h" "from_user k' h = from_user k h"
    by (simp_all add: fun_eq_iff user_text_def from_user_def same_user_current [OF assms] m
        user_strnlen_heap copy_from_user_heap)
  then show ?thesis by (simp only: fetch_str_def fetch_bytes_def)
qed

lemma same_user_kalloc: "kalloc_k k n = (k', p) \<Longrightarrow> same_user k k'"
  by (auto simp: kalloc_k_def same_user_def split: prod.splits)

end
