(* ===== verification/Uart.thy ===== *)
theory Uart
  imports Kaccess
begin

text \<open>
  The serial line: \<open>kernel/uart.c\<close>.  \<open>uart_out\<close> is what was written to the line, \<open>uart_in\<close> the characters that the line
  still delivers; a poll with none left finds the receiver empty.  The transmitter is ready after a while, so
  \<open>uart_putc\<close> returns.  \<open>uart_getline\<close> waits for characters: \<open>None\<close> means that it waits forever.
\<close>

section \<open>Definitions\<close>

abbreviation (input) CR :: char where "CR \<equiv> CHR 0x0D"

abbreviation (input) BACKSPACE :: char where "BACKSPACE \<equiv> CHR 0x08"

abbreviation (input) DELETE :: char where "DELETE \<equiv> CHR 0x7F"

definition uart_putc :: "kernel \<Rightarrow> char \<Rightarrow> kernel" where
  "uart_putc k c = k\<lparr>uart_out := uart_out k @ [c]\<rparr>"

definition uart_puts :: "kernel \<Rightarrow> string \<Rightarrow> kernel" where
  "uart_puts k s = foldl uart_putc k s"

definition uart_puthex :: "kernel \<Rightarrow> u64 \<Rightarrow> kernel" where
  "uart_puthex k v = foldl (\<lambda>k i. uart_putc k (''0123456789abcdef'' ! unat (drop_bit i v AND 0xf))) (uart_puts k ''0x'')
     (map (\<lambda>j. 60 - 4 * j) [0..<16])"

definition uart_poll_char :: "kernel \<Rightarrow> kernel \<times> char option" where
  "uart_poll_char k = (case uart_in k of [] \<Rightarrow> (k, None) | c # cs \<Rightarrow> (k\<lparr>uart_in := cs\<rparr>, Some c))"

function getline_loop :: "kernel \<Rightarrow> string \<Rightarrow> int \<Rightarrow> (kernel \<times> string) option" where
  "getline_loop k buf maxlen =
     (if int (length buf) < maxlen - 1 then
        (case uart_poll_char k of
           (k1, None) \<Rightarrow> None
         | (k1, Some c) \<Rightarrow>
             if c = CR \<or> c = NEWLINE then Some (uart_putc k1 NEWLINE, buf)
             else if c = DELETE \<or> c = BACKSPACE then
               (if buf \<noteq> [] then getline_loop (uart_puts k1 [BACKSPACE, CHR '' '', BACKSPACE]) (butlast buf) maxlen
                else getline_loop k1 buf maxlen)
             else getline_loop (uart_putc k1 c) (buf @ [c]) maxlen)
      else Some (k, buf))"
  by pat_completeness auto
termination
  by (relation "measure (\<lambda>(k, buf, maxlen). length (uart_in k))")
    (auto simp: uart_poll_char_def uart_putc_def uart_puts_def split: list.splits)

declare getline_loop.simps [simp del]

definition uart_getline :: "kernel \<Rightarrow> int \<Rightarrow> (kernel \<times> int \<times> string) option" where
  "uart_getline k maxlen =
     (if maxlen \<le> 0 then Some (k, EINVAL, [])
      else (case getline_loop k [] maxlen of None \<Rightarrow> None | Some (k1, buf) \<Rightarrow> Some (k1, int (length buf), buf)))"

section \<open>Lemmas\<close>

lemma uart_puts_out [simp]: "uart_puts k s = k\<lparr>uart_out := uart_out k @ s\<rparr>"
  by (induction s arbitrary: k) (simp_all add: uart_puts_def uart_putc_def)

lemma uart_putc_in [simp]: "uart_in (uart_putc k c) = uart_in k"
  by (simp add: uart_putc_def)

text \<open>What the line editor leaves of the characters typed.\<close>

fun edited :: "string \<Rightarrow> string \<Rightarrow> string" where
  "edited buf [] = buf"
| "edited buf (c # cs) = edited (if c = DELETE \<or> c = BACKSPACE then butlast buf else buf @ [c]) cs"

lemma getline_step:
  "getline_loop k buf maxlen =
     (if int (length buf) < maxlen - 1 then
        (case uart_in k of
           [] \<Rightarrow> None
         | c # cs \<Rightarrow>
             if c = CR \<or> c = NEWLINE then Some (uart_putc (k\<lparr>uart_in := cs\<rparr>) NEWLINE, buf)
             else if c = DELETE \<or> c = BACKSPACE then
               (if buf \<noteq> [] then getline_loop (uart_puts (k\<lparr>uart_in := cs\<rparr>) [BACKSPACE, CHR '' '', BACKSPACE]) (butlast buf) maxlen
                else getline_loop (k\<lparr>uart_in := cs\<rparr>) buf maxlen)
             else getline_loop (uart_putc (k\<lparr>uart_in := cs\<rparr>) c) (buf @ [c]) maxlen)
      else Some (k, buf))"
  by (subst getline_loop.simps) (simp add: uart_poll_char_def split: list.splits)

text \<open>C31: Reading a line ends.  As soon as the characters typed contain a line end, \<open>uart_getline\<close> returns a line that
  fits the buffer with its terminator; when the line does not fill the buffer, it is what the line editor makes
  of the characters before the line end, and the characters behind the line end remain to be read.\<close>

theorem uart_getline_returns:
  assumes "0 < maxlen" "uart_in k = line @ [e] @ rest" "e = CR \<or> e = NEWLINE" "CR \<notin> set line" "NEWLINE \<notin> set line"
  shows "\<exists>k' buf. uart_getline k maxlen = Some (k', int (length buf), buf) \<and> length buf < nat maxlen \<and>
    (int (length line) < maxlen - 1 \<longrightarrow> buf = edited [] line \<and> uart_in k' = rest)"
proof -
  have "\<exists>k' buf'. getline_loop k buf maxlen = Some (k', buf') \<and> int (length buf') < maxlen \<and>
      (int (length buf + length line) < maxlen - 1 \<longrightarrow> buf' = edited buf line \<and> uart_in k' = rest)"
    if "int (length buf) < maxlen" "uart_in k = line @ [e] @ rest" "CR \<notin> set line" "NEWLINE \<notin> set line" for buf k
    using that
  proof (induction line arbitrary: k buf)
    case Nil
    with assms(3) show ?case by (subst getline_step) auto
  next
    case (Cons c line)
    let ?buf = "if c = DELETE \<or> c = BACKSPACE then butlast buf else buf @ [c]"
    have cs: "uart_in k = c # line @ [e] @ rest" "c \<noteq> CR" "c \<noteq> NEWLINE" using Cons.prems by auto
    show ?case
    proof (cases "int (length buf) < maxlen - 1")
      case True
      define k0 where "k0 = k\<lparr>uart_in := line @ [e] @ rest\<rparr>"
      define k1 where "k1 = (if c = DELETE \<or> c = BACKSPACE
          then (if buf \<noteq> [] then uart_puts k0 [BACKSPACE, CHR '' '', BACKSPACE] else k0) else uart_putc k0 c)"
      have k1: "getline_loop k buf maxlen = getline_loop k1 ?buf maxlen" "uart_in k1 = line @ [e] @ rest"
        using True cs by (simp_all add: getline_step [of k buf] k1_def k0_def)
      have "int (length ?buf) < maxlen" "length ?buf \<le> Suc (length buf)" using True by auto
      with Cons.IH [OF _ k1(2), of ?buf] Cons.prems(3,4) k1(1) show ?thesis by fastforce
    next
      case False
      with Cons.prems(1) show ?thesis by (subst getline_step) auto
    qed
  qed
  from this [of "[]" k] assms show ?thesis by (auto simp: uart_getline_def)
qed

theorem uart_getline_returns_witness:
  "\<exists>k'. uart_getline (demo_kernel\<lparr>uart_in := ''lx'' @ [BACKSPACE] @ ''s'' @ [CR] @ ''q''\<rparr>) 204 = Some (k', 2, ''ls'') \<and> uart_in k' = ''q''"
  using uart_getline_returns [of 204 "demo_kernel\<lparr>uart_in := ''lx'' @ [BACKSPACE] @ ''s'' @ [CR] @ ''q''\<rparr>"
      "''lx'' @ [BACKSPACE] @ ''s''" CR "''q''"] by auto

end
