(* ===== verification/Llm.thy ===== *)
theory Llm
  imports Uart
begin

text \<open>
  Queries to a language model: \<open>kernel/llm.c\<close>.  The prompt is read and the answer stored through the pointers of the agent
  without a check, by the accesses of \<open>Kaccess\<close>: \<open>None\<close> is a page fault of the kernel, or a search
  that never meets a terminator.  The two transports answer through the \<open>world\<close>: the return code,
  the chunks they stream and the bytes they leave in the buffer.
\<close>

section \<open>Definitions\<close>

abbreviation (input) LLM_MAX_RESPONSE :: nat where "LLM_MAX_RESPONSE \<equiv> 512"

fun mem_match :: "vm \<Rightarrow> u64 \<Rightarrow> u64 \<Rightarrow> string \<Rightarrow> bool option" where
  "mem_match vm pt va [] = Some True"
| "mem_match vm pt va (c # needle) =
     (case sv_byte vm pt va of
        None \<Rightarrow> None
      | Some b \<Rightarrow> if b = c then mem_match vm pt (va + 1) needle else Some False)"

partial_function (option) contains_substr :: "vm \<Rightarrow> u64 \<Rightarrow> u64 \<Rightarrow> string \<Rightarrow> bool option" where
  "contains_substr vm pt hay needle =
     (case sv_byte vm pt hay of
        None \<Rightarrow> None
      | Some b \<Rightarrow>
          if b = NUL then Some False
          else (case mem_match vm pt hay needle of
                  None \<Rightarrow> None
                | Some hit \<Rightarrow> if hit then Some True else contains_substr vm pt (hay + 1) needle))"

declare contains_substr.simps [code]

definition llm_session_reset :: "kernel \<Rightarrow> kernel" where
  "llm_session_reset k = k\<lparr>llm_stream_buf := []\<rparr>"

definition llm_session_finish :: "kernel \<Rightarrow> nat \<Rightarrow> kernel" where
  "llm_session_finish k h =
     (if agent_current k h = None \<or> llm_stream_buf k = [] then k
      else if agent_has_cap (agent_current k h) CAP_SVC_LLM then k
      else
        let line = take (LLM_MAX_RESPONSE + 15) (''assistant: '' @ llm_stream_buf k)
        in k\<lparr>kfs := fst (session_append (kfs k) (agent_current k h) (cstr line))\<rparr>)"

definition llm_stream_push :: "string \<Rightarrow> kernel \<Rightarrow> kernel" where
  "llm_stream_push chunk k =
     k\<lparr>llm_stream_buf := llm_stream_buf k @ take (LLM_MAX_RESPONSE - 1 - length (llm_stream_buf k)) chunk\<rparr>"

definition llm_answer :: "vm \<Rightarrow> u64 \<Rightarrow> u64 \<Rightarrow> string option" where
  "llm_answer vm pt prompt =
     (case contains_substr vm pt prompt ''17+25'' of
        None \<Rightarrow> None
      | Some True \<Rightarrow> Some ''42''
      | Some False \<Rightarrow>
          (case contains_substr vm pt prompt ''2+2'' of
             None \<Rightarrow> None
           | Some True \<Rightarrow> Some ''4''
           | Some False \<Rightarrow>
               (case contains_substr vm pt prompt ''threshold'' of
                  None \<Rightarrow> None
                | Some True \<Rightarrow> Some ''High temperature anomaly: reading 91 exceeds threshold 80.''
                | Some False \<Rightarrow>
                    (case contains_substr vm pt prompt ''91'' of
                       None \<Rightarrow> None
                     | Some True \<Rightarrow> Some ''High temperature anomaly: reading 91 exceeds threshold 80.''
                     | Some False \<Rightarrow> Some ''ok''))))"

text \<open>The loop of \<open>llm_faux\<close> that streams the answer.\<close>

definition faux_stream :: "nat \<Rightarrow> string \<Rightarrow> kernel \<Rightarrow> kernel" where
  "faux_stream h answer k =
     fold (\<lambda>i k.
       let k1 = (if agent_has_cap (agent_current k h) CAP_LOG
                 then fst (agent_write k h (kernel_va (kworld k) answer + of_nat i) 1) else k)
       in llm_stream_push [answer ! i] k1) [0..<length answer] k"

definition llm_faux :: "kernel \<Rightarrow> nat \<Rightarrow> u64 \<Rightarrow> u64 \<Rightarrow> int \<Rightarrow> (kernel \<times> int) option" where
  "llm_faux k h prompt buf buflen =
     (case llm_answer (kvm k) (kpt k h) prompt of
        None \<Rightarrow> None
      | Some answer \<Rightarrow>
          let len = length answer
          in if int len \<ge> buflen then Some (k, EINVAL)
             else
               let k1 = faux_stream h answer k
               in (case sv_put k1 h buf (answer @ [NUL]) of None \<Rightarrow> None | Some k2 \<Rightarrow> Some (k2, int len)))"

definition llm_delta_write :: "nat \<Rightarrow> string \<Rightarrow> kernel \<Rightarrow> kernel" where
  "llm_delta_write h chunk k =
     (let k1 = (if agent_has_cap (agent_current k h) CAP_LOG
                then fst (agent_write k h (kernel_va (kworld k) chunk) (int (length chunk))) else k)
      in if chunk = [] then k1 else llm_stream_push chunk k1)"

definition llm_transport :: "kernel \<Rightarrow> nat \<Rightarrow> u64 \<Rightarrow> int \<times> string list \<times> string \<Rightarrow> (kernel \<times> int) option" where
  "llm_transport k h buf ans =
     (case ans of (rc, chunks, bytes) \<Rightarrow>
        let k1 = fold (llm_delta_write h) chunks (k\<lparr>kworld := w_step (kworld k)\<rparr>)
        in (case sv_put k1 h buf bytes of None \<Rightarrow> None | Some k2 \<Rightarrow> Some (k2, rc)))"

definition llm_query_any :: "kernel \<Rightarrow> nat \<Rightarrow> u64 \<Rightarrow> u64 \<Rightarrow> int \<Rightarrow> (kernel \<times> int) option" where
  "llm_query_any k h prompt buf buflen =
     (let w = kworld k;
          first = (case w_llm_build w of
                     Llm_faux \<Rightarrow> Some (k, ENODEV)
                   | Llm_native \<Rightarrow>
                       if netstack_ready w then llm_transport k h buf (llm_deepseek_query w (w_calls w)) else Some (k, ENODEV)
                   | Llm_virtio \<Rightarrow> llm_transport k h buf (virtio_llm_stream w (w_calls w)))
      in case first of
           None \<Rightarrow> None
         | Some (k1, rc) \<Rightarrow> if rc = ENODEV then llm_faux k1 h prompt buf buflen else Some (k1, rc))"

definition agent_llm_query :: "kernel \<Rightarrow> nat \<Rightarrow> u64 \<Rightarrow> u64 \<Rightarrow> int \<Rightarrow> (kernel \<times> int) option" where
  "agent_llm_query k h prompt buf buflen =
     (if \<not> agent_has_cap (agent_current k h) CAP_LLM then Some (k, EPERM)
      else if prompt = 0 \<or> buf = 0 \<or> buflen \<le> 0 then Some (k, EINVAL)
      else (case llm_query_any (agent_set_phase (llm_session_reset k) h AGENT_PHASE_LLM_WAIT) h prompt buf buflen of
              None \<Rightarrow> None
            | Some (k1, rc) \<Rightarrow>
                let k2 = (if rc \<ge> 0 then llm_session_finish k1 h else k1)
                in Some (agent_set_phase k2 h AGENT_PHASE_IDLE, rc)))"

section \<open>Unchecked stores\<close>

text \<open>An agent whose page table also has a page of the kernel, writable and not accessible to user mode, at
  \<open>0x80000000\<close>, and a prompt at \<open>0x60000000\<close>.\<close>

definition llm_vm :: vm where
  "llm_vm = talk_vm\<lparr>ptes := (\<lambda>t i. if t = 0x80400000 \<and> i = 2 then 0x20100c01 else if t = 0x80403000 \<and> i = 0 then 0x20101001
     else if t = 0x80404000 \<and> i = 0 then 0x200000cf else ptes talk_vm t i)\<rparr>"

definition llm_kernel :: kernel where
  "llm_kernel = upd_agent (talk_kernel\<lparr>kvm := llm_vm\<rparr>) 1 (\<lambda>a. a\<lparr>caps := CAP_LLM\<rparr>)"

lemma llm_kernel_current:
  "agent_current llm_kernel 0 = Some ((agent_at talk_kernel 1)\<lparr>caps := CAP_LLM\<rparr>)" "cur_idx llm_kernel 0 = Some 1"
  "kvm llm_kernel = llm_vm" "kpt llm_kernel 0 = 0x80400000" "kworld llm_kernel = offline" "length (agents llm_kernel) = 12"
proof -
  show c: "cur_idx llm_kernel 0 = Some 1" using talk_kernel_current by (simp add: llm_kernel_def cur_idx_def)
  show v: "kvm llm_kernel = llm_vm" "length (agents llm_kernel) = 12"
    using kernel_wfD [OF talk_kernel_wf] by (simp_all add: llm_kernel_def)
  show a: "agent_current llm_kernel 0 = Some ((agent_at talk_kernel 1)\<lparr>caps := CAP_LLM\<rparr>)"
    using c kernel_wfD [OF talk_kernel_wf] by (simp add: agent_current_def llm_kernel_def)
  show "kpt llm_kernel 0 = 0x80400000" using a talk_kernel_current by (simp add: kpt_def)
  show "kworld llm_kernel = offline" by (simp add: llm_kernel_def talk_kernel_def demo_kernel_def)
qed

lemma set_phase_frame [simp]:
  "kvm (agent_set_phase k h p) = kvm k" "kworld (agent_set_phase k h p) = kworld k" "kfs (agent_set_phase k h p) = kfs k"
  "cur_idx (agent_set_phase k h p) g = cur_idx k g" "llm_stream_buf (agent_set_phase k h p) = llm_stream_buf k"
  by (auto simp: agent_set_phase_def cur_idx_def upd_agent_def split: option.splits)

lemma stream_push_frame [simp]:
  "kvm (llm_stream_push c k) = kvm k" "agent_current (llm_stream_push c k) h = agent_current k h"
  "kpt (llm_stream_push c k) h = kpt k h" "kfs (llm_stream_push c k) = kfs k" "kworld (llm_stream_push c k) = kworld k"
proof -
  show c: "agent_current (llm_stream_push c k) h = agent_current k h"
    by (auto simp: llm_stream_push_def agent_current_def cur_idx_def agent_at_def intro!: option.map_cong)
  show v: "kvm (llm_stream_push c k) = kvm k" "kfs (llm_stream_push c k) = kfs k" "kworld (llm_stream_push c k) = kworld k"
    by (simp_all add: llm_stream_push_def)
  show "kpt (llm_stream_push c k) h = kpt k h" unfolding kpt_def c v ..
qed

lemma set_phase_current:
  "cur_idx k h = Some i \<Longrightarrow> i < length (agents k) \<Longrightarrow>
   agent_current (agent_set_phase k h p) h = Some ((agent_at k i)\<lparr>aphase := p\<rparr>)"
  by (simp add: agent_current_def agent_set_phase_def)

lemma llm_answer_current: "llm_answer llm_vm 0x80400000 0x60000000 = Some ''ok''"
  by code_simp

lemma llm_store_current:
  obtains v where "sv_store llm_vm 0x80400000 0x80000000 (''ok'' @ [NUL]) = Some v" "phys v 0x80000000 = CHR ''o''"
proof -
  have "(case sv_store llm_vm 0x80400000 0x80000000 (''ok'' @ [NUL]) of None \<Rightarrow> False | Some v \<Rightarrow> phys v 0x80000000 = CHR ''o'')"
    by code_simp
  with that show thesis by (auto split: option.splits)
qed

text \<open>A query stores its answer in a page that the check of user memory rejects; the flag for stores to the kernel's memory is set.\<close>

lemma llm_query_overwrites_kernel_page:
  "\<not> user_access_ok (kvm llm_kernel) (agent_current llm_kernel 0) 0x80000000 1 True \<and>
   phys (kvm llm_kernel) 0x80000000 = NUL \<and>
   (\<exists>k'. agent_llm_query llm_kernel 0 0x60000000 0x80000000 16 = Some (k', 2) \<and> phys (kvm k') 0x80000000 = CHR ''o'' \<and> kbuf_oob k')"
proof (intro conjI)
  note C = llm_kernel_current
  define a where "a = (agent_at talk_kernel 1)\<lparr>caps := CAP_LLM\<rparr>"
  have pt: "pagetable a = pagetable ro_agent" "pagetable a = 0x80400000"
    using talk_kernel_current by (simp_all add: a_def ro_agent_def)
  have "\<not> user_access_ok llm_vm (Some ro_agent) 0x80000000 1 True" by code_simp
  then show "\<not> user_access_ok (kvm llm_kernel) (agent_current llm_kernel 0) 0x80000000 1 True"
    unfolding C(1,3) a_def [symmetric] access_ok_agent [OF pt(1)] .
  show "phys (kvm llm_kernel) 0x80000000 = NUL" by (simp add: C(3) llm_vm_def talk_vm_def)
  define k1 where "k1 = agent_set_phase (llm_session_reset llm_kernel) 0 AGENT_PHASE_LLM_WAIT"
  have r: "cur_idx (llm_session_reset llm_kernel) 0 = Some 1" "agent_at (llm_session_reset llm_kernel) 1 = a"
    using C(1,2) by (simp_all add: llm_session_reset_def cur_idx_def agent_current_def agent_at_def a_def)
  have c1: "agent_current k1 0 = Some (a\<lparr>aphase := AGENT_PHASE_LLM_WAIT\<rparr>)"
    unfolding k1_def using set_phase_current [OF r(1)] r(2) C(6) by (simp add: llm_session_reset_def)
  have v1: "kvm k1 = llm_vm" "kworld k1 = offline" "kpt k1 0 = 0x80400000"
    using C c1 pt(2) by (simp_all add: k1_def llm_session_reset_def kpt_def)
  obtain v where v: "sv_store llm_vm 0x80400000 0x80000000 (''ok'' @ [NUL]) = Some v" "phys v 0x80000000 = CHR ''o''"
    using llm_store_current .
  define k2 where "k2 = llm_stream_push ''k'' (llm_stream_push ''o'' k1)"
  have k2: "kvm k2 = llm_vm" "kpt k2 0 = 0x80400000" "agent_current k2 0 = agent_current k1 0"
    using v1 by (simp_all add: k2_def)
  define k3 where "k3 = k2\<lparr>kvm := v, kbuf_oob := True\<rparr>"
  have "sv_kernel llm_vm 0x80400000 0x80000000 (length (''ok'' @ [NUL]))" by code_simp
  then have "sv_put k2 0 0x80000000 (''ok'' @ [NUL]) = Some k3"
    using k2(1,2) v(1) by (simp add: sv_put_def k3_def del: sv_store.simps)
  then have "llm_faux k1 0 0x60000000 0x80000000 16 = Some (k3, 2)"
    using v1 c1 llm_answer_current
    by (simp add: llm_faux_def faux_stream_def Let_def upt_rec agent_has_cap_def a_def k2_def)
  then have "llm_query_any k1 0 0x60000000 0x80000000 16 = Some (k3, 2)"
    using v1(2) by (simp add: llm_query_any_def offline_def)
  then have "agent_llm_query llm_kernel 0 0x60000000 0x80000000 16 =
      Some (agent_set_phase (llm_session_finish k3 0) 0 AGENT_PHASE_IDLE, 2)"
    using C(1) unfolding k1_def by (simp add: agent_llm_query_def agent_has_cap_def a_def Let_def)
  moreover have "kvm (llm_session_finish k3 0) = v" "kbuf_oob (llm_session_finish k3 0)"
    by (simp_all add: llm_session_finish_def Let_def k3_def)
  moreover have "kbuf_oob (agent_set_phase k h p) = kbuf_oob k" for k h p by (simp add: agent_set_phase_def split: option.splits)
  ultimately show "\<exists>k'. agent_llm_query llm_kernel 0 0x60000000 0x80000000 16 = Some (k', 2) \<and> phys (kvm k') 0x80000000 = CHR ''o'' \<and> kbuf_oob k'"
    using v(2) by simp
qed

end
