(* ===== verification/Http.thy ===== *)
theory Http
  imports Agentos World Persist
begin

text \<open>
  Fetching a URL (\<open>kernel/http.c\<close>): the built-in answers, the request over the host bridge and the
  choice between them.  The network stack and the bridge device answer through the \<open>world\<close>.  The
  result is the return code and the bytes stored in the caller's buffer; \<open>None\<close> means that the copy
  of the body runs past both buffers.
\<close>

unbundle bit_operations_syntax

section \<open>Definitions\<close>

abbreviation (input) HTTP_MAX_URL :: nat where "HTTP_MAX_URL \<equiv> 256"

abbreviation (input) HTTP_MAX_BODY :: nat where "HTTP_MAX_BODY \<equiv> 512"

fun url_contains :: "string \<Rightarrow> string \<Rightarrow> bool" where
  "url_contains [] needle = False"
| "url_contains (c # url) needle = (match_at (c # url) 0 needle \<or> url_contains url needle)"

definition http_faux :: "string \<Rightarrow> int \<Rightarrow> int \<times> string" where
  "http_faux url buflen =
     (if url_contains url ''reject'' then (EIO, [])
      else
        let body = (if url_contains url ''ingest'' then ''200:ingest-ok''
                    else if url_contains url ''agentos'' \<or> url_contains url ''stub/'' then ''200:agentos-net-stub''
                    else ''stub:200 ok'')
        in if int (length body) + 1 > buflen then (EINVAL, []) else (int (length body), body))"

definition put_u32_be :: "u32 \<Rightarrow> string" where
  "put_u32_be v = map (\<lambda>k. char_of (unat (drop_bit k v))) [24, 16, 8, 0]"

definition get_u32_be :: "string \<Rightarrow> u32" where
  "get_u32_be p = push_bit 24 (of_char (p ! 0)) OR push_bit 16 (of_char (p ! 1)) OR
                  push_bit 8 (of_char (p ! 2)) OR of_char (p ! 3)"

definition http_bridge_body :: "string \<Rightarrow> int \<Rightarrow> int \<Rightarrow> (int \<times> string) option" where
  "http_bridge_body rx rc buflen =
     (if rc < 0 then Some (rc, [])
      else if rc < 8 then Some (EIO, [])
      else if take 4 rx \<noteq> ''HTTR'' then Some (EIO, [])
      else
        let body_len = get_u32_be (drop 4 rx)
        in if uint (body_len + 8) > rc \<or> wrap32 (uint body_len) \<ge> buflen then Some (EIO, [])
           else if unat body_len + 8 > length rx then None
           else Some (wrap32 (uint body_len), take (unat body_len) (drop 8 rx)))"

definition http_bridge :: "world \<Rightarrow> string \<Rightarrow> int \<Rightarrow> (world \<times> int \<times> string) option" where
  "http_bridge w url buflen =
     (let u = take (HTTP_MAX_URL - 1) url
      in if buflen \<le> 0 \<or> u = [] then Some (w, EINVAL, [])
         else
           let rc = virtio_console_init w (w_calls w); w1 = w_step w
           in if rc \<noteq> 0 then Some (w1, rc, [])
              else (case virtio_http_exchange w1 (w_calls w1) (''HTTQ'' @ put_u32_be (of_nat (length u)) @ u) of
                (rc, rx) \<Rightarrow> map_option (Pair (w_step w1)) (http_bridge_body (pad_to (HTTP_MAX_BODY + 16) rx) rc buflen)))"

definition http_native :: "world \<Rightarrow> string \<Rightarrow> world \<times> int \<times> string" where
  "http_native w url =
     (if \<not> netstack_ready w then (w, ENODEV, []) else (w_step w, net_http_get w (w_calls w) url))"

definition agent_http_fetch :: "world \<Rightarrow> string \<Rightarrow> int \<Rightarrow> (world \<times> int \<times> string) option" where
  "agent_http_fetch w url buflen =
     (if buflen \<le> 0 then Some (w, EINVAL, [])
      else if w_http_build w = Http_faux then Some (w, http_faux url buflen)
      else (case http_native w url of (w1, rc, body) \<Rightarrow>
        if rc \<ge> 0 then Some (w1, rc, body)
        else if w_http_build w = Http_net_no_bridge then Some (w1, rc, [])
        else http_bridge w1 url buflen))"

section \<open>Lemmas\<close>

lemma url_contains_iff:
  "NUL \<notin> set needle \<Longrightarrow> needle \<noteq> [] \<Longrightarrow> url_contains url needle \<longleftrightarrow> (\<exists>p s. url = p @ needle @ s)"
proof (induction url)
  case Nil
  then show ?case by simp
next
  case (Cons c url)
  have "(\<exists>p s. c # url = p @ needle @ s) \<longleftrightarrow> (\<exists>s. c # url = needle @ s) \<or> (\<exists>p s. url = p @ needle @ s)"
    by (metis append_Cons append_Nil list.inject neq_Nil_conv)
  with Cons match_at_0_prefix [OF Cons.prems(1), of "c # url"] show ?case by simp
qed

lemma u32_bytes:
  "push_bit 24 (take_bit 8 (drop_bit 24 v)) OR push_bit 16 (take_bit 8 (drop_bit 16 v)) OR
   push_bit 8 (take_bit 8 (drop_bit 8 v)) OR take_bit 8 v = (v :: u32)"
proof (rule bit_word_eqI)
  fix n :: nat
  assume "n < LENGTH(32)"
  then consider "n < 8" | "8 \<le> n \<and> n < 16" | "16 \<le> n \<and> n < 24" | "24 \<le> n \<and> n < 32" by fastforce
  then show "bit (push_bit 24 (take_bit 8 (drop_bit 24 v)) OR push_bit 16 (take_bit 8 (drop_bit 16 v)) OR
      push_bit 8 (take_bit 8 (drop_bit 8 v)) OR take_bit 8 v) n = bit v n"
    by cases (auto simp: bit_simps)
qed

lemma get_put_u32_be: "get_u32_be (put_u32_be v @ rest) = v"
proof -
  have "(of_char c :: u32) = of_nat (of_char c)" for c :: char by (cases c) (simp add: of_char_def)
  then have "(of_char (char_of n :: char) :: u32) = of_nat (take_bit 8 n)" for n :: nat
    by (simp add: of_char_of take_bit_eq_mod)
  then have "(of_char (char_of (unat (drop_bit k v)) :: char) :: u32) = take_bit 8 (drop_bit k v)" for k
    by (metis of_nat_unat ucast_id unsigned_take_bit_eq)
  from this [of 24] this [of 16] this [of 8] this [of 0] show ?thesis
    using u32_bytes [of v] by (simp add: get_u32_be_def put_u32_be_def)
qed

lemma u32_add_8:
  fixes b :: u32
  shows "unat b < 4294967288 \<Longrightarrow> uint (b + 8) = uint b + 8"
    and "4294967288 \<le> unat b \<Longrightarrow> uint (b + 8) = uint b - 4294967288"
proof -
  have u: "uint (b + 8) = (uint b + 8) mod 4294967296" by (simp add: uint_word_ariths)
  have b: "0 \<le> uint b" "uint b < 4294967296" using uint_bounded [of b] by simp_all
  have n: "uint b = int (unat b)" by simp
  show "uint (b + 8) = uint b + 8" if "unat b < 4294967288"
  proof -
    have "uint b + 8 < 4294967296" using n that by linarith
    then show ?thesis unfolding u using b(1) by (intro mod_pos_pos_trivial) simp_all
  qed
  assume "4294967288 \<le> unat b"
  then have "4294967288 \<le> uint b" using n by linarith
  then have "(uint b + 8) mod 4294967296 = (uint b + 8 - 4294967296) mod 4294967296"
    by (intro minus_mod_self2 [symmetric])
  also have "\<dots> = uint b + 8 - 4294967296" using \<open>4294967288 \<le> uint b\<close> b by (intro mod_pos_pos_trivial) simp_all
  finally show "uint (b + 8) = uint b - 4294967288" unfolding u by simp
qed

text \<open>C23: The bridge's answer is copied within both buffers unless its length field is one of the eight
  largest 32-bit numbers: there the sum of the bound test wraps, and the copy overruns.  In every
  other case a non-negative return code is the number of bytes stored, and leaves room
  for the terminator.\<close>

theorem http_bridge_length_field:
  assumes "length rx = 528" "rc \<le> 528" "0 < buflen"
  shows "case http_bridge_body rx rc buflen of
      None \<Rightarrow> 8 \<le> rc \<and> take 4 rx = ''HTTR'' \<and> 4294967288 \<le> unat (get_u32_be (drop 4 rx))
    | Some (n, body) \<Rightarrow>
        (0 \<le> n \<longrightarrow> n = int (length body) \<and> n < buflen \<and> body = take (nat n) (drop 8 rx)) \<and>
        \<not> (8 \<le> rc \<and> take 4 rx = ''HTTR'' \<and> 4294967288 \<le> unat (get_u32_be (drop 4 rx)))"
proof (cases "8 \<le> rc \<and> take 4 rx = ''HTTR''")
  case False
  then show ?thesis by (auto simp: http_bridge_body_def)
next
  case True
  define b where "b = get_u32_be (drop 4 rx)"
  have n: "uint b = int (unat b)" "uint b < 4294967296" using uint_bounded [of b] by simp_all
  have e: "http_bridge_body rx rc buflen =
      (if uint (b + 8) > rc \<or> wrap32 (uint b) \<ge> buflen then Some (EIO, [])
       else if unat b + 8 > length rx then None else Some (wrap32 (uint b), take (unat b) (drop 8 rx)))"
    using True by (simp add: http_bridge_body_def b_def Let_def)
  show ?thesis
  proof (cases "4294967288 \<le> unat b")
    case wraps: True
    have u: "uint (b + 8) = uint b - 4294967288" using u32_add_8(2) [OF wraps] .
    have w: "wrap32 (uint b) = uint b - 4294967296" using wraps n by (intro wrap32_high) linarith+
    have "\<not> uint (b + 8) > rc" "\<not> wrap32 (uint b) \<ge> buflen"
      unfolding u w using n(2) assms(3) True by linarith+
    moreover have "unat b + 8 > length rx" using wraps assms(1) by linarith
    ultimately have "http_bridge_body rx rc buflen = None" unfolding e by simp
    with True wraps show ?thesis by (simp add: b_def)
  next
    case False
    then have s: "uint (b + 8) = uint b + 8" using u32_add_8(1) by simp
    show ?thesis
    proof (cases "uint (b + 8) > rc \<or> wrap32 (uint b) \<ge> buflen")
      case True
      with e False show ?thesis by (simp add: b_def)
    next
      case ok: False
      have le: "unat b \<le> 520" using ok s n assms(2) by linarith
      then have "uint b \<le> 520" using n(1) by linarith
      then have w: "wrap32 (uint b) = uint b" using uint_nonnegative [of b] by (intro wrap32_id) linarith+
      have "http_bridge_body rx rc buflen = Some (uint b, take (unat b) (drop 8 rx))"
        unfolding e using ok le assms(1) w by simp
      then show ?thesis using ok w le False assms(1) by (simp add: b_def)
    qed
  qed
qed

text \<open>An answer whose length field is the largest 32-bit number.\<close>

theorem http_bridge_length_field_witness:
  "http_bridge_body (''HTTR'' @ put_u32_be 0xffffffff @ replicate 520 NUL) 8 512 = None"
proof -
  define r where "r = replicate 520 NUL"
  let ?rx = "''HTTR'' @ put_u32_be 0xffffffff @ r"
  have r: "length r = 520" unfolding r_def by (rule length_replicate)
  then have l: "length ?rx = 528" by (simp add: put_u32_be_def)
  have "get_u32_be (drop 4 ?rx) = 0xffffffff" using get_put_u32_be [of "0xffffffff" r] by simp
  moreover have "take 4 ?rx = ''HTTR''" by simp
  ultimately show ?thesis
    using http_bridge_length_field [OF l, of 8 512] unfolding r_def [symmetric]
    by (cases "http_bridge_body ?rx 8 512") auto
qed

end
