(* ===== verification/Fleet.thy ===== *)
theory Fleet
  imports Agent Http
begin

text \<open>
  Telemetry and remote access: \<open>kernel/fleet.c\<close>, \<open>kernel/remote.c\<close>, \<open>kernel/mesh.c\<close> and the time counter of
  \<open>kernel/timer.c\<close>.

  A text under construction in a buffer of \<open>cap\<close> bytes is the list of the characters stored so far;
  \<open>None\<close> is the failure of an append for lack of room.  \<open>parse_http_url\<close> returns an error code or the
  host, the path, the port and the scheme.

  The lemmas show that the parser reads back every URL composed of these parts and that the
  status record always fits its buffer.
\<close>

section \<open>Definitions\<close>

subsection \<open>Building the status record\<close>

definition append_ulong :: "string \<Rightarrow> nat \<Rightarrow> int \<Rightarrow> string option" where
  "append_ulong buf cap val =
     (let ds = (if val = 0 then ''0'' else map digit_char (rev (take 16 (dec_loop val))))
      in if length buf + length ds > cap - 1 then None else Some (buf @ ds))"

definition fleet_append_int :: "string \<Rightarrow> nat \<Rightarrow> int \<Rightarrow> string option" where
  "fleet_append_int buf cap val =
     (if val < 0 then
        (if length buf \<ge> cap - 1 then None
         else append_ulong (buf @ ''-'') cap (uint (of_int (wrap32 (- val)) :: u64)))
      else append_ulong buf cap val)"

definition fleet_append_str :: "string \<Rightarrow> nat \<Rightarrow> string \<Rightarrow> string" where
  "fleet_append_str buf cap s = buf @ take (cap - 1 - length buf) s"

definition timer_now :: "kernel \<Rightarrow> u64" where
  "timer_now k = ktime k div 500000"

abbreviation (input) OPENAGENTOS_VERSION :: string where "OPENAGENTOS_VERSION \<equiv> ''1.0.0''"

abbreviation (input) platform_name :: string where "platform_name \<equiv> ''riscv64-virt''"

abbreviation (input) FLEET_CACHE :: string where "FLEET_CACHE \<equiv> ''/agent/0/fleet.json''"

abbreviation (input) FLEET_COLLECTOR_PATH :: string where "FLEET_COLLECTOR_PATH \<equiv> ''/sys/fleet/collector''"

abbreviation (input) FLEET_COLLECTOR_DEFAULT :: string where
  "FLEET_COLLECTOR_DEFAULT \<equiv> ''http://ingest/openagentos''"

abbreviation (input) FLEET_COLLECTOR_NET :: string where
  "FLEET_COLLECTOR_NET \<equiv> ''http://10.0.2.2:8765/ingest''"

definition fleet_json :: "int \<Rightarrow> u64 \<Rightarrow> int \<Rightarrow> int \<Rightarrow> string option" where
  "fleet_json count up used max_ipc =
     Option.bind (fleet_append_int
         (fleet_append_str (fleet_append_str ''{\"v\":\"'' 256 OPENAGENTOS_VERSION @ ''\",\"p\":\"'') 256 platform_name
            @ ''\",\"agents\":'') 256 count) (\<lambda>s1.
     Option.bind (append_ulong (s1 @ '',\"uptime\":'') 256 (uint up)) (\<lambda>s2.
     Option.bind (fleet_append_int (s2 @ '',\"quota_ipc\":'') 256 used) (\<lambda>s3.
     Option.bind (fleet_append_int (s3 @ '',\"quota_ipc_max\":'') 256 max_ipc) (\<lambda>s4.
       if length s4 \<ge> 254 then None else Some (s4 @ ''}'')))))"

definition fleet_init :: "kernel \<Rightarrow> kernel" where
  "fleet_init k =
     (if ramfs_path_exists (kfs k) FLEET_COLLECTOR_PATH then k
      else k\<lparr>kfs := fst (ramfs_put (kfs k) FLEET_COLLECTOR_PATH FLEET_COLLECTOR_DEFAULT
                        (int (length FLEET_COLLECTOR_DEFAULT)))\<rparr>)"

definition fleet_status :: "kernel \<Rightarrow> int" where
  "fleet_status k = agent_count k"

definition fleet_push :: "kernel \<Rightarrow> agent option \<Rightarrow> kernel \<times> int" where
  "fleet_push k a =
     (case fleet_json (agent_count k) (timer_now k)
        (case a of None \<Rightarrow> 0 | Some _ \<Rightarrow> quota_ipc_used (kquota k) a)
        (case a of None \<Rightarrow> QUOTA_IPC_MAX | Some _ \<Rightarrow> quota_ipc_max a) of
        None \<Rightarrow> (k, ENOSPC)
      | Some json \<Rightarrow>
          (case ramfs_put (kfs k) FLEET_CACHE json (int (length json)) of (fs, rc) \<Rightarrow>
             if rc < 0 then (k\<lparr>kfs := fs\<rparr>, rc) else (k\<lparr>kfs := fs\<rparr>, int (length json))))"

subsection \<open>URLs\<close>

fun port_loop :: "int \<Rightarrow> string \<Rightarrow> (int \<times> string) option" where
  "port_loop p [] = Some (p, [])"
| "port_loop p (c # cs) =
     (if is_digit c then
        let p1 = p * 10 + digit_val c in if p1 > 65535 then None else port_loop p1 cs
      else Some (p, c # cs))"

definition parse_http_url :: "string \<Rightarrow> nat \<Rightarrow> nat \<Rightarrow> int + (string \<times> string \<times> int \<times> bool)" where
  "parse_http_url url hcap pcap =
     (if hcap = 0 \<or> pcap = 0 then Inl EINVAL
      else if \<not> match_at url 0 ''http'' then Inl EINVAL
      else
        let is_https = (chr_at url 4 = CHR ''s'');
            r = drop (if is_https then 5 else 4) url
        in if \<not> match_at r 0 ''://'' then Inl EINVAL
           else
             let r1 = drop 3 r; host = takeWhile (\<lambda>c. c \<noteq> CHR ''/'' \<and> c \<noteq> CHR '':'') r1; r2 = drop (length host) r1
             in if length host > hcap - 1 then Inl ENOSPC
                else if host = [] then Inl EINVAL
                else (case (if chr_at r2 0 = CHR '':'' then port_loop 0 (drop 1 r2)
                            else Some (if is_https then 443 else 80, r2)) of
                        None \<Rightarrow> Inl EINVAL
                      | Some (port, r3) \<Rightarrow>
                          if r3 = [] then Inr (host, ''/'', port, is_https)
                          else if length r3 > pcap - 1 then Inl ENOSPC
                          else Inr (host, r3, port, is_https)))"

definition fleet_ingest_net :: "kernel \<Rightarrow> string \<Rightarrow> string \<Rightarrow> kernel \<times> int" where
  "fleet_ingest_net k url json =
     (case parse_http_url url 64 128 of
        Inl rc \<Rightarrow> (k, rc)
      | Inr (host, path, port, is_https) \<Rightarrow>
          if policy_net_allow (kpol k) host port \<noteq> 0 then (k, EPERM)
          else
            let w = kworld k
            in (k\<lparr>kworld := w_step w\<rparr>,
                fst ((if is_https then net_https_post_port w else net_http_post w) (w_calls w) host port path json)))"

definition fleet_ingest :: "kernel \<Rightarrow> string option \<Rightarrow> (kernel \<times> int) option" where
  "fleet_ingest k url =
     (case ramfs_read (kfs k) FLEET_CACHE 0 8191 of (n, json) \<Rightarrow>
        if n \<le> 0 then Some (k, ENOENT)
        else
          let ready = netstack_ready (kworld k);
              u = (case url of
                     Some (c # cs) \<Rightarrow> c # cs
                   | _ \<Rightarrow>
                       if ready then FLEET_COLLECTOR_NET
                       else (case ramfs_read (kfs k) FLEET_COLLECTOR_PATH 0 255 of
                               (n1, b) \<Rightarrow> if n1 > 0 then cstr b else FLEET_COLLECTOR_DEFAULT))
          in if ready then Some (fleet_ingest_net k u (cstr json))
             else map_option (\<lambda>(w, rc, body). (k\<lparr>kworld := w\<rparr>, rc)) (agent_http_fetch (kworld k) u (int HTTP_MAX_BODY)))"

definition fleet_probe :: "string \<Rightarrow> int" where
  "fleet_probe url = (if url = [] then EINVAL else 0)"

subsection \<open>Remote access and discovery\<close>

abbreviation (input) REMOTE_TOKEN_PATH :: string where "REMOTE_TOKEN_PATH \<equiv> ''/sys/console/token''"

abbreviation (input) REMOTE_DEFAULT_TOKEN :: string where "REMOTE_DEFAULT_TOKEN \<equiv> ''agentos-beta''"

fun resp_has_pong :: "string \<Rightarrow> bool" where
  "resp_has_pong [] = False"
| "resp_has_pong (c # cs) = (take 4 (c # cs) = ''PONG'' \<or> resp_has_pong cs)"

definition remote_init :: "kernel \<Rightarrow> kernel" where
  "remote_init k = k\<lparr>remote_enabled := False,
     kfs := fst (ramfs_put (kfs k) REMOTE_TOKEN_PATH REMOTE_DEFAULT_TOKEN (int (length REMOTE_DEFAULT_TOKEN)))\<rparr>"

definition remote_status :: "kernel \<Rightarrow> int" where
  "remote_status k = (if remote_enabled k then 1 else 0)"

definition remote_enable :: "kernel \<Rightarrow> kernel \<times> int" where
  "remote_enable k = (k\<lparr>remote_enabled := True\<rparr>, 0)"

definition remote_disable :: "kernel \<Rightarrow> kernel \<times> int" where
  "remote_disable k = (k\<lparr>remote_enabled := False\<rparr>, 0)"

definition remote_ping :: "kernel \<Rightarrow> int" where
  "remote_ping k = (if \<not> remote_enabled k then EPERM else 0)"

definition remote_connect :: "kernel \<Rightarrow> kernel \<times> int" where
  "remote_connect k =
     (let w = kworld k
      in if \<not> remote_enabled k then (k, EPERM)
         else if \<not> netstack_ready w then (k, ENODEV)
         else
           let w1 = w_step w; k1 = k\<lparr>kworld := w1\<rparr>
           in if net_tcp_connect_ip w (w_calls w) \<noteq> 0 then (k1, EIO)
              else
                let w2 = w_step w1; k2 = k\<lparr>kworld := w2\<rparr>
                in if net_tcp_write w1 (w_calls w1) (''LINK '' @ REMOTE_DEFAULT_TOKEN @ [NEWLINE]) < 0 then (k2, EIO)
                   else (case net_tcp_read w2 (w_calls w2) of (n, resp) \<Rightarrow>
                     let k3 = k\<lparr>kworld := w_step w2\<rparr>
                     in if n < 0 \<or> \<not> resp_has_pong (take (nat n) resp) then (k3, EIO) else (k3, 0)))"

definition mesh_status :: int where
  "mesh_status = 0"

definition mesh_beacon :: int where
  "mesh_beacon = 0"

definition mesh_probe :: "string \<Rightarrow> int" where
  "mesh_probe service = (if service = [] then EINVAL else 0)"

section \<open>Lemmas\<close>

lemma append_ulong_fits:
  "length buf \<le> 239 \<Longrightarrow> \<exists>ds. append_ulong buf 256 v = Some (buf @ ds) \<and> length ds \<le> 16"
  using min.cobounded2 [of "length (dec_loop v)" 16] by (simp add: append_ulong_def Let_def) linarith

lemma fleet_append_int_fits:
  assumes "length buf \<le> 238"
  shows "\<exists>ds. fleet_append_int buf 256 v = Some (buf @ ds) \<and> length ds \<le> 17"
proof (cases "v < 0")
  case True
  with append_ulong_fits [of "buf @ ''-''"] assms show ?thesis
    by (force simp: fleet_append_int_def)
next
  case False
  with append_ulong_fits [of buf v] assms show ?thesis by (force simp: fleet_append_int_def)
qed

lemma fleet_json_fits: "\<exists>json. fleet_json count up used max_ipc = Some json \<and> length json < 256"
proof -
  let ?h = "fleet_append_str (fleet_append_str ''{\"v\":\"'' 256 OPENAGENTOS_VERSION @ ''\",\"p\":\"'') 256 platform_name
            @ ''\",\"agents\":''"
  have "length ?h = 41" by (simp add: fleet_append_str_def)
  then obtain d1 where d1: "fleet_append_int ?h 256 count = Some (?h @ d1)" "length d1 \<le> 17"
    using fleet_append_int_fits [of ?h count] by auto
  let ?s1 = "(?h @ d1) @ '',\"uptime\":''"
  have l1: "length ?s1 \<le> 69" using d1(2) \<open>length ?h = 41\<close> by simp
  then obtain d2 where d2: "append_ulong ?s1 256 (uint up) = Some (?s1 @ d2)" "length d2 \<le> 16"
    using append_ulong_fits [of ?s1] by auto
  let ?s2 = "(?s1 @ d2) @ '',\"quota_ipc\":''"
  have l2: "length ?s2 \<le> 98" using d2(2) l1 by simp
  then obtain d3 where d3: "fleet_append_int ?s2 256 used = Some (?s2 @ d3)" "length d3 \<le> 17"
    using fleet_append_int_fits [of ?s2 used] by auto
  let ?s3 = "(?s2 @ d3) @ '',\"quota_ipc_max\":''"
  have l3: "length ?s3 \<le> 133" using d3(2) l2 by simp
  then obtain d4 where d4: "fleet_append_int ?s3 256 max_ipc = Some (?s3 @ d4)" "length d4 \<le> 17"
    using fleet_append_int_fits [of ?s3 max_ipc] by auto
  have "length (?s3 @ d4) \<le> 150" using d4(2) l3 by simp
  moreover from this have "fleet_json count up used max_ipc = Some ((?s3 @ d4) @ ''}'')"
    unfolding fleet_json_def using d1(1) d2(1) d3(1) d4(1) by simp
  ultimately show ?thesis by auto
qed

lemma port_loop_dec_loop:
  assumes "0 \<le> n" "n \<le> 65535"
  shows "port_loop 0 (map digit_char (rev (dec_loop n)) @ s) = port_loop n s"
  using assms
proof (induction n arbitrary: s rule: dec_loop.induct)
  case (1 n)
  show ?case
  proof (cases "n > 0")
    case True
    have d: "0 \<le> n mod 10" "n mod 10 < 10" by simp_all
    have "port_loop 0 (map digit_char (rev (dec_loop n)) @ s) =
        port_loop 0 (map digit_char (rev (dec_loop (n div 10))) @ digit_char (n mod 10) # s)"
      using True by (simp add: dec_loop_pos)
    also have "\<dots> = port_loop (n div 10) (digit_char (n mod 10) # s)"
      using "1.IH" [OF True] "1.prems" True by simp
    also have "\<dots> = port_loop n s"
      using "1.prems" d is_digit_digit_char [OF d] digit_val_digit_char [OF d] by (simp add: Let_def)
    finally show ?thesis .
  next
    case False
    with "1.prems" show ?thesis by simp
  qed
qed

lemma port_loop_stop: "\<not> is_digit (chr_at s 0) \<Longrightarrow> port_loop p s = Some (p, s)"
  by (cases s) simp_all

lemma port_loop_dec_str:
  assumes "0 \<le> n" "n \<le> 65535" "\<not> is_digit (chr_at s 0)"
  shows "port_loop 0 (dec_str n @ s) = Some (n, s)"
proof (cases "n = 0")
  case True
  then show ?thesis using assms(3) port_loop_stop by (simp add: dec_str_def Let_def)
next
  case False
  with assms port_loop_dec_loop [OF assms(1,2), of s] port_loop_stop show ?thesis by (simp add: dec_str_def)
qed

text \<open>C24: Parsing a URL reads back its parts: scheme, host, port and path of every URL
  composed of a host of at most 63 characters without slash and colon, a port in
  range and a path of at most 127 characters that starts with a slash.\<close>

theorem parse_http_url_composed:
  assumes "host \<noteq> []" "length host \<le> 63" "CHR ''/'' \<notin> set host" "CHR '':'' \<notin> set host"
    "0 \<le> port" "port \<le> 65535" "length path \<le> 126"
  shows "parse_http_url ((if tls then ''https://'' else ''http://'') @ host @ '':'' @ dec_str port @ CHR ''/'' # path) 64 128
    = Inr (host, CHR ''/'' # path, port, tls)"
proof -
  let ?rest = "'':'' @ dec_str port @ CHR ''/'' # path"
  have tw: "takeWhile (\<lambda>c. c \<noteq> CHR ''/'' \<and> c \<noteq> CHR '':'') (host @ ?rest) = host"
    using assms(3,4) by (subst takeWhile_append2) auto
  have p: "port_loop 0 (dec_str port @ CHR ''/'' # path) = Some (port, CHR ''/'' # path)"
    using assms(5,6) by (intro port_loop_dec_str) simp_all
  show ?thesis
    using assms(1,2,7) tw p by (cases tls) (simp_all add: parse_http_url_def Let_def)
qed

theorem parse_http_url_composed_witness:
  "parse_http_url ''https://box.local:8443/ingest'' 64 128 = Inr (''box.local'', ''/ingest'', 8443, True)"
proof -
  have "dec_str 8443 = ''8443''" by code_simp
  then show ?thesis using parse_http_url_composed [of "''box.local''" 8443 "''ingest''" True] by simp
qed

end
