(* ===== verification/Ota.thy ===== *)
theory Ota
  imports Kaccess
begin

text \<open>
  Update packages: \<open>kernel/ota.c\<close>, and the two programs that make them, \<open>scripts/mk-agentpkg.py\<close> and
  \<open>tools/ota-sign.py\<close>.

  A package is a manifest of 128 bytes followed by a program.  The manifest is the record
  \<open>ota_manifest\<close>, read from the bytes by \<open>dec_manifest\<close>; its \<open>install_path\<close> field is not terminated, so the
  path goes on in the bytes of \<open>hmac\<close>.  The hash function of mbedtls belongs to the \<open>world\<close>.  A result \<open>None\<close>
  means that the kernel reads outside the buffer that holds the package, or faults.

  The lemmas characterise the packages that the kernel accepts, independently of the code's control
  flow, and show what it installs for a package of each of the two programs.
\<close>

section \<open>Definitions\<close>

abbreviation (input) OTA_PKG_MAGIC :: u32 where "OTA_PKG_MAGIC \<equiv> 0x4b504f41"

abbreviation (input) OTA_FMT_VERSION :: u32 where "OTA_FMT_VERSION \<equiv> 1"

abbreviation (input) OTA_FMT_SIGNED :: u32 where "OTA_FMT_SIGNED \<equiv> 2"

abbreviation (input) OTA_MANIFEST_SIZE :: nat where "OTA_MANIFEST_SIZE \<equiv> 128"

abbreviation (input) OTA_PATH_CHANNEL :: string where "OTA_PATH_CHANNEL \<equiv> ''/sys/ota/channel''"

abbreviation (input) OTA_CHANNEL_STABLE :: string where "OTA_CHANNEL_STABLE \<equiv> ''stable''"

abbreviation (input) ota_hmac_key :: string where "ota_hmac_key \<equiv> ''openagentos-ota-dev-key-v1''"

record ota_manifest =
  om_magic :: u32
  om_format :: u32
  om_sig :: u32
  om_name :: string
  om_version :: string
  om_channel :: string
  om_caps :: u32
  om_elf_offset :: u32
  om_elf_size :: u32
  om_install_path :: string
  om_hmac :: string

definition dec_manifest :: "string \<Rightarrow> ota_manifest" where
  "dec_manifest b = \<lparr>om_magic = dec32 b, om_format = dec32 (drop 4 b), om_sig = dec32 (drop 8 b),
     om_name = take 32 (drop 12 b), om_version = take 16 (drop 44 b), om_channel = take 8 (drop 60 b),
     om_caps = dec32 (drop 68 b), om_elf_offset = dec32 (drop 72 b), om_elf_size = dec32 (drop 76 b),
     om_install_path = take 16 (drop 80 b), om_hmac = take 32 (drop 96 b)\<rparr>"

definition ota_crc32_update :: "u32 \<Rightarrow> string \<Rightarrow> u32" where
  "ota_crc32_update crc data = foldl crc_byte crc data"

definition ota_file_size :: "ramfs \<Rightarrow> string \<Rightarrow> int" where
  "ota_file_size fs path =
     (let n = fst (ramfs_read fs path 0 1)
      in if n < 0 then n else size_loop (\<lambda>off. fst (ramfs_read fs path (of_nat off) 1)) 1)"

definition ota_pkg_path_ok :: "agent option \<Rightarrow> string \<Rightarrow> bool" where
  "ota_pkg_path_ok cur path \<longleftrightarrow>
     match_at path 1 ''sys/ota/'' \<or>
     match_at path 1 ''agent/'' \<and>
       (case parse_uint 0 (drop 7 path) of (i, rest) \<Rightarrow>
          chr_at rest 0 = CHR ''/'' \<and> cur \<noteq> None \<and> i = aid (the cur))"

definition to_lower :: "char \<Rightarrow> char" where
  "to_lower c = (let n = (of_char c :: nat) in if 65 \<le> n \<and> n \<le> 90 then char_of (n + 32) else c)"

fun channel_eq :: "nat \<Rightarrow> string \<Rightarrow> string \<Rightarrow> bool" where
  "channel_eq 0 cur pkg = True"
| "channel_eq (Suc n) cur pkg =
     (let a = to_lower (chr_at cur 0); b = to_lower (chr_at pkg 0)
      in if a \<noteq> b then False else if a = NUL then True else channel_eq n (tl cur) (tl pkg))"

definition ota_channel_matches :: "ramfs \<Rightarrow> string \<Rightarrow> bool" where
  "ota_channel_matches fs pkg_channel =
     (case ramfs_read fs OTA_PATH_CHANNEL 0 15 of (n, cur) \<Rightarrow>
        if n \<le> 0 then chr_at pkg_channel 0 = CHR ''s'' else channel_eq 8 cur pkg_channel)"

definition ota_package_sig :: "string \<Rightarrow> u32 \<Rightarrow> u32 \<Rightarrow> u32 option" where
  "ota_package_sig pkg elf_offset tot =
     (let tmp = take 8 pkg @ replicate 4 NUL @ take 116 (drop 12 pkg);
          crc = ota_crc32_update 0xffffffff tmp
      in if elf_offset > of_nat OTA_MANIFEST_SIZE \<and> unat elf_offset > length pkg then None
         else
           let crc1 = (if elf_offset > of_nat OTA_MANIFEST_SIZE
                       then ota_crc32_update crc (take (unat elf_offset - OTA_MANIFEST_SIZE) (drop OTA_MANIFEST_SIZE pkg))
                       else crc);
               crc2 = (if tot > elf_offset
                       then ota_crc32_update crc1 (take (unat tot - unat elf_offset) (drop (unat elf_offset) pkg))
                       else crc1)
           in Some (crc2 XOR 0xffffffff))"

definition ota_compute_hmac :: "world \<Rightarrow> string \<Rightarrow> string" where
  "ota_compute_hmac w pkg =
     mbedtls_sha256 w (ota_hmac_key @
       (if length pkg < OTA_MANIFEST_SIZE then pkg
        else take 96 pkg @ replicate 32 NUL @ drop OTA_MANIFEST_SIZE pkg))"

definition ota_hmac_match :: "world \<Rightarrow> string \<Rightarrow> string \<Rightarrow> int" where
  "ota_hmac_match w pkg expect = (if take 32 (ota_compute_hmac w pkg) = expect then 0 else EPERM)"

definition ota_authentic :: "world \<Rightarrow> string \<Rightarrow> bool option" where
  "ota_authentic w buf =
     (let m = dec_manifest buf
      in if om_format m = OTA_FMT_SIGNED then Some (ota_hmac_match w buf (om_hmac m) = 0)
         else map_option (\<lambda>s. s = om_sig m) (ota_package_sig buf (om_elf_offset m) (of_nat (length buf))))"

definition ota_check_package :: "world \<Rightarrow> ramfs \<Rightarrow> string \<Rightarrow> int option" where
  "ota_check_package w fs buf =
     (let m = dec_manifest buf
      in if om_magic m \<noteq> OTA_PKG_MAGIC then Some EINVAL
         else if om_format m \<noteq> OTA_FMT_VERSION \<and> om_format m \<noteq> OTA_FMT_SIGNED then Some EINVAL
         else if om_elf_offset m < of_nat OTA_MANIFEST_SIZE then Some EINVAL
         else if om_elf_offset m + om_elf_size m > of_nat (length buf) then Some EINVAL
         else if chr_at (om_install_path m) 0 \<noteq> CHR ''/'' then Some EINVAL
         else (case ota_authentic w buf of
                 None \<Rightarrow> None
               | Some ok \<Rightarrow>
                   if \<not> ok then Some EPERM
                   else if \<not> ota_channel_matches fs (om_channel m) then Some EPERM
                   else Some 0))"

definition ota_parse_package :: "kernel \<Rightarrow> string \<Rightarrow> (kernel \<times> (int + string)) option" where
  "ota_parse_package k path =
     (let len = ota_file_size (kfs k) path
      in if len < 0 then Some (k, Inl len)
         else if len < int OTA_MANIFEST_SIZE + 64 then Some (k, Inl EINVAL)
         else (case kalloc_k k (of_int len) of (k1, p) \<Rightarrow>
           if p = 0 then Some (k1, Inl ENOSPC)
           else (case ramfs_read (kfs k1) path 0 len of (rc, buf) \<Rightarrow>
             if rc \<noteq> len then Some (k1, Inl (if rc < 0 then rc else EIO))
             else (case ota_check_package (kworld k1) (kfs k1) buf of
                     None \<Rightarrow> None
                   | Some rc \<Rightarrow> Some (k1, if rc \<noteq> 0 then Inl rc else Inr buf)))))"

definition ota_init :: "kernel \<Rightarrow> kernel" where
  "ota_init k =
     (if fst (ramfs_read (kfs k) OTA_PATH_CHANNEL 0 15) > 0 then k
      else k\<lparr>kfs := fst (ramfs_put (kfs k) OTA_PATH_CHANNEL OTA_CHANNEL_STABLE 6)\<rparr>)"

definition ota_kernel_gen :: int where
  "ota_kernel_gen = 2"

definition ota_channel_set :: "kernel \<Rightarrow> nat \<Rightarrow> u64 \<Rightarrow> kernel \<times> int" where
  "ota_channel_set k h ptr =
     (if ptr = 0 then (k, EINVAL)
      else (case fetch_str k h ptr 16 EINVAL (Some EINVAL) (junk_run k) of
              Inl e \<Rightarrow> (k, e)
            | Inr s \<Rightarrow>
                (case ramfs_put (kfs k) OTA_PATH_CHANNEL s (user_text k h ptr 15) of (fs, rc) \<Rightarrow>
                   (k\<lparr>kfs := fs\<rparr>, if rc \<noteq> 0 then ENOSPC else 0))))"

definition ota_channel_get :: "kernel \<Rightarrow> nat \<Rightarrow> u64 \<Rightarrow> int \<Rightarrow> (kernel \<times> int) option" where
  "ota_channel_get k h buf buflen =
     (if buf = 0 \<or> buflen \<le> 0 then Some (k, EINVAL)
      else (case ramfs_read (kfs k) OTA_PATH_CHANNEL 0 (buflen - 1) of (n, bs) \<Rightarrow>
        if n < 0 then Some (k, n)
        else (case sv_put k h buf (bs @ [NUL]) of None \<Rightarrow> None | Some k1 \<Rightarrow> Some (k1, n))))"

definition ota_verify_package_kpath :: "kernel \<Rightarrow> string \<Rightarrow> (kernel \<times> int) option" where
  "ota_verify_package_kpath k kpath =
     (case ota_parse_package k kpath of
        None \<Rightarrow> None
      | Some (k1, Inl rc) \<Rightarrow> Some (k1, rc)
      | Some (k1, Inr buf) \<Rightarrow> Some (k1, 0))"

definition install_target :: "kernel \<Rightarrow> string \<Rightarrow> string" where
  "install_target k buf = cstr (take 48 (drop 80 buf) @ junk_run k)"

definition ota_apply_package_kpath :: "kernel \<Rightarrow> nat \<Rightarrow> string \<Rightarrow> (kernel \<times> int) option" where
  "ota_apply_package_kpath k h kpath =
     (if \<not> agent_has_cap (agent_current k h) CAP_FS then Some (k, EPERM)
      else if \<not> ota_pkg_path_ok (agent_current k h) kpath then Some (k, EPERM)
      else (case ota_parse_package k kpath of
              None \<Rightarrow> None
            | Some (k1, Inl rc) \<Rightarrow> Some (k1, rc)
            | Some (k1, Inr buf) \<Rightarrow>
                let m = dec_manifest buf;
                    off = unat (om_elf_offset m);
                    elf_len = wrap32 (uint (om_elf_size m));
                    dst = install_target k1 buf
                in if 0 < elf_len \<and> elf_len < int RAMFS_FILE_SIZE \<and> off + nat elf_len > length buf \<and>
                      snd (ramfs_lookup (kfs k1) dst True) \<noteq> None then None
                   else (case ramfs_put (kfs k1) dst (drop off buf) elf_len of (fs, rc) \<Rightarrow>
                           Some (k1\<lparr>kfs := fs\<rparr>, if rc \<noteq> 0 then ENOSPC else 0))))"

definition ota_verify_package :: "kernel \<Rightarrow> nat \<Rightarrow> u64 \<Rightarrow> (kernel \<times> int) option" where
  "ota_verify_package k h ptr =
     (if ptr = 0 then Some (k, EINVAL)
      else (case fetch_str k h ptr 64 EFAULT (Some EFAULT) (junk_run k) of
              Inl e \<Rightarrow> Some (k, e)
            | Inr kpath \<Rightarrow> ota_verify_package_kpath k kpath))"

definition ota_apply_package :: "kernel \<Rightarrow> nat \<Rightarrow> u64 \<Rightarrow> (kernel \<times> int) option" where
  "ota_apply_package k h ptr =
     (if \<not> agent_has_cap (agent_current k h) CAP_FS then Some (k, EPERM)
      else if ptr = 0 then Some (k, EINVAL)
      else (case fetch_str k h ptr 64 EFAULT (Some EFAULT) (junk_run k) of
              Inl e \<Rightarrow> Some (k, e)
            | Inr kpath \<Rightarrow> ota_apply_package_kpath k h kpath))"

subsection \<open>The programs that make packages\<close>

definition put_field :: "nat \<Rightarrow> nat \<Rightarrow> string \<Rightarrow> string" where
  "put_field lim width s = pad_to width (take lim s)"

definition pkg_manifest ::
    "u32 \<Rightarrow> u32 \<Rightarrow> string \<Rightarrow> string \<Rightarrow> string \<Rightarrow> u32 \<Rightarrow> u32 \<Rightarrow> string \<Rightarrow> string" where
  "pkg_manifest fmt sig name version channel cps elf_size tail =
     enc32 OTA_PKG_MAGIC @ enc32 fmt @ enc32 sig @ put_field 31 32 name @ put_field 15 16 version @
     put_field 7 8 channel @ enc32 cps @ enc32 (of_nat OTA_MANIFEST_SIZE) @ enc32 elf_size @ tail"

definition mk_agentpkg :: "string \<Rightarrow> string \<Rightarrow> string \<Rightarrow> u32 \<Rightarrow> string \<Rightarrow> string \<Rightarrow> string" where
  "mk_agentpkg name version channel cps install_path elf =
     (let man = (\<lambda>sig. pkg_manifest OTA_FMT_VERSION sig name version channel cps (of_nat (length elf))
                         (put_field 47 48 install_path))
      in man (persist_crc32 (man 0 @ elf)) @ elf)"

definition ota_sign :: "(string \<Rightarrow> string) \<Rightarrow> string \<Rightarrow> string \<Rightarrow> string \<Rightarrow> string \<Rightarrow> string \<Rightarrow> string" where
  "ota_sign sha256 name version channel install_path elf =
     (let pad = replicate ((OTA_MANIFEST_SIZE - length elf mod OTA_MANIFEST_SIZE) mod OTA_MANIFEST_SIZE) NUL;
          man = (\<lambda>hmac. pkg_manifest OTA_FMT_SIGNED 0 name version channel 0 (of_nat (length elf))
                          (put_field 15 16 install_path @ hmac))
      in man (sha256 (ota_hmac_key @ man (replicate 32 NUL) @ pad @ elf)) @ pad @ elf)"

section \<open>Accepted packages\<close>

lemma length_put_field [simp]: "lim \<le> width \<Longrightarrow> length (put_field lim width s) = width"
  by (simp add: put_field_def)

lemma length_pkg_manifest: "length (pkg_manifest fmt sig name version channel cps n tail) = 80 + length tail"
  by (simp add: pkg_manifest_def)

lemma dec_pkg_manifest:
  assumes "length tail = 48"
  shows "dec_manifest (pkg_manifest fmt sig name version channel cps n tail @ rest) =
    \<lparr>om_magic = OTA_PKG_MAGIC, om_format = fmt, om_sig = sig, om_name = put_field 31 32 name,
     om_version = put_field 15 16 version, om_channel = put_field 7 8 channel, om_caps = cps,
     om_elf_offset = 128, om_elf_size = n, om_install_path = take 16 tail, om_hmac = drop 16 tail\<rparr>"
proof -
  have "take 32 (drop 16 tail @ rest) = drop 16 tail" using assms by simp
  then show ?thesis using assms by (simp add: dec_manifest_def pkg_manifest_def)
qed

text \<open>The checksum of the first format is the CRC of the package with its checksum field zeroed.\<close>

definition crc_signed :: "string \<Rightarrow> u32" where
  "crc_signed pkg = persist_crc32 (take 8 pkg @ replicate 4 NUL @ drop 12 pkg)"

lemma xor_all_ones: "x XOR 0xffffffff = NOT (x :: u32)"
proof -
  have "(0xffffffff :: u32) = - 1" by simp
  then show ?thesis by (simp only: bit.xor_one_right)
qed

lemma ota_package_sig_crc:
  assumes "128 \<le> unat off" "unat off \<le> length pkg" "length pkg < 4294967296"
  shows "ota_package_sig pkg off (of_nat (length pkg)) = Some (crc_signed pkg)"
proof -
  have l: "unat (of_nat (length pkg) :: u32) = length pkg" using assms(3) by (simp add: unat_of_nat)
  define z where "z = take 8 pkg @ replicate 4 NUL @ take 116 (drop 12 pkg)"
  have o: "(128 < off) = (128 < unat off)" by (simp add: word_less_nat_alt)
  have t: "((of_nat (length pkg) :: u32) > off) = (unat off < length pkg)" by (simp add: word_less_nat_alt l)
  define mid where "mid = take (unat off - 128) (drop 128 pkg)"
  define fin where "fin = drop (unat off) pkg"
  have m: "mid @ fin = drop 128 pkg"
  proof -
    have "drop (unat off) pkg = drop (unat off - 128) (drop 128 pkg)" using assms(1) by simp
    then show ?thesis unfolding mid_def fin_def by (metis append_take_drop_id)
  qed
  have "ota_package_sig pkg off (of_nat (length pkg)) =
      Some (ota_crc32_update (ota_crc32_update (ota_crc32_update 0xffffffff z) mid) fin XOR 0xffffffff)"
    using assms(1,2) by (auto simp: ota_package_sig_def Let_def o t l z_def mid_def fin_def ota_crc32_update_def)
  also have "\<dots> = Some (persist_crc32 (z @ mid @ fin))"
    by (simp add: ota_crc32_update_def persist_crc32_def xor_all_ones)
  also have "z @ mid @ fin = take 8 pkg @ replicate 4 NUL @ drop 12 pkg"
  proof -
    have "drop 128 pkg = drop 116 (drop 12 pkg)" by simp
    then have "drop 12 pkg = take 116 (drop 12 pkg) @ drop 128 pkg" by (metis append_take_drop_id)
    then show ?thesis unfolding m z_def by simp
  qed
  finally show ?thesis by (simp add: crc_signed_def)
qed

text \<open>The packages that the kernel accepts.\<close>

definition pkg_accepted :: "world \<Rightarrow> ramfs \<Rightarrow> string \<Rightarrow> bool" where
  "pkg_accepted w fs pkg \<longleftrightarrow>
     (let m = dec_manifest pkg in
      192 \<le> length pkg \<and> om_magic m = OTA_PKG_MAGIC \<and> 128 \<le> unat (om_elf_offset m) \<and>
      om_elf_offset m + om_elf_size m \<le> of_nat (length pkg) \<and> chr_at (om_install_path m) 0 = CHR ''/'' \<and>
      (om_format m = OTA_FMT_SIGNED \<and>
         om_hmac m = take 32 (mbedtls_sha256 w (ota_hmac_key @ take 96 pkg @ replicate 32 NUL @ drop 128 pkg)) \<or>
       om_format m = OTA_FMT_VERSION \<and> unat (om_elf_offset m) \<le> length pkg \<and> om_sig m = crc_signed pkg) \<and>
      ota_channel_matches fs (om_channel m))"

lemma kalloc_k_frame:
  "kalloc_k k n = (k1, p) \<Longrightarrow> kfs k1 = kfs k \<and> kworld k1 = kworld k \<and> junk_run k1 = junk_run k \<and>
     agents k1 = agents k \<and> cpu_current k1 = cpu_current k \<and> kquota k1 = kquota k \<and> kpol k1 = kpol k"
  by (auto simp: kalloc_k_def split: prod.splits)

lemma ota_file_size_map:
  assumes "ramfs_inv fs"
  shows "ota_file_size fs p = (case fs_map fs p of None \<Rightarrow> ENOENT | Some c \<Rightarrow> int (max 1 (length c)))"
proof (cases "fs_map fs p")
  case None
  then show ?thesis by (simp add: ota_file_size_def rfs.read_none)
next
  case (Some c)
  with rfs.size_probe [OF assms Some] rfs.read0 [OF assms _ _ Some, of 1] show ?thesis
    by (simp add: ota_file_size_def)
qed

lemma ota_authentic_iff:
  assumes "192 \<le> length pkg" "length pkg < 8192" "128 \<le> unat (om_elf_offset (dec_manifest pkg))"
    "om_format (dec_manifest pkg) = OTA_FMT_VERSION \<or> om_format (dec_manifest pkg) = OTA_FMT_SIGNED"
  shows "ota_authentic w pkg = Some True \<longleftrightarrow>
      om_format (dec_manifest pkg) = OTA_FMT_SIGNED \<and>
         om_hmac (dec_manifest pkg) = take 32 (mbedtls_sha256 w (ota_hmac_key @ take 96 pkg @ replicate 32 NUL @ drop 128 pkg)) \<or>
       om_format (dec_manifest pkg) = OTA_FMT_VERSION \<and> unat (om_elf_offset (dec_manifest pkg)) \<le> length pkg \<and>
         om_sig (dec_manifest pkg) = crc_signed pkg"
proof (cases "om_format (dec_manifest pkg) = OTA_FMT_SIGNED")
  case True
  then show ?thesis using assms(1)
    by (auto simp: ota_authentic_def ota_hmac_match_def ota_compute_hmac_def Let_def)
next
  case False
  let ?off = "om_elf_offset (dec_manifest pkg)"
  show ?thesis
  proof (cases "unat ?off \<le> length pkg")
    case True
    then show ?thesis using False assms ota_package_sig_crc [OF assms(3) True]
      by (auto simp: ota_authentic_def Let_def)
  next
    case out: False
    then have "128 < ?off" using assms(1,3) by (simp add: word_less_nat_alt)
    then have "ota_package_sig pkg ?off (of_nat (length pkg)) = None" using out by (simp add: ota_package_sig_def Let_def)
    then show ?thesis using False out by (auto simp: ota_authentic_def Let_def)
  qed
qed

lemma offset_less: "((off :: u32) < 128) = (unat off < 128)"
  by (simp add: word_less_nat_alt)

lemma ota_check_iff:
  assumes "192 \<le> length pkg" "length pkg < 8192"
  shows "ota_check_package w fs pkg = Some 0 \<longleftrightarrow> pkg_accepted w fs pkg"
proof (cases "128 \<le> unat (om_elf_offset (dec_manifest pkg)) \<and>
    (om_format (dec_manifest pkg) = OTA_FMT_VERSION \<or> om_format (dec_manifest pkg) = OTA_FMT_SIGNED)")
  case True
  have "ota_check_package w fs pkg = Some 0 \<longleftrightarrow>
      om_magic (dec_manifest pkg) = OTA_PKG_MAGIC \<and>
      om_elf_offset (dec_manifest pkg) + om_elf_size (dec_manifest pkg) \<le> of_nat (length pkg) \<and>
      chr_at (om_install_path (dec_manifest pkg)) 0 = CHR ''/'' \<and>
      ota_authentic w pkg = Some True \<and> ota_channel_matches fs (om_channel (dec_manifest pkg))"
    using True by (auto simp: ota_check_package_def Let_def offset_less split: option.splits if_splits)
  then show ?thesis
    unfolding ota_authentic_iff [OF assms conjunct1 [OF True] conjunct2 [OF True]]
    using True assms(1) by (auto simp: pkg_accepted_def Let_def)
next
  case False
  then show ?thesis
    by (auto simp: ota_check_package_def pkg_accepted_def Let_def offset_less split: option.splits if_splits)
qed

lemma ota_parse_some:
  assumes "ramfs_inv (kfs k)" "fs_map (kfs k) path = Some pkg" "192 \<le> length pkg"
    "kalloc_k k (of_nat (length pkg)) = (k1, p)" "p \<noteq> 0"
  shows "ota_parse_package k path = (case ota_check_package (kworld k) (kfs k) pkg of
      None \<Rightarrow> None | Some rc \<Rightarrow> Some (k1, if rc \<noteq> 0 then Inl rc else Inr pkg))"
proof -
  have sz: "length pkg < 8192" using rfs.cont_size [OF assms(1,2)] .
  have "ota_file_size (kfs k) path = int (length pkg)"
    using ota_file_size_map [OF assms(1), of path] assms(2,3) by simp
  moreover have "ramfs_read (kfs k) path 0 (int (length pkg)) = (int (length pkg), pkg)"
    using rfs.read_all [OF assms(1) _ _ _ assms(2)] sz assms(3) by simp
  ultimately show ?thesis
    using assms(3-5) kalloc_k_frame [OF assms(4)] by (auto simp: ota_parse_package_def Let_def)
qed

lemma ota_parse_Inr:
  assumes "ramfs_inv (kfs k)" "ota_parse_package k path = Some (k1, Inr pkg)"
  shows "fs_map (kfs k) path = Some pkg" "pkg_accepted (kworld k) (kfs k) pkg" "kfs k1 = kfs k"
    "junk_run k1 = junk_run k" "length pkg < 8192"
proof -
  obtain c where c: "fs_map (kfs k) path = Some c"
    using assms(2) ota_file_size_map [OF assms(1), of path]
    by (cases "fs_map (kfs k) path") (auto simp: ota_parse_package_def)
  then have len: "192 \<le> length c"
    using assms(2) ota_file_size_map [OF assms(1), of path] by (auto simp: ota_parse_package_def Let_def split: if_splits)
  obtain k2 p where a: "kalloc_k k (of_nat (length c)) = (k2, p)" by fastforce
  have "p \<noteq> 0"
    using assms(2) ota_file_size_map [OF assms(1), of path] c len a
    by (auto simp: ota_parse_package_def Let_def split: if_splits)
  from ota_parse_some [OF assms(1) c len a this] assms(2)
  have e: "c = pkg" "k2 = k1" "ota_check_package (kworld k) (kfs k) pkg = Some 0"
    by (auto split: option.splits if_splits)
  have sz: "length c < 8192" using rfs.cont_size [OF assms(1) c] .
  show "fs_map (kfs k) path = Some pkg" "length pkg < 8192" using c e sz by simp_all
  show "pkg_accepted (kworld k) (kfs k) pkg" using e ota_check_iff len sz by simp
  show "kfs k1 = kfs k" "junk_run k1 = junk_run k" using kalloc_k_frame [OF a] e by simp_all
qed

lemma ota_parse_Inl:
  assumes "ramfs_inv (kfs k)" "ota_parse_package k path = Some (k1, Inl rc)"
  shows "rc \<noteq> 0" "kfs k1 = kfs k"
proof -
  show "rc \<noteq> 0"
    using assms(2) ota_file_size_map [OF assms(1), of path]
    by (auto simp: ota_parse_package_def Let_def split: if_splits prod.splits option.splits)
  show "kfs k1 = kfs k"
    using assms(2)
    by (auto simp: ota_parse_package_def Let_def split: if_splits prod.splits option.splits dest: kalloc_k_frame)
qed

section \<open>What is installed\<close>

lemma length_cstr: "length (cstr s) \<le> length s"
  by (simp add: cstr_def length_takeWhile_le)

lemma cstr_append_le: "length (cstr (a @ b)) \<le> length a + length (cstr b)"
  by (induction a) (auto simp: cstr_def)

lemma install_target_fits:
  assumes "length (cstr (junk_run k)) \<le> 15"
  shows "path_fits (install_target k pkg)"
  using cstr_append_le [of "take 48 (drop 80 pkg)" "junk_run k"] assms
  by (simp add: install_target_def path_fits_def)

lemma lookup_room:
  assumes "ramfs_inv fs" "path_fits p"
  shows "(snd (ramfs_lookup fs p True) = None) = (\<not> has_room fs p)"
proof (cases "has_room fs p")
  case True
  from ramfs_lookup_create [OF assms True] obtain i where
    "ramfs_lookup fs p True = (fs\<lparr>files := (files fs)[i := opened fs p i]\<rparr>, Some i)" .
  with True show ?thesis by simp
qed (simp add: ramfs_lookup_full)

lemma ota_parse_same_user:
  assumes "ota_parse_package k path = Some (k1, r)"
  shows "same_user k k1"
  using assms same_user_kalloc [of k]
  by (auto simp: ota_parse_package_def Let_def split: if_splits prod.splits option.splits)

text \<open>The conclusion of the next lemmas: an installation as the manifest asks for it.\<close>

definition installs :: "kernel \<Rightarrow> nat \<Rightarrow> string \<Rightarrow> kernel \<Rightarrow> bool" where
  "installs k h path k' \<longleftrightarrow> agent_has_cap (agent_current k h) CAP_FS \<and> ota_pkg_path_ok (agent_current k h) path \<and>
     (\<exists>pkg. fs_map (kfs k) path = Some pkg \<and> pkg_accepted (kworld k) (kfs k) pkg \<and>
       (let off = unat (om_elf_offset (dec_manifest pkg)); n = unat (om_elf_size (dec_manifest pkg)) in
        off + n \<le> length pkg \<and>
        fs_map (kfs k') = (fs_map (kfs k))(install_target k pkg \<mapsto> take n (drop off pkg))))"

lemma ota_apply_result:
  assumes "ramfs_inv (kfs k)" "length (cstr (junk_run k)) \<le> 15"
    "ota_apply_package_kpath k h path = Some (k', rc)"
  shows "ramfs_inv (kfs k') \<and> same_user k k' \<and> (rc \<noteq> 0 \<and> kfs k' = kfs k \<or> rc = 0 \<and> installs k h path k')"
proof (cases "agent_has_cap (agent_current k h) CAP_FS \<and> ota_pkg_path_ok (agent_current k h) path")
  case False
  with assms(1,3) show ?thesis by (auto simp: ota_apply_package_kpath_def split: if_splits)
next
  case guard: True
  obtain k1 r where p: "ota_parse_package k path = Some (k1, r)"
    using assms(3) guard by (auto simp: ota_apply_package_kpath_def split: option.splits)
  note su = ota_parse_same_user [OF p]
  show ?thesis
  proof (cases r)
    case (Inl e)
    with p guard assms(1,3) su ota_parse_Inl [OF assms(1), of path k1 e] show ?thesis
      by (auto simp: ota_apply_package_kpath_def)
  next
    case (Inr pkg)
    note P = ota_parse_Inr [OF assms(1) p [unfolded Inr]]
    define off n dst where "off = unat (om_elf_offset (dec_manifest pkg))"
      and "n = wrap32 (uint (om_elf_size (dec_manifest pkg)))" and "dst = install_target k pkg"
    have dst: "install_target k1 pkg = dst" using P(4) by (simp add: install_target_def dst_def)
    have fits: "path_fits dst" using install_target_fits [OF assms(2)] by (simp add: dst_def)
    have in_pkg: "\<not> (0 < n \<and> n < 8192 \<and> off + nat n > length pkg \<and> has_room (kfs k) dst)"
      and k': "k' = k1\<lparr>kfs := fst (ramfs_put (kfs k) dst (drop off pkg) n)\<rparr>"
        "rc = (if snd (ramfs_put (kfs k) dst (drop off pkg) n) \<noteq> 0 then ENOSPC else 0)"
      using assms(3) guard p Inr P(3) dst lookup_room [OF assms(1) fits] off_def n_def
      by (auto simp: ota_apply_package_kpath_def Let_def split: if_splits prod.splits)
    have su': "same_user k k'" using su k'(1) by (simp add: same_user_def)
    show ?thesis
    proof (cases "0 < n \<and> n < 8192 \<and> has_room (kfs k) dst")
      case False
      then have "ramfs_put (kfs k) dst (drop off pkg) n = (kfs k, EINVAL) \<or>
          ramfs_put (kfs k) dst (drop off pkg) n = (kfs k, ENOSPC)"
        using rfs.put_einval [of n "kfs k" dst "drop off pkg"] rfs.put_full [of n "kfs k" dst "drop off pkg"] by (meson not_le)
      with k' P(3) su' assms(1) show ?thesis by auto
    next
      case True
      have n: "nat n = unat (om_elf_size (dec_manifest pkg))"
        using wrap32_u32 [of "om_elf_size (dec_manifest pkg)"] True by (simp add: n_def)
      have le: "off + nat n \<le> length pkg" using True in_pkg by auto
      then have "nat n \<le> length (drop off pkg)" by simp
      with rfs.put_ok [OF assms(1) fits, of n "drop off pkg"] True
      have "snd (ramfs_put (kfs k) dst (drop off pkg) n) = 0" "ramfs_inv (fst (ramfs_put (kfs k) dst (drop off pkg) n))"
        "fs_map (fst (ramfs_put (kfs k) dst (drop off pkg) n)) = (fs_map (kfs k))(dst \<mapsto> take (nat n) (drop off pkg))"
        by blast+
      then have "rc = 0" "ramfs_inv (kfs k')" "fs_map (kfs k') = (fs_map (kfs k))(dst \<mapsto> take (nat n) (drop off pkg))"
        using k' by simp_all
      with guard P(1,2) le su' show ?thesis unfolding installs_def n off_def dst_def Let_def by blast
    qed
  qed
qed

text \<open>The range test of the manifest adds offset and size in 32 bits.  When the sum wraps, the test passes for bytes that are
  not in the package.  The checksum of format 1 then reads outside the buffer before it is compared.\<close>

definition range_wraps :: "string \<Rightarrow> bool" where
  "range_wraps pkg \<longleftrightarrow> om_elf_offset (dec_manifest pkg) + om_elf_size (dec_manifest pkg) \<le> of_nat (length pkg) \<and>
     length pkg < unat (om_elf_offset (dec_manifest pkg)) + unat (om_elf_size (dec_manifest pkg))"

lemma ota_check_None:
  assumes "ota_check_package w fs pkg = None"
  shows "range_wraps pkg"
proof -
  let ?off = "om_elf_offset (dec_manifest pkg)" and ?n = "om_elf_size (dec_manifest pkg)"
  have "?off + ?n \<le> of_nat (length pkg)" "ota_authentic w pkg = None"
    using assms by (auto simp: ota_check_package_def Let_def split: if_splits option.splits)
  moreover from this(2) have "length pkg < unat ?off"
    by (auto simp: ota_authentic_def ota_package_sig_def Let_def split: if_splits)
  ultimately show ?thesis by (simp add: range_wraps_def)
qed

lemma ota_check_reads_outside:
  assumes "range_wraps pkg" "length pkg < unat (om_elf_offset (dec_manifest pkg))" "128 \<le> length pkg"
    and "om_magic (dec_manifest pkg) = OTA_PKG_MAGIC" "om_format (dec_manifest pkg) = OTA_FMT_VERSION"
    and "chr_at (om_install_path (dec_manifest pkg)) 0 = CHR ''/''"
  shows "ota_check_package w fs pkg = None"
proof -
  have "128 < om_elf_offset (dec_manifest pkg)" using assms(2,3) by (simp add: word_less_nat_alt)
  with assms show ?thesis
    by (simp add: ota_check_package_def ota_authentic_def ota_package_sig_def range_wraps_def Let_def not_le [symmetric])
qed

lemma ota_apply_None:
  assumes "ramfs_inv (kfs k)" "ota_apply_package_kpath k h path = None"
  shows "agent_has_cap (agent_current k h) CAP_FS \<and> ota_pkg_path_ok (agent_current k h) path \<and>
    (\<exists>pkg. fs_map (kfs k) path = Some pkg \<and> range_wraps pkg)"
proof -
  have g: "agent_has_cap (agent_current k h) CAP_FS" "ota_pkg_path_ok (agent_current k h) path"
    using assms(2) by (auto simp: ota_apply_package_kpath_def split: if_splits)
  consider "ota_parse_package k path = None" | k1 pkg where "ota_parse_package k path = Some (k1, Inr pkg)"
      "length pkg < unat (om_elf_offset (dec_manifest pkg)) + nat (wrap32 (uint (om_elf_size (dec_manifest pkg))))"
      "0 < wrap32 (uint (om_elf_size (dec_manifest pkg)))"
    using assms(2) g by (auto simp: ota_apply_package_kpath_def Let_def split: if_splits option.splits sum.splits prod.splits)
  then have "\<exists>pkg. fs_map (kfs k) path = Some pkg \<and> range_wraps pkg"
  proof cases
    case 1
    obtain pkg where p: "fs_map (kfs k) path = Some pkg"
      using 1 ota_file_size_map [OF assms(1), of path]
      by (cases "fs_map (kfs k) path") (auto simp: ota_parse_package_def Let_def split: if_splits)
    then have len: "192 \<le> length pkg"
      using 1 ota_file_size_map [OF assms(1), of path] by (auto simp: ota_parse_package_def Let_def split: if_splits)
    obtain k2 q where a: "kalloc_k k (of_nat (length pkg)) = (k2, q)" by fastforce
    have "q \<noteq> 0"
      using 1 ota_file_size_map [OF assms(1), of path] p len a by (auto simp: ota_parse_package_def Let_def split: if_splits)
    from ota_parse_some [OF assms(1) p len a this] 1 have "ota_check_package (kworld k) (kfs k) pkg = None"
      by (auto split: option.splits)
    with p ota_check_None show ?thesis by blast
  next
    case 2
    from ota_parse_Inr [OF assms(1) 2(1)] 2(2,3) wrap32_u32 [OF 2(3)] show ?thesis
      by (auto simp: range_wraps_def pkg_accepted_def Let_def)
  qed
  with g show ?thesis by blast
qed

text \<open>C25: An update is applied only from a package of the agent's own directory or of the update directory,
  whose manifest is well-formed, whose checksum or keyed hash is right and whose channel is the
  configured one; it then installs exactly the bytes the manifest names, which lie inside the package, under
  the path of the manifest.  In every other case no file changes, with one exception: the sum of the offset and the size in the manifest
  wraps at 32 bits, so that the range test passes although the bytes are not in the package.  Only then can the call read outside
  the package, which is the result \<open>None\<close>.\<close>

theorem ota_apply_installs:
  assumes "ramfs_inv (kfs k)" "length (cstr (junk_run k)) \<le> 15"
  shows "case ota_apply_package_kpath k h path of
      None \<Rightarrow> agent_has_cap (agent_current k h) CAP_FS \<and> ota_pkg_path_ok (agent_current k h) path \<and>
        (\<exists>pkg. fs_map (kfs k) path = Some pkg \<and>
          om_elf_offset (dec_manifest pkg) + om_elf_size (dec_manifest pkg) \<le> of_nat (length pkg) \<and>
          length pkg < unat (om_elf_offset (dec_manifest pkg)) + unat (om_elf_size (dec_manifest pkg)))
    | Some (k', rc) \<Rightarrow> (rc \<noteq> 0 \<and> kfs k' = kfs k) \<or>
        (rc = 0 \<and> agent_has_cap (agent_current k h) CAP_FS \<and> ota_pkg_path_ok (agent_current k h) path \<and>
         (\<exists>pkg. fs_map (kfs k) path = Some pkg \<and> pkg_accepted (kworld k) (kfs k) pkg \<and>
           (let off = unat (om_elf_offset (dec_manifest pkg)); n = unat (om_elf_size (dec_manifest pkg)) in
            off + n \<le> length pkg \<and>
            fs_map (kfs k') = (fs_map (kfs k))(install_target k pkg \<mapsto> take n (drop off pkg)))))"
proof (cases "ota_apply_package_kpath k h path")
  case None
  with ota_apply_None [OF assms(1) None] show ?thesis by (simp add: range_wraps_def)
next
  case (Some r)
  obtain k' rc where r: "r = (k', rc)" by fastforce
  from ota_apply_result [OF assms Some [unfolded r]] show ?thesis unfolding installs_def Some r option.case prod.case by blast
qed

lemma ota_apply_ok:
  assumes "ramfs_inv (kfs k)" "fs_map (kfs k) src = Some pkg" "pkg_accepted (kworld k) (kfs k) pkg"
    "agent_has_cap (agent_current k h) CAP_FS" "ota_pkg_path_ok (agent_current k h) src"
    "snd (kalloc_k k (of_nat (length pkg))) \<noteq> 0"
    "unat (om_elf_offset (dec_manifest pkg)) = 128" "unat (om_elf_size (dec_manifest pkg)) = n" "0 < n" "128 + n \<le> length pkg"
    "path_fits (install_target k pkg)" "has_room (kfs k) (install_target k pkg)"
  shows "\<exists>k'. ota_apply_package_kpath k h src = Some (k', 0) \<and>
    fs_map (kfs k') = (fs_map (kfs k))(install_target k pkg \<mapsto> take n (drop 128 pkg))"
proof -
  have sz: "length pkg < 8192" using rfs.cont_size [OF assms(1,2)] .
  have len: "192 \<le> length pkg" using assms(3) by (simp add: pkg_accepted_def Let_def)
  obtain k1 p where a: "kalloc_k k (of_nat (length pkg)) = (k1, p)" by fastforce
  with assms(6) have "p \<noteq> 0" by simp
  moreover have "ota_check_package (kworld k) (kfs k) pkg = Some 0" using ota_check_iff [OF len sz] assms(3) by blast
  ultimately have p: "ota_parse_package k src = Some (k1, Inr pkg)"
    using ota_parse_some [OF assms(1,2) len a] by simp
  have k1: "kfs k1 = kfs k" "junk_run k1 = junk_run k" using kalloc_k_frame [OF a] by simp_all
  define dst where "dst = install_target k pkg"
  have dst: "install_target k1 pkg = dst" using k1(2) by (simp add: install_target_def dst_def)
  have e: "wrap32 (uint (om_elf_size (dec_manifest pkg))) = int n"
  proof -
    have "uint (om_elf_size (dec_manifest pkg)) = int n" using assms(8) by auto
    with assms(10) sz show ?thesis by simp
  qed
  have "snd (ramfs_put (kfs k) dst (drop 128 pkg) (int n)) = 0"
      "fs_map (fst (ramfs_put (kfs k) dst (drop 128 pkg) (int n))) = (fs_map (kfs k))(dst \<mapsto> take n (drop 128 pkg))"
    using rfs.put_ok [OF assms(1,11,12), of "int n" "drop 128 pkg"] assms(9,10) sz by (simp_all add: dst_def)
  moreover have "ota_apply_package_kpath k h src =
      Some (k1\<lparr>kfs := fst (ramfs_put (kfs k) dst (drop 128 pkg) (int n))\<rparr>,
            if snd (ramfs_put (kfs k) dst (drop 128 pkg) (int n)) \<noteq> 0 then ENOSPC else 0)"
    using assms(4,5,7,10) p e dst k1(1) by (simp add: ota_apply_package_kpath_def Let_def case_prod_unfold)
  ultimately show ?thesis by (auto simp: dst_def)
qed

lemma enc32_0: "enc32 0 = replicate 4 NUL"
proof -
  have "(char_of (0 :: nat) :: char) = NUL" by (simp add: char_of_def)
  then show ?thesis by (simp add: enc32_def numeral_eq_Suc)
qed

lemma install_target_field:
  assumes "length m = 80" "length tl1 = 48" "cstr tl1 = path" "length path < 48"
  shows "install_target k (m @ tl1 @ rest) = path"
proof -
  have "tl1 \<noteq> cstr tl1" using assms by auto
  then obtain a b where ab: "tl1 = a @ NUL # b" "NUL \<notin> set a"
    by (metis cstr_id split_list_first)
  with assms(3) have "a = path" by simp
  moreover have "take 48 (drop 80 (m @ tl1 @ rest)) = tl1" using assms(1,2) by simp
  ultimately show ?thesis using ab by (simp add: install_target_def)
qed

lemma mk_agentpkg_accepted:
  assumes "pkg = mk_agentpkg name version channel cps path elf" "length pkg < 8192"
    "64 \<le> length elf" "chr_at path 0 = CHR ''/''" "NUL \<notin> set path" "length path \<le> 47"
    "ota_channel_matches fs (put_field 7 8 channel)"
  shows "pkg_accepted w fs pkg" "unat (om_elf_offset (dec_manifest pkg)) = 128"
    "unat (om_elf_size (dec_manifest pkg)) = length elf" "length pkg = 128 + length elf"
    "drop 128 pkg = elf" "install_target k pkg = path"
proof -
  define tl1 where "tl1 = put_field 47 48 path"
  define man where "man sig = pkg_manifest OTA_FMT_VERSION sig name version channel cps (of_nat (length elf)) tl1" for sig
  define sg where "sg = persist_crc32 (man 0 @ elf)"
  have pkg: "pkg = man sg @ elf"
    by (simp add: assms(1) mk_agentpkg_def Let_def sg_def man_def tl1_def)
  have t: "length tl1 = 48" "take 47 path = path" using assms(6) by (simp_all add: tl1_def)
  have tl: "tl1 = path @ replicate (48 - length path) NUL" using t(2) by (simp add: tl1_def put_field_def pad_to_def)
  show len: "length pkg = 128 + length elf" using t by (simp add: pkg man_def length_pkg_manifest)
  note dm = dec_pkg_manifest [OF t(1), of OTA_FMT_VERSION sg name version channel cps "of_nat (length elf)" elf,
      folded man_def, folded pkg]
  show "unat (om_elf_offset (dec_manifest pkg)) = 128" by (simp add: dm)
  show "unat (om_elf_size (dec_manifest pkg)) = length elf"
    unfolding dm using len assms(2) by (simp add: unat_of_nat)
  show "drop 128 pkg = elf" by (simp add: pkg man_def length_pkg_manifest t(1))
  have p0: "chr_at (take 16 tl1) 0 = CHR ''/''" using assms(4) unfolding tl by (cases path) simp_all
  have "crc_signed pkg = sg"
  proof -
    have "enc32 0 = replicate 4 NUL" by (rule enc32_0)
    then have "take 8 pkg @ replicate 4 NUL @ drop 12 pkg = man 0 @ elf"
      by (simp add: pkg man_def pkg_manifest_def)
    then show ?thesis by (simp add: crc_signed_def sg_def)
  qed
  moreover have "(128 :: u32) + of_nat (length elf) \<le> of_nat (length pkg)" unfolding len by simp
  ultimately show "pkg_accepted w fs pkg"
    using assms(3,7) len p0 by (simp add: pkg_accepted_def dm Let_def)
  have "cstr tl1 = path" using assms(5) t(2) by (simp add: tl1_def put_field_def)
  then show "install_target k pkg = path"
    using install_target_field [of "take 80 pkg" tl1 path k elf] t(1) assms(6)
    by (simp add: pkg man_def pkg_manifest_def)
qed

text \<open>C26: A package made by \<open>scripts/mk-agentpkg.py\<close>, which needs no key, is accepted and installs
  exactly the program it was made from, under the path it was made for.\<close>

theorem ota_mk_agentpkg_installs:
  assumes "ramfs_inv (kfs k)" "fs_map (kfs k) src = Some (mk_agentpkg name version channel cps path elf)"
    "64 \<le> length elf" "chr_at path 0 = CHR ''/''" "NUL \<notin> set path" "length path \<le> 47"
    "ota_channel_matches (kfs k) (put_field 7 8 channel)"
    "agent_has_cap (agent_current k h) CAP_FS" "ota_pkg_path_ok (agent_current k h) src"
    "snd (kalloc_k k (of_nat (128 + length elf))) \<noteq> 0" "has_room (kfs k) path"
  shows "\<exists>k'. ota_apply_package_kpath k h src = Some (k', 0) \<and> fs_map (kfs k') = (fs_map (kfs k))(path \<mapsto> elf)"
proof -
  define pkg where "pkg = mk_agentpkg name version channel cps path elf"
  note pkg = mk_agentpkg_accepted [OF pkg_def _ assms(3-7)]
  have sz: "length pkg < 8192" using rfs.cont_size [OF assms(1,2)] by (simp add: pkg_def)
  have "path_fits path" using assms(6) by (simp add: path_fits_def)
  moreover have "0 < length elf" "128 + length elf \<le> length pkg" using assms(3) pkg(4) sz by linarith+
  ultimately show ?thesis
    using ota_apply_ok [OF assms(1) _ pkg(1) [OF sz] assms(8,9) _ pkg(2,3) [OF sz]] assms(2,10,11)
    unfolding pkg_def [symmetric] pkg(6) [OF sz] pkg(4) [OF sz] by (simp add: pkg(5) [OF sz])
qed

lemma ota_sign_manifest_names_pad:
  assumes "\<And>x. length (sha256 x) = 32" "length elf < 2 ^ 32"
    "pkg = ota_sign sha256 name version channel path elf"
  shows "take (unat (om_elf_size (dec_manifest pkg))) (drop (unat (om_elf_offset (dec_manifest pkg))) pkg) =
    take (length elf) (replicate ((128 - length elf mod 128) mod 128) NUL @ elf)"
proof -
  define pad where "pad = replicate ((128 - length elf mod 128) mod 128) NUL"
  obtain h where h: "pkg = pkg_manifest OTA_FMT_SIGNED 0 name version channel 0 (of_nat (length elf)) (put_field 15 16 path @ h) @ pad @ elf"
    "length h = 32"
    using assms(1,3) by (simp add: ota_sign_def Let_def pad_def)
  have l: "length (put_field 15 16 path @ h) = 48" using h(2) by simp
  note dm = dec_pkg_manifest [OF l, of OTA_FMT_SIGNED 0 name version channel 0 "of_nat (length elf)" "pad @ elf", folded h(1)]
  have "unat (of_nat (length elf) :: u32) = length elf" using assms(2) by (simp add: unat_of_nat)
  then show ?thesis unfolding dm unfolding h(1) using h(2) by (simp add: length_pkg_manifest pad_def)
qed

section \<open>Witnesses\<close>

text \<open>A kernel whose update directory holds one package.\<close>

definition demo_pkg :: string where
  "demo_pkg = mk_agentpkg ''w'' ''1.0'' ''stable'' 0 ''/agent/1/w'' (replicate 64 CHR ''x'')"

definition ota_kernel :: kernel where
  "ota_kernel = upd_agent (demo_kernel\<lparr>kfs := fst (ramfs_put blank_fs ''/sys/ota/w'' demo_pkg 192)\<rparr>) 1
     (\<lambda>a. a\<lparr>caps := CAP_FS\<rparr>)"

lemma length_demo_pkg: "length demo_pkg = 192"
  by (simp add: demo_pkg_def mk_agentpkg_def Let_def length_pkg_manifest)

lemma ota_kernel_fs:
  "ramfs_inv (kfs ota_kernel)" "fs_map (kfs ota_kernel) = [''/sys/ota/w'' \<mapsto> demo_pkg]" "has_room (kfs ota_kernel) p"
proof -
  have "ramfs_inv (kfs ota_kernel) \<and> fs_map (kfs ota_kernel) = [''/sys/ota/w'' \<mapsto> demo_pkg]"
    using rfs.put_ok [of blank_fs "''/sys/ota/w''" 192 demo_pkg] length_demo_pkg
    by (simp add: ota_kernel_def path_fits_def)
  then show "ramfs_inv (kfs ota_kernel)" "fs_map (kfs ota_kernel) = [''/sys/ota/w'' \<mapsto> demo_pkg]" by simp_all
  then show "has_room (kfs ota_kernel) p" using has_room_map by simp
qed

lemma ota_kernel_guards:
  "agent_has_cap (agent_current ota_kernel 0) CAP_FS" "ota_pkg_path_ok (agent_current ota_kernel 0) ''/sys/ota/w''"
  "snd (kalloc_k ota_kernel 192) \<noteq> 0" "junk_run ota_kernel = []"
proof -
  have c: "agent_current ota_kernel 0 = Some ((demo_agent 1)\<lparr>caps := CAP_FS\<rparr>)"
    by (simp add: ota_kernel_def agent_current_def cur_idx_def)
  show "agent_has_cap (agent_current ota_kernel 0) CAP_FS" by (simp add: c agent_has_cap_def)
  show "ota_pkg_path_ok (agent_current ota_kernel 0) ''/sys/ota/w''" unfolding c by (simp add: ota_pkg_path_ok_def)
  have "kheap (kvm ota_kernel) = kheap boot_vm" by (simp add: ota_kernel_def demo_kernel_def)
  moreover have "snd (kalloc (kheap boot_vm) 192) \<noteq> 0" by code_simp
  ultimately show "snd (kalloc_k ota_kernel 192) \<noteq> 0" by (simp add: kalloc_k_def case_prod_unfold)
  show "junk_run ota_kernel = []" by (simp add: ota_kernel_def demo_kernel_def)
qed

lemma ota_kernel_channel: "ota_channel_matches (kfs ota_kernel) (put_field 7 8 ''stable'')"
  using ota_kernel_fs by (simp add: ota_channel_matches_def rfs.read_none put_field_def pad_to_def)

theorem ota_mk_agentpkg_installs_witness:
  "\<exists>k'. ota_apply_package_kpath ota_kernel 0 ''/sys/ota/w'' = Some (k', 0) \<and>
     fs_map (kfs k') ''/agent/1/w'' = Some (replicate 64 CHR ''x'')"
  using ota_mk_agentpkg_installs [OF ota_kernel_fs(1) _ _ _ _ _ ota_kernel_channel ota_kernel_guards(1,2) _ ota_kernel_fs(3),
      of "''w''" "''1.0''" 0 "''/agent/1/w''" "replicate 64 CHR ''x''"] ota_kernel_fs(2) ota_kernel_guards(3)
  by (auto simp: demo_pkg_def)

theorem ota_apply_installs_witness:
  "\<exists>k'. ota_apply_package_kpath ota_kernel 0 ''/sys/ota/w'' = Some (k', 0) \<and>
     fs_map (kfs k') = (fs_map (kfs ota_kernel))(''/agent/1/w'' \<mapsto> replicate 64 CHR ''x'')"
proof -
  have pkg: "pkg_accepted (kworld ota_kernel) (kfs ota_kernel) demo_pkg" "unat (om_elf_offset (dec_manifest demo_pkg)) = 128"
      "unat (om_elf_size (dec_manifest demo_pkg)) = 64" "drop 128 demo_pkg = replicate 64 CHR ''x''"
      "install_target ota_kernel demo_pkg = ''/agent/1/w''"
    using mk_agentpkg_accepted [OF demo_pkg_def _ _ _ _ _ ota_kernel_channel] length_demo_pkg
    by (auto simp: Ball_def)
  have "snd (kalloc_k ota_kernel (of_nat (length demo_pkg))) \<noteq> 0" "path_fits ''/agent/1/w''"
    using ota_kernel_guards(3) by (simp_all add: length_demo_pkg path_fits_def)
  then obtain k' where k': "ota_apply_package_kpath ota_kernel 0 ''/sys/ota/w'' = Some (k', 0)"
    using ota_apply_ok [OF ota_kernel_fs(1) _ pkg(1) ota_kernel_guards(1,2) _ pkg(2,3)] ota_kernel_fs(2,3) pkg(5) length_demo_pkg
    by auto
  from ota_apply_installs [OF ota_kernel_fs(1), of 0 "''/sys/ota/w''"] k' ota_kernel_guards(4) ota_kernel_fs(2) pkg
  have "fs_map (kfs k') = (fs_map (kfs ota_kernel))(''/agent/1/w'' \<mapsto> replicate 64 CHR ''x'')"
    by (simp add: Let_def)
  with k' show ?thesis by blast
qed

end
