(* ===== verification/Catalog.thy ===== *)
theory Catalog
  imports Ota
begin

text \<open>
  The package catalog: \<open>kernel/catalog.c\<close>.

  The catalog consists of three text files: the index, the list of active packages and the
  rollback record.  Each has one line per package, with fields separated by bars.  A line ends at a
  newline, and what stands behind a NUL in it is not seen.

  \<open>entry_mem\<close> is the memory of the local \<open>struct catalog_entry\<close>: the fields that a line of the index lacks keep the
  bytes that were there before, \<open>junk_run\<close>.  The user strings are fetched as in \<open>Kaccess\<close>; the part of
  \<open>catalog_install\<close> and \<open>catalog_rollback\<close> behind that is \<open>install_named\<close> and \<open>rollback_named\<close>.

  The lemmas show that a rollback undoes an installation, and that versions are compared
  lexicographically.
\<close>

section \<open>Definitions\<close>

abbreviation (input) CATALOG_PATH_INDEX :: string where "CATALOG_PATH_INDEX \<equiv> ''/agent/1/catalog/index''"

abbreviation (input) CATALOG_PATH_ACTIVE :: string where "CATALOG_PATH_ACTIVE \<equiv> ''/agent/1/catalog/active''"

abbreviation (input) CATALOG_PATH_ROLLBACK :: string where "CATALOG_PATH_ROLLBACK \<equiv> ''/agent/1/catalog/rollback''"

abbreviation (input) BAR :: char where "BAR \<equiv> CHR ''|''"

definition catalog_file_size :: "ramfs \<Rightarrow> string \<Rightarrow> int" where
  "catalog_file_size fs path =
     (let n = fst (ramfs_read fs path 0 1)
      in if n < 0 then n else size_loop (\<lambda>off. fst (ramfs_read fs path (of_nat off) 1)) 1)"

definition catalog_read_file :: "ramfs \<Rightarrow> string \<Rightarrow> int \<Rightarrow> int + string" where
  "catalog_read_file fs path cap =
     (let len = catalog_file_size fs path
      in if len < 0 then Inl len
         else if len \<ge> cap then Inl ENOSPC
         else (case ramfs_read fs path 0 len of (n, buf) \<Rightarrow> if n \<noteq> len then Inl EIO else Inr buf))"

definition catalog_copy_file :: "ramfs \<Rightarrow> string \<Rightarrow> string \<Rightarrow> ramfs \<times> int" where
  "catalog_copy_file fs src dst =
     (let len = catalog_file_size fs src
      in if len < 0 then (fs, len)
         else if len = 0 then (fs, ENOENT)
         else if len > int RAMFS_FILE_SIZE then (fs, ENOSPC)
         else (case ramfs_read fs src 0 len of (n, buf) \<Rightarrow>
                 if n \<noteq> len then (fs, EIO)
                 else (case ramfs_put fs dst buf len of (fs1, rc) \<Rightarrow> (fs1, if rc \<noteq> 0 then ENOSPC else 0))))"

fun version_loop :: "nat \<Rightarrow> int \<Rightarrow> int \<Rightarrow> int \<Rightarrow> string \<Rightarrow> (int \<times> int \<times> int) option" where
  "version_loop part m n p [] = Some (m, n, p)"
| "version_loop part m n p (c # s) =
     (if is_digit c then
        (if part = 0 then version_loop part (wrap32 (m * 10 + digit_val c)) n p s
         else if part = 1 then version_loop part m (wrap32 (n * 10 + digit_val c)) p s
         else version_loop part m n (wrap32 (p * 10 + digit_val c)) s)
      else if c = CHR ''.'' then (if part + 1 > 2 then None else version_loop (part + 1) m n p s)
      else Some (m, n, p))"

definition parse_version :: "string \<Rightarrow> (int \<times> int \<times> int) option" where
  "parse_version s = version_loop 0 0 0 0 s"

definition version_ge :: "string \<Rightarrow> string \<Rightarrow> bool" where
  "version_ge a b =
     (case parse_version a of
        None \<Rightarrow> False
      | Some (am, an, ap) \<Rightarrow>
          (case parse_version b of
             None \<Rightarrow> True
           | Some (bm, bn, bp) \<Rightarrow> if am \<noteq> bm then am > bm else if an \<noteq> bn then an > bn else ap \<ge> bp))"

fun skip_bars :: "nat \<Rightarrow> string \<Rightarrow> string option" where
  "skip_bars 0 walk = Some walk"
| "skip_bars (Suc n) [] = None"
| "skip_bars (Suc n) (c # walk) = (if c = BAR then skip_bars n walk else skip_bars (Suc n) walk)"

definition split_field :: "string \<Rightarrow> nat \<Rightarrow> nat \<Rightarrow> string option" where
  "split_field line fld outlen = map_option (\<lambda>walk. take (outlen - 1) (takeWhile (\<lambda>c. c \<noteq> BAR) walk)) (skip_bars fld line)"

function text_lines :: "string \<Rightarrow> string list" where
  "text_lines s =
     (if s = [] then []
      else let l = takeWhile (\<lambda>c. c \<noteq> NEWLINE) s in cstr l # text_lines (drop (Suc (length l)) s))"
  by pat_completeness auto
termination
  by (relation "measure length") auto

declare text_lines.simps [simp del]

definition names_line :: "string \<Rightarrow> string \<Rightarrow> bool" where
  "names_line name line =
     (case split_field line 0 32 of None \<Rightarrow> False | Some entry_name \<Rightarrow> entry_name \<noteq> [] \<and> str_eq entry_name name)"

definition line_for :: "string \<Rightarrow> string \<Rightarrow> string option" where
  "line_for name buf = List.find (names_line name) (text_lines buf)"

record catalog_entry =
  ce_version :: string
  ce_pkg_path :: string
  ce_install_path :: string
  ce_min_version :: string

definition poke :: "nat \<Rightarrow> string option \<Rightarrow> string \<Rightarrow> string" where
  "poke off fld mem =
     (case fld of None \<Rightarrow> mem | Some s \<Rightarrow> take off (pad_to off mem) @ s @ NUL # drop (off + length s + 1) mem)"

definition entry_mem :: "string \<Rightarrow> string \<Rightarrow> string" where
  "entry_mem line mem =
     poke 152 (split_field line 5 16) (poke 144 (split_field line 4 8) (poke 96 (split_field line 3 48)
       (poke 48 (split_field line 2 48) (poke 32 (split_field line 1 16) mem))))"

definition catalog_find_entry :: "kernel \<Rightarrow> string \<Rightarrow> int + catalog_entry" where
  "catalog_find_entry k name =
     (case catalog_read_file (kfs k) CATALOG_PATH_INDEX (int RAMFS_FILE_SIZE) of
        Inl e \<Rightarrow> Inl e
      | Inr index \<Rightarrow>
          (case line_for name index of
             None \<Rightarrow> Inl ENOENT
           | Some line \<Rightarrow>
               let mem = entry_mem line (junk_run k)
               in Inr \<lparr>ce_version = cstr (drop 32 mem), ce_pkg_path = cstr (drop 48 mem),
                       ce_install_path = cstr (drop 96 mem), ce_min_version = cstr (drop 152 mem)\<rparr>))"

definition catalog_active_line :: "ramfs \<Rightarrow> string \<Rightarrow> nat \<Rightarrow> int + string" where
  "catalog_active_line fs name linelen =
     (case catalog_read_file fs CATALOG_PATH_ACTIVE (int RAMFS_FILE_SIZE) of
        Inl e \<Rightarrow> Inl e
      | Inr active \<Rightarrow>
          (case line_for name active of None \<Rightarrow> Inl ENOENT | Some line \<Rightarrow> Inr (take (linelen - 1) line)))"

definition active_field :: "ramfs \<Rightarrow> string \<Rightarrow> nat \<Rightarrow> nat \<Rightarrow> string option" where
  "active_field fs name fld outlen =
     (case catalog_active_line fs name 128 of
        Inl e \<Rightarrow> None
      | Inr line \<Rightarrow>
          (case split_field line fld outlen of None \<Rightarrow> None | Some s \<Rightarrow> if s = [] then None else Some s))"

definition catalog_active_version :: "ramfs \<Rightarrow> string \<Rightarrow> nat \<Rightarrow> string option" where
  "catalog_active_version fs name verlen = active_field fs name 1 verlen"

definition catalog_active_install :: "ramfs \<Rightarrow> string \<Rightarrow> nat \<Rightarrow> string option" where
  "catalog_active_install fs name pathlen = active_field fs name 2 pathlen"

definition record_line :: "string \<Rightarrow> string \<Rightarrow> string \<Rightarrow> string" where
  "record_line name version path =
     (let l1 = take 127 name @ [BAR];
          l2 = l1 @ take (127 - length l1) version @ [BAR]
      in l2 @ take (127 - length l2) path)"

definition put_record :: "kernel \<Rightarrow> string \<Rightarrow> string \<Rightarrow> kernel \<times> int" where
  "put_record k file line =
     (case ramfs_put (kfs k) file line (int (length line)) of (fs, rc) \<Rightarrow>
        (k\<lparr>kfs := fs, kbuf_oob := kbuf_oob k \<or> length line \<ge> 128\<rparr>, if rc \<noteq> 0 then ENOSPC else 0))"

definition catalog_set_active :: "kernel \<Rightarrow> string \<Rightarrow> string \<Rightarrow> string \<Rightarrow> kernel \<times> int" where
  "catalog_set_active k name version install_path = put_record k CATALOG_PATH_ACTIVE (record_line name version install_path)"

definition catalog_set_rollback :: "kernel \<Rightarrow> string \<Rightarrow> string \<Rightarrow> string \<Rightarrow> kernel \<times> int" where
  "catalog_set_rollback k name version backup_path = put_record k CATALOG_PATH_ROLLBACK (record_line name version backup_path)"

definition catalog_read_rollback :: "kernel \<Rightarrow> string \<Rightarrow> int + string \<times> string" where
  "catalog_read_rollback k name =
     (case catalog_read_file (kfs k) CATALOG_PATH_ROLLBACK (int RAMFS_FILE_SIZE) of
        Inl e \<Rightarrow> Inl e
      | Inr rb \<Rightarrow>
          (case line_for name rb of
             None \<Rightarrow> Inl ENOENT
           | Some line \<Rightarrow>
               Inr (case split_field line 1 16 of None \<Rightarrow> cstr (junk_run k) | Some s \<Rightarrow> s,
                    case split_field line 2 64 of None \<Rightarrow> cstr (drop 16 (junk_run k)) | Some s \<Rightarrow> s)))"

definition catalog_list :: "ramfs \<Rightarrow> int" where
  "catalog_list fs =
     (case catalog_read_file fs CATALOG_PATH_INDEX (int RAMFS_FILE_SIZE) of
        Inl e \<Rightarrow> e
      | Inr index \<Rightarrow>
          int (length (filter (\<lambda>l. case split_field l 0 32 of None \<Rightarrow> False | Some n \<Rightarrow> n \<noteq> []) (text_lines index))))"

definition backup_path_for :: "string \<Rightarrow> string" where
  "backup_path_for install_path = take 59 install_path @ ''.prev''"

definition catalog_backup :: "kernel \<Rightarrow> string \<Rightarrow> string \<Rightarrow> kernel \<times> int" where
  "catalog_backup k kname install_path =
     (let backup = backup_path_for install_path
      in if catalog_file_size (kfs k) install_path > 0 then
           (case (case catalog_active_version (kfs k) kname 16 of
                    None \<Rightarrow> (k, 0)
                  | Some cur_ver \<Rightarrow> catalog_set_rollback k kname cur_ver backup) of (k1, rc) \<Rightarrow>
              if rc \<noteq> 0 then (k1, rc)
              else (case catalog_copy_file (kfs k1) install_path backup of (fs, rc) \<Rightarrow> (k1\<lparr>kfs := fs\<rparr>, rc)))
         else (k, 0))"

definition install_allowed :: "kernel \<Rightarrow> string \<Rightarrow> catalog_entry \<Rightarrow> bool" where
  "install_allowed k kname entry =
     (case catalog_active_version (kfs k) kname 16 of
        Some cur_ver \<Rightarrow> version_ge cur_ver (ce_min_version entry)
      | None \<Rightarrow> chr_at (ce_min_version entry) 0 = CHR ''0'')"

definition install_named :: "kernel \<Rightarrow> nat \<Rightarrow> string \<Rightarrow> (kernel \<times> int) option" where
  "install_named k h kname =
     (case catalog_find_entry k kname of
        Inl e \<Rightarrow> Some (k, e)
      | Inr entry \<Rightarrow>
          if \<not> install_allowed k kname entry then Some (k, EPERM)
          else (case ota_verify_package_kpath k (ce_pkg_path entry) of
                  None \<Rightarrow> None
                | Some (k1, rc) \<Rightarrow>
                    if rc \<noteq> 0 then Some (k1, rc)
                    else (case catalog_backup k1 kname (ce_install_path entry) of (k2, rc) \<Rightarrow>
                      if rc \<noteq> 0 then Some (k2, rc)
                      else (case ota_apply_package_kpath k2 h (ce_pkg_path entry) of
                              None \<Rightarrow> None
                            | Some (k3, rc) \<Rightarrow>
                                if rc \<noteq> 0 then Some (k3, rc)
                                else Some (catalog_set_active k3 kname (ce_version entry) (ce_install_path entry))))))"

definition catalog_install :: "kernel \<Rightarrow> nat \<Rightarrow> u64 \<Rightarrow> (kernel \<times> int) option" where
  "catalog_install k h name =
     (if \<not> agent_has_cap (agent_current k h) CAP_FS then Some (k, EPERM)
      else if name = 0 then Some (k, EINVAL)
      else (case fetch_str k h name 32 EINVAL (Some EINVAL) (junk_run k) of
              Inl e \<Rightarrow> Some (k, e)
            | Inr kname \<Rightarrow> install_named k h kname))"

definition rollback_named :: "kernel \<Rightarrow> string \<Rightarrow> kernel \<times> int" where
  "rollback_named k kname =
     (case catalog_read_rollback k kname of
        Inl e \<Rightarrow> (k, e)
      | Inr (prev_ver, backup) \<Rightarrow>
          if catalog_file_size (kfs k) backup \<le> 0 then (k, ENOENT)
          else
            let (install, bad) = (case catalog_active_install (kfs k) kname 64 of
                                    Some p \<Rightarrow> (p, False) | None \<Rightarrow> (backup, length backup \<ge> 64))
            in (case catalog_copy_file (kfs k) backup install of (fs, rc) \<Rightarrow>
                  let k1 = k\<lparr>kfs := fs, kbuf_oob := kbuf_oob k \<or> bad\<rparr>
                  in if rc \<noteq> 0 then (k1, rc)
                     else (case catalog_set_active k1 kname prev_ver install of (k2, rc) \<Rightarrow>
                             if rc \<noteq> 0 then (k2, rc)
                             else (k2\<lparr>kfs := fst (ramfs_put (kfs k2) CATALOG_PATH_ROLLBACK [] 0)\<rparr>, 0))))"

definition catalog_rollback :: "kernel \<Rightarrow> nat \<Rightarrow> u64 \<Rightarrow> kernel \<times> int" where
  "catalog_rollback k h name =
     (if \<not> agent_has_cap (agent_current k h) CAP_FS then (k, EPERM)
      else if name = 0 then (k, EINVAL)
      else (case fetch_str k h name 32 EINVAL (Some EINVAL) (junk_run k) of
              Inl e \<Rightarrow> (k, e)
            | Inr kname \<Rightarrow> rollback_named k kname))"

section \<open>Fields and lines\<close>

lemma skip_bars_field: "BAR \<notin> set a \<Longrightarrow> skip_bars (Suc n) (a @ BAR # s) = skip_bars n s"
  by (induction a) auto

lemma takeWhile_bar [simp]:
  "BAR \<notin> set a \<Longrightarrow> takeWhile (\<lambda>c. c \<noteq> BAR) (a @ BAR # s) = a" "BAR \<notin> set a \<Longrightarrow> takeWhile (\<lambda>c. c \<noteq> BAR) a = a"
  by (induction a) auto

lemma split_field_0: "BAR \<notin> set a \<Longrightarrow> length a < m \<Longrightarrow> split_field (a @ BAR # s) 0 m = Some a"
  by (simp add: split_field_def)

lemma split_field_last: "BAR \<notin> set a \<Longrightarrow> length a < m \<Longrightarrow> split_field a 0 m = Some a"
  by (auto simp: split_field_def)

lemma split_field_Suc: "BAR \<notin> set a \<Longrightarrow> split_field (a @ BAR # s) (Suc n) m = split_field s n m"
  by (simp add: split_field_def skip_bars_field)

lemma split_fieldD:
  assumes "split_field l n m = Some f"
  shows "BAR \<notin> set f" "length f \<le> m - 1" "set f \<subseteq> set l"
proof -
  have s: "skip_bars n l = Some w \<Longrightarrow> set w \<subseteq> set l" for w
    by (induction n l rule: skip_bars.induct) (auto split: if_splits)
  from assms obtain w where w: "skip_bars n l = Some w" "f = take (m - 1) (takeWhile (\<lambda>c. c \<noteq> BAR) w)"
    by (auto simp: split_field_def)
  show "BAR \<notin> set f" "length f \<le> m - 1" using w(2) by (auto dest: in_set_takeD set_takeWhileD)
  show "set f \<subseteq> set l" using s [OF w(1)] w(2) by (auto dest!: in_set_takeD set_takeWhileD)
qed

lemma text_lines_chars: "l \<in> set (text_lines s) \<Longrightarrow> NUL \<notin> set l \<and> NEWLINE \<notin> set l"
proof (induction s rule: text_lines.induct)
  case (1 s)
  then show ?case
    by (subst (asm) (2) text_lines.simps)
      (auto simp: Let_def cstr_def dest!: set_takeWhileD split: if_splits)
qed

lemma text_lines_one: "s \<noteq> [] \<Longrightarrow> NUL \<notin> set s \<Longrightarrow> NEWLINE \<notin> set s \<Longrightarrow> text_lines s = [s]"
proof -
  assume s: "s \<noteq> []" "NUL \<notin> set s" "NEWLINE \<notin> set s"
  then have t: "takeWhile (\<lambda>c. c \<noteq> NEWLINE) s = s" by (subst takeWhile_eq_all_conv) auto
  show ?thesis unfolding text_lines.simps [of s] Let_def t using s by (simp add: text_lines.simps [of "[]"])
qed


definition field_ok :: "nat \<Rightarrow> string \<Rightarrow> bool" where
  "field_ok n s \<longleftrightarrow> s \<noteq> [] \<and> length s \<le> n \<and> set s \<inter> {BAR, NUL, NEWLINE} = {}"

lemma line_for_fields:
  assumes "line_for name buf = Some line"
  shows "field_ok 31 name" "NUL \<notin> set line" "NEWLINE \<notin> set line"
proof -
  from assms have l: "line \<in> set (text_lines buf)" "names_line name line"
    by (auto simp: line_for_def find_Some_iff)
  with text_lines_chars show c: "NUL \<notin> set line" "NEWLINE \<notin> set line" by blast+
  from l(2) have "split_field line 0 32 = Some name" "name \<noteq> []" by (auto simp: names_line_def split: option.splits)
  with split_fieldD [OF this(1)] c show "field_ok 31 name" by (auto simp: field_ok_def)
qed

lemma record_line_eq:
  "length name \<le> 31 \<Longrightarrow> length version \<le> 15 \<Longrightarrow> length path \<le> 63 \<Longrightarrow>
   record_line name version path = name @ BAR # version @ BAR # path"
  by (simp add: record_line_def Let_def)

lemma record_line_fields:
  assumes "field_ok 31 name" "field_ok 15 version" "field_ok 63 path"
  defines "line \<equiv> record_line name version path"
  shows "line_for name line = Some line" "split_field line 1 16 = Some version" "split_field line 2 64 = Some path"
    "line \<noteq> []" "length line < 128"
proof -
  have eq: "line = name @ BAR # version @ BAR # path"
    using assms(1-3) by (simp add: line_def field_ok_def record_line_eq)
  have "text_lines line = [line]" unfolding eq using assms(1-3) by (intro text_lines_one) (auto simp: field_ok_def)
  moreover have "split_field line 0 32 = Some name"
    unfolding eq using assms(1) by (intro split_field_0) (auto simp: field_ok_def)
  ultimately show "line_for name line = Some line"
    using assms(1) by (simp add: line_for_def names_line_def field_ok_def)
  have b: "BAR \<notin> set name" "BAR \<notin> set version" "BAR \<notin> set path" using assms(1-3) by (auto simp: field_ok_def)
  then show "split_field line 1 16 = Some version" "split_field line 2 64 = Some path"
    using assms(2,3) by (simp_all add: eq split_field_Suc split_field_0 split_field_last numeral_2_eq_2 field_ok_def)
  show "line \<noteq> []" "length line < 128" using assms(1-3) by (auto simp: eq field_ok_def)
qed

section \<open>Files of the catalog\<close>

lemma catalog_file_size_map:
  "ramfs_inv fs \<Longrightarrow> catalog_file_size fs p = (case fs_map fs p of None \<Rightarrow> ENOENT | Some c \<Rightarrow> int (max 1 (length c)))"
  using ota_file_size_map [of fs p] by (simp add: catalog_file_size_def ota_file_size_def)

lemma catalog_file_size_some:
  "ramfs_inv fs \<Longrightarrow> fs_map fs p = Some c \<Longrightarrow> c \<noteq> [] \<Longrightarrow> catalog_file_size fs p = int (length c)"
  by (cases c) (simp_all add: catalog_file_size_map)

lemma catalog_read_file_some:
  assumes "ramfs_inv fs" "fs_map fs p = Some c" "c \<noteq> []"
  shows "catalog_read_file fs p 8192 = Inr c"
proof -
  have sz: "length c < 8192" using rfs.cont_size [OF assms(1,2)] .
  have c: "0 < length c" using assms(3) by simp
  have "catalog_file_size fs p = int (length c)" using catalog_file_size_some [OF assms] .
  moreover have "ramfs_read fs p 0 (int (length c)) = (int (length c), c)"
    using rfs.read_all [OF assms(1) _ _ _ assms(2)] sz c by simp
  ultimately show ?thesis using sz by (simp add: catalog_read_file_def)
qed

lemma catalog_read_file_Inr:
  assumes "ramfs_inv fs" "catalog_read_file fs p cap = Inr c"
  shows "fs_map fs p = Some c" "c \<noteq> []"
proof -
  obtain d where d: "fs_map fs p = Some d"
    using assms catalog_file_size_map [OF assms(1), of p] by (cases "fs_map fs p") (auto simp: catalog_read_file_def)
  have sz: "length d < 8192" using rfs.cont_size [OF assms(1) d] .
  define n where "n = max 1 (length d)"
  have "ramfs_read fs p 0 (int n) = (int (length d), d)"
    using rfs.read_all [OF assms(1) _ _ _ d, of "int n"] sz by (simp add: n_def)
  moreover have "catalog_file_size fs p = int n" using catalog_file_size_map [OF assms(1), of p] d by (simp add: n_def)
  ultimately have "c = d" "length d = n" using assms(2) by (auto simp: catalog_read_file_def Let_def split: if_splits)
  then show "fs_map fs p = Some c" "c \<noteq> []" using d by (auto simp: n_def)
qed

lemma catalog_copy_file_put:
  assumes "ramfs_inv fs" "fs_map fs src = Some c" "c \<noteq> []"
  shows "catalog_copy_file fs src dst =
    (fst (ramfs_put fs dst c (int (length c))), if snd (ramfs_put fs dst c (int (length c))) \<noteq> 0 then ENOSPC else 0)"
proof -
  have sz: "length c < 8192" using rfs.cont_size [OF assms(1,2)] .
  have c: "0 < length c" using assms(3) by simp
  have "catalog_file_size fs src = int (length c)" using catalog_file_size_some [OF assms] .
  moreover have "ramfs_read fs src 0 (int (length c)) = (int (length c), c)"
    using rfs.read_all [OF assms(1) _ _ _ assms(2)] sz c by simp
  ultimately show ?thesis using sz assms(3) by (simp add: catalog_copy_file_def case_prod_unfold)
qed

lemma put_whole:
  assumes "ramfs_inv fs" "path_fits p" "c \<noteq> []" "length c < 8192" "ramfs_put fs p c (int (length c)) = (fs', rc)"
  shows "rc = 0 \<longleftrightarrow> has_room fs p" "has_room fs p \<Longrightarrow> ramfs_inv fs' \<and> fs_map fs' = (fs_map fs)(p \<mapsto> c)"
proof -
  have c: "0 < int (length c)" "int (length c) < 8192" using assms(3,4) by simp_all
  show "rc = 0 \<longleftrightarrow> has_room fs p"
    using rfs.put_ok [OF assms(1,2) _ c, of c] rfs.put_full [OF c, of fs p c] assms(5) by (cases "has_room fs p") auto
  show "ramfs_inv fs' \<and> fs_map fs' = (fs_map fs)(p \<mapsto> c)" if "has_room fs p"
    using rfs.put_ok [OF assms(1,2) that c, of c] assms(5) by simp
qed

lemma put_record_ok:
  assumes "ramfs_inv (kfs k)" "path_fits file" "line \<noteq> []" "length line < 128" "put_record k file line = (k', rc)"
  shows "rc = 0 \<longleftrightarrow> has_room (kfs k) file"
    "has_room (kfs k) file \<Longrightarrow> ramfs_inv (kfs k') \<and> fs_map (kfs k') = (fs_map (kfs k))(file \<mapsto> line)"
    "junk_run k' = junk_run k"
proof -
  obtain fs r where p: "ramfs_put (kfs k) file line (int (length line)) = (fs, r)" by fastforce
  have e: "k' = k\<lparr>kfs := fs, kbuf_oob := kbuf_oob k \<or> length line \<ge> 128\<rparr>" "rc = (if r \<noteq> 0 then ENOSPC else 0)"
    using assms(5) p by (auto simp: put_record_def)
  note w = put_whole [OF assms(1-3) _ p]
  show "rc = 0 \<longleftrightarrow> has_room (kfs k) file" using w(1) assms(4) e(2) by simp
  show "ramfs_inv (kfs k') \<and> fs_map (kfs k') = (fs_map (kfs k))(file \<mapsto> line)" if "has_room (kfs k) file"
    using w(2) assms(4) e(1) that by simp
  show "junk_run k' = junk_run k" using e(1) by simp
qed

lemma existing_room: "ramfs_inv fs \<Longrightarrow> fs_map fs p \<noteq> None \<Longrightarrow> has_room fs p"
  using rfs.cont_room by blast


lemma active_fieldD:
  assumes "active_field fs name n m = Some s" "m \<le> 64"
  shows "field_ok 31 name" "field_ok (m - 1) s"
proof -
  from assms obtain buf line where l: "line_for name buf = Some line" "split_field (take 127 line) n m = Some s" "s \<noteq> []"
    by (auto simp: active_field_def catalog_active_line_def split: sum.splits option.splits if_splits)
  note L = line_for_fields [OF l(1)]
  show "field_ok 31 name" by (rule L(1))
  show "field_ok (m - 1) s" using split_fieldD [OF l(2)] l(3) L(2,3) by (auto simp: field_ok_def dest!: in_set_takeD)
qed

lemma active_record:
  assumes "ramfs_inv fs" "fs_map fs CATALOG_PATH_ACTIVE = Some (record_line name version path)"
    "field_ok 31 name" "field_ok 15 version" "field_ok 63 path"
  shows "catalog_active_version fs name 16 = Some version" "catalog_active_install fs name 64 = Some path"
proof -
  note r = record_line_fields [OF assms(3-5)]
  have "catalog_read_file fs CATALOG_PATH_ACTIVE 8192 = Inr (record_line name version path)"
    using catalog_read_file_some [OF assms(1,2) r(4)] .
  then have "catalog_active_line fs name 128 = Inr (record_line name version path)"
    using r(1,5) by (simp add: catalog_active_line_def)
  then show "catalog_active_version fs name 16 = Some version" "catalog_active_install fs name 64 = Some path"
    using r(2,3) assms(4,5) by (simp_all add: catalog_active_version_def catalog_active_install_def active_field_def field_ok_def)
qed

lemma backup_path_facts:
  assumes "field_ok 47 p"
  shows "field_ok 63 (backup_path_for p)" "path_fits (backup_path_for p)" "path_fits p" "backup_path_for p \<noteq> p"
    "backup_path_for p \<noteq> CATALOG_PATH_ACTIVE" "backup_path_for p \<noteq> CATALOG_PATH_ROLLBACK"
proof -
  have e: "backup_path_for p = p @ ''.prev''" using assms by (simp add: backup_path_for_def field_ok_def)
  show "field_ok 63 (backup_path_for p)" "path_fits (backup_path_for p)" "path_fits p" "backup_path_for p \<noteq> p"
    using assms by (auto simp: e field_ok_def path_fits_def)
  have "last (backup_path_for p) = CHR ''v''" by (simp add: e)
  then show "backup_path_for p \<noteq> CATALOG_PATH_ACTIVE" "backup_path_for p \<noteq> CATALOG_PATH_ROLLBACK" by auto
qed

lemma catalog_backup_ok:
  assumes "ramfs_inv (kfs k)" "field_ok 47 p" "p \<noteq> CATALOG_PATH_ROLLBACK" "fs_map (kfs k) p = Some old" "old \<noteq> []"
    "catalog_active_version (kfs k) name 16 = Some ver" "catalog_backup k name p = (k', 0)"
  shows "ramfs_inv (kfs k')" "junk_run k' = junk_run k"
    "fs_map (kfs k') = (fs_map (kfs k))(CATALOG_PATH_ROLLBACK \<mapsto> record_line name ver (backup_path_for p),
       backup_path_for p \<mapsto> old)"
proof -
  note b = backup_path_facts [OF assms(2)]
  have nv: "field_ok 31 name" "field_ok 15 ver"
    using active_fieldD [of "kfs k" name 1 16 ver] assms(6) by (simp_all add: catalog_active_version_def)
  note r = record_line_fields [OF nv b(1)]
  have rp: "path_fits CATALOG_PATH_ROLLBACK" by (simp add: path_fits_def)
  obtain k1 rc where k1: "put_record k CATALOG_PATH_ROLLBACK (record_line name ver (backup_path_for p)) = (k1, rc)" by fastforce
  note w = put_record_ok [OF assms(1) rp r(4,5) k1]
  have sz: "catalog_file_size (kfs k) p > 0" using catalog_file_size_some [OF assms(1,4,5)] assms(5) by simp
  have rc: "rc = 0" and k': "catalog_copy_file (kfs k1) p (backup_path_for p) = (kfs k', 0)" "junk_run k' = junk_run k1"
    using assms(6,7) sz k1
    by (auto simp: catalog_backup_def catalog_set_rollback_def Let_def split: if_splits prod.splits)
  then have f1: "ramfs_inv (kfs k1)" "fs_map (kfs k1) = (fs_map (kfs k))(CATALOG_PATH_ROLLBACK \<mapsto> record_line name ver (backup_path_for p))"
    using w by blast+
  then have old: "fs_map (kfs k1) p = Some old" using assms(3,4) by simp
  obtain fs' r' where put: "ramfs_put (kfs k1) (backup_path_for p) old (int (length old)) = (fs', r')" by fastforce
  have e: "fs' = kfs k'" "r' = 0"
    using catalog_copy_file_put [OF f1(1) old assms(5), of "backup_path_for p"] k' put by (auto split: if_splits)
  note W = put_whole [OF f1(1) b(2) assms(5) rfs.cont_size [OF assms(1,4)] put]
  show "ramfs_inv (kfs k')" using W e by simp
  show "junk_run k' = junk_run k" using k'(2) w(3) by simp
  show "fs_map (kfs k') = (fs_map (kfs k))(CATALOG_PATH_ROLLBACK \<mapsto> record_line name ver (backup_path_for p),
       backup_path_for p \<mapsto> old)" using W e f1(2) by simp
qed

lemma rollback_named_ok:
  assumes "ramfs_inv (kfs k)" "field_ok 31 name" "field_ok 15 ver" "field_ok 15 version" "field_ok 47 p"
    "p \<notin> {CATALOG_PATH_ROLLBACK, CATALOG_PATH_ACTIVE}"
    "fs_map (kfs k) CATALOG_PATH_ROLLBACK = Some (record_line name ver (backup_path_for p))"
    "fs_map (kfs k) CATALOG_PATH_ACTIVE = Some (record_line name version p)"
    "fs_map (kfs k) (backup_path_for p) = Some old" "old \<noteq> []" "fs_map (kfs k) p \<noteq> None"
  shows "\<exists>k'. rollback_named k name = (k', 0) \<and> ramfs_inv (kfs k') \<and>
    fs_map (kfs k') = (fs_map (kfs k))(p \<mapsto> old, CATALOG_PATH_ACTIVE \<mapsto> record_line name ver p)"
proof -
  note b = backup_path_facts [OF assms(5)]
  have p63: "field_ok 63 p" using assms(5) by (auto simp: field_ok_def)
  note r = record_line_fields [OF assms(2,3) b(1)] and a = record_line_fields [OF assms(2,3) p63]
  have "catalog_read_file (kfs k) CATALOG_PATH_ROLLBACK 8192 = Inr (record_line name ver (backup_path_for p))"
    using catalog_read_file_some [OF assms(1,7) r(4)] .
  then have rb: "catalog_read_rollback k name = Inr (ver, backup_path_for p)"
    using r(1-3) by (simp add: catalog_read_rollback_def)
  have sz: "\<not> catalog_file_size (kfs k) (backup_path_for p) \<le> 0"
    using catalog_file_size_some [OF assms(1,9,10)] assms(10) by simp
  have ins: "catalog_active_install (kfs k) name 64 = Some p" using active_record(2) [OF assms(1,8,2,4) p63] .
  obtain fs1 r1 where put: "ramfs_put (kfs k) p old (int (length old)) = (fs1, r1)" by fastforce
  note W = put_whole [OF assms(1) b(3) assms(10) rfs.cont_size [OF assms(1,9)] put]
  have f1: "r1 = 0" "ramfs_inv fs1" "fs_map fs1 = (fs_map (kfs k))(p \<mapsto> old)"
    using W existing_room [OF assms(1,11)] by simp_all
  define k1 where "k1 = k\<lparr>kfs := fs1, kbuf_oob := kbuf_oob k\<rparr>"
  have i1: "ramfs_inv (kfs k1)" using f1(2) by (simp add: k1_def)
  have cp: "catalog_copy_file (kfs k) (backup_path_for p) p = (fs1, 0)"
    using catalog_copy_file_put [OF assms(1,9,10), of p] put f1(1) by simp
  obtain k2 r2 where k2: "put_record k1 CATALOG_PATH_ACTIVE (record_line name ver p) = (k2, r2)" by fastforce
  have "path_fits CATALOG_PATH_ACTIVE" by (simp add: path_fits_def)
  note V = put_record_ok [OF i1 this a(4,5) k2]
  have "has_room (kfs k1) CATALOG_PATH_ACTIVE"
    using existing_room [OF i1, of CATALOG_PATH_ACTIVE] f1(3) assms(8) by (simp add: k1_def)
  with V have f2: "r2 = 0" "ramfs_inv (kfs k2)" "fs_map (kfs k2) = (fs_map (kfs k1))(CATALOG_PATH_ACTIVE \<mapsto> record_line name ver p)"
    by blast+
  have clear: "ramfs_put (kfs k2) CATALOG_PATH_ROLLBACK [] 0 = (kfs k2, EINVAL)"
    using rfs.put_einval [of 0 "kfs k2" CATALOG_PATH_ROLLBACK "[]"] by simp
  have "rollback_named k name = (k2\<lparr>kfs := kfs k2\<rparr>, 0)"
    using rb sz ins cp k2 f2(1) clear k1_def by (simp add: rollback_named_def catalog_set_active_def Let_def)
  then show ?thesis using f2(2,3) f1(3) by (simp add: k1_def)
qed


lemma install_named_files:
  assumes "ramfs_inv (kfs k)" "length (cstr (junk_run k)) \<le> 15" "catalog_find_entry k name = Inr entry"
    "p = ce_install_path entry" "field_ok 47 p" "field_ok 15 (ce_version entry)"
    "p \<notin> {CATALOG_PATH_ROLLBACK, CATALOG_PATH_ACTIVE}"
    "ce_pkg_path entry \<notin> {CATALOG_PATH_ROLLBACK, backup_path_for p}"
    "\<And>pkg. fs_map (kfs k) (ce_pkg_path entry) = Some pkg \<Longrightarrow> install_target k pkg = p"
    "fs_map (kfs k) p = Some old" "old \<noteq> []" "catalog_active_version (kfs k) name 16 = Some ver"
    "install_named k h name = Some (k', 0)"
  shows "ramfs_inv (kfs k') \<and> (\<exists>new. fs_map (kfs k') = (fs_map (kfs k))
    (CATALOG_PATH_ROLLBACK \<mapsto> record_line name ver (backup_path_for p), backup_path_for p \<mapsto> old, p \<mapsto> new,
     CATALOG_PATH_ACTIVE \<mapsto> record_line name (ce_version entry) p))"
proof -
  from assms(3,4,13) obtain k1 k2 k3 where s: "ota_verify_package_kpath k (ce_pkg_path entry) = Some (k1, 0)"
      "catalog_backup k1 name p = (k2, 0)" "ota_apply_package_kpath k2 h (ce_pkg_path entry) = Some (k3, 0)"
      "catalog_set_active k3 name (ce_version entry) p = (k', 0)"
    by (auto simp: install_named_def split: if_splits option.splits prod.splits)
  have p63: "field_ok 63 p" and nv: "field_ok 31 name"
    using assms(5) active_fieldD [of "kfs k" name 1 16 ver] assms(12)
    by (auto simp: catalog_active_version_def field_ok_def)
  obtain pkg where "ota_parse_package k (ce_pkg_path entry) = Some (k1, Inr pkg)"
    using s(1) ota_parse_Inl [OF assms(1)]
    by (fastforce simp: ota_verify_package_kpath_def split: option.splits prod.splits sum.splits)
  note P = ota_parse_Inr [OF assms(1) this]
  note B = catalog_backup_ok [of k1 p old name ver k2, unfolded P(3,4), OF assms(1,5) _ assms(10-12) s(2)]
  have b: "ramfs_inv (kfs k2)" "junk_run k2 = junk_run k"
      "fs_map (kfs k2) = (fs_map (kfs k))(CATALOG_PATH_ROLLBACK \<mapsto> record_line name ver (backup_path_for p), backup_path_for p \<mapsto> old)"
    using B assms(7) by simp_all
  have "fs_map (kfs k2) (ce_pkg_path entry) = Some pkg" using b(3) P(1) assms(8) by simp
  moreover have "install_target k2 pkg = p" using assms(9) [OF P(1)] b(2) by (simp add: install_target_def)
  ultimately obtain new where new: "fs_map (kfs k3) = (fs_map (kfs k2))(p \<mapsto> new)"
    using ota_apply_result [OF b(1) _ s(3)] assms(2) b(2) by (auto simp: installs_def Let_def)
  have i3: "ramfs_inv (kfs k3)" using ota_apply_result [OF b(1) _ s(3)] assms(2) b(2) by simp
  note r = record_line_fields [OF nv assms(6) p63]
  have "path_fits CATALOG_PATH_ACTIVE" by (simp add: path_fits_def)
  note w = put_record_ok [OF i3 this r(4,5) s(4) [unfolded catalog_set_active_def]]
  then have "ramfs_inv (kfs k')" "fs_map (kfs k') = (fs_map (kfs k3))(CATALOG_PATH_ACTIVE \<mapsto> record_line name (ce_version entry) p)"
    by blast+
  then show ?thesis using new b(3) by auto
qed

lemma ota_apply_same_user: "ota_apply_package_kpath k h path = Some (k', rc) \<Longrightarrow> same_user k k'"
  using ota_parse_same_user [of k path]
  by (auto simp: ota_apply_package_kpath_def same_user_def Let_def split: if_splits prod.splits option.splits sum.splits)

lemma put_record_same_user: "put_record k file line = (k', rc) \<Longrightarrow> same_user k k'"
  by (auto simp: put_record_def same_user_def split: prod.splits)

lemma catalog_backup_same_user: "catalog_backup k name p = (k', rc) \<Longrightarrow> same_user k k'"
  by (auto simp: catalog_backup_def catalog_set_rollback_def Let_def same_user_def
      split: if_splits prod.splits option.splits dest!: put_record_same_user)

lemma install_named_same_user:
  assumes "install_named k h name = Some (k', rc)"
  shows "same_user k k'"
  using assms unfolding install_named_def ota_verify_package_kpath_def catalog_set_active_def
  by (auto split: if_splits prod.splits option.splits sum.splits
      dest!: ota_parse_same_user catalog_backup_same_user ota_apply_same_user put_record_same_user
      intro: same_user_trans)

text \<open>C27: A rollback undoes an installation.  After a package with an active version was updated from the catalog,
  whose entry and package agree on the install path, a rollback succeeds, makes the old version active again
  and brings every file back that is not a record of the catalog or the backup itself.\<close>

theorem catalog_rollback_undoes_install:
  assumes "ramfs_inv (kfs k)" "length (cstr (junk_run k)) \<le> 15"
    "fetch_str k h ptr 32 EINVAL (Some EINVAL) (junk_run k) = Inr name" "catalog_find_entry k name = Inr entry"
    "p = ce_install_path entry" "field_ok 47 p" "field_ok 15 (ce_version entry)"
    "p \<notin> {CATALOG_PATH_ROLLBACK, CATALOG_PATH_ACTIVE}"
    "ce_pkg_path entry \<notin> {CATALOG_PATH_ROLLBACK, backup_path_for p}"
    "\<And>pkg. fs_map (kfs k) (ce_pkg_path entry) = Some pkg \<Longrightarrow> install_target k pkg = p"
    "fs_map (kfs k) p = Some old" "old \<noteq> []" "catalog_active_version (kfs k) name 16 = Some ver"
    "catalog_install k h ptr = Some (k1, 0)"
  shows "\<exists>k2. catalog_rollback k1 h ptr = (k2, 0) \<and> catalog_active_version (kfs k2) name 16 = Some ver \<and>
    (\<forall>q. q \<notin> {CATALOG_PATH_ROLLBACK, CATALOG_PATH_ACTIVE, backup_path_for p} \<longrightarrow> fs_map (kfs k2) q = fs_map (kfs k) q)"
proof -
  have g: "agent_has_cap (agent_current k h) CAP_FS" "ptr \<noteq> 0" and ins: "install_named k h name = Some (k1, 0)"
    using assms(3,14) by (auto simp: catalog_install_def split: if_splits)
  have nv: "field_ok 31 name" "field_ok 15 ver" and p63: "field_ok 63 p"
    using active_fieldD [of "kfs k" name 1 16 ver] assms(6,13) by (auto simp: catalog_active_version_def field_ok_def)
  note b = backup_path_facts [OF assms(6)]
  from install_named_files [OF assms(1,2,4-13) ins] obtain new where f: "ramfs_inv (kfs k1)"
    "fs_map (kfs k1) = (fs_map (kfs k))
      (CATALOG_PATH_ROLLBACK \<mapsto> record_line name ver (backup_path_for p), backup_path_for p \<mapsto> old, p \<mapsto> new,
       CATALOG_PATH_ACTIVE \<mapsto> record_line name (ce_version entry) p)" by blast
  obtain k2 where k2: "rollback_named k1 name = (k2, 0)" "ramfs_inv (kfs k2)"
      "fs_map (kfs k2) = (fs_map (kfs k1))(p \<mapsto> old, CATALOG_PATH_ACTIVE \<mapsto> record_line name ver p)"
    using rollback_named_ok [OF f(1) nv assms(7,6,8), of old] f(2) b assms(8,12) by auto
  note su = install_named_same_user [OF ins]
  have "catalog_rollback k1 h ptr = (k2, 0)"
    using g assms(3) k2(1) same_user_fetch [OF su, of h ptr] same_user_current [OF su, of h] su
    by (simp add: catalog_rollback_def same_user_def)
  moreover have "catalog_active_version (kfs k2) name 16 = Some ver"
    using active_record(1) [OF k2(2) _ nv p63] k2(3) by simp
  moreover have "fs_map (kfs k2) q = fs_map (kfs k) q"
    if "q \<notin> {CATALOG_PATH_ROLLBACK, CATALOG_PATH_ACTIVE, backup_path_for p}" for q
    using that assms(11) k2(3) f(2) by auto
  ultimately show ?thesis by blast
qed

section \<open>Versions\<close>

definition version_str :: "int \<times> int \<times> int \<Rightarrow> string" where
  "version_str v = (case v of (m, n, p) \<Rightarrow> dec_str m @ ''.'' @ dec_str n @ ''.'' @ dec_str p)"

definition in_int :: "int \<Rightarrow> bool" where
  "in_int n \<longleftrightarrow> 0 \<le> n \<and> n < 2147483648"

lemma version_loop_digits:
  "(\<And>c. c \<in> set ds \<Longrightarrow> is_digit c) \<Longrightarrow>
   version_loop part m n p (ds @ s) =
     version_loop part (if part = 0 then fst (parse_uint m ds) else m) (if part = 1 then fst (parse_uint n ds) else n)
       (if part \<ge> 2 then fst (parse_uint p ds) else p) s"
  by (induction ds arbitrary: m n p) auto

lemma parse_version_str:
  assumes "in_int m" "in_int n" "in_int p"
  shows "parse_version (version_str (m, n, p)) = Some (m, n, p)"
proof -
  have d: "\<And>c. c \<in> set (dec_str i) \<Longrightarrow> is_digit c" for i using dec_str_digits .
  have u: "fst (parse_uint 0 (dec_str i)) = i" if "in_int i" for i
    using parse_uint_dec_str [of i "[]"] that by (simp add: in_int_def)
  have dot: "\<not> is_digit CHR ''.''" by (simp add: is_digit_def)
  have "version_loop 2 m n 0 (dec_str p) = Some (m, n, p)"
    using version_loop_digits [of "dec_str p" 2 m n 0 "[]", OF d] u [OF assms(3)] by simp
  with assms show ?thesis
    by (simp add: parse_version_def version_str_def version_loop_digits [OF d] u dot numeral_2_eq_2)
qed

text \<open>Versions are compared as triples of numbers, in lexicographic order.\<close>

lemma version_ge_lexicographic:
  assumes "in_int m" "in_int n" "in_int p" "in_int m'" "in_int n'" "in_int p'"
  shows "version_ge (version_str (m, n, p)) (version_str (m', n', p')) \<longleftrightarrow>
    m > m' \<or> m = m' \<and> (n > n' \<or> n = n' \<and> p \<ge> p')"
  using assms by (auto simp: version_ge_def parse_version_str)

section \<open>Witness\<close>

text \<open>A kernel with one package in the catalog, whose name stands in the memory of the current agent.\<close>

definition cat_files :: "(string \<times> string) list" where
  "cat_files = [(''/sys/ota/w'', demo_pkg), (CATALOG_PATH_INDEX, ''h|2|/sys/ota/w|/agent/1/w|stable|0''),
     (CATALOG_PATH_ACTIVE, ''h|1|/agent/1/w''), (''/agent/1/w'', ''old'')]"

definition cat_kernel :: kernel where
  "cat_kernel = upd_agent (talk_kernel\<lparr>kfs := fold (\<lambda>(p, c) fs. fst (ramfs_put fs p c (int (length c)))) cat_files blank_fs\<rparr>) 1
     (\<lambda>a. a\<lparr>caps := CAP_FS\<rparr>)"

lemma put_files:
  assumes "ramfs_inv fs" "\<forall>(p, c) \<in> set l. path_fits p \<and> c \<noteq> [] \<and> length c < 8192" "card (dom (fs_map fs)) + length l \<le> 60"
  shows "ramfs_inv (fold (\<lambda>(p, c) fs. fst (ramfs_put fs p c (int (length c)))) l fs) \<and>
    fs_map (fold (\<lambda>(p, c) fs. fst (ramfs_put fs p c (int (length c)))) l fs) = fold (\<lambda>(p, c) m. m(p \<mapsto> c)) l (fs_map fs)"
  using assms
proof (induction l arbitrary: fs)
  case (Cons x l)
  obtain p c where x: "x = (p, c)" by fastforce
  obtain fs' rc where put: "ramfs_put fs p c (int (length c)) = (fs', rc)" by fastforce
  have "has_room fs p" using has_room_map [OF Cons.prems(1)] Cons.prems(3) by simp
  with put_whole [OF Cons.prems(1) _ _ _ put] Cons.prems(2) x
  have f: "ramfs_inv fs'" "fs_map fs' = (fs_map fs)(p \<mapsto> c)" by auto
  have "card (dom (fs_map fs')) \<le> Suc (card (dom (fs_map fs)))"
    unfolding f(2) using finite_dom_fs [of fs] by (simp add: card_insert_if)
  then have c: "card (dom (fs_map fs')) + length l \<le> 60" using Cons.prems(3) by simp
  have "\<forall>(p, c) \<in> set l. path_fits p \<and> c \<noteq> [] \<and> length c < 8192" using Cons.prems(2) by simp
  from Cons.IH [OF f(1) this c] show ?case unfolding x fold.simps comp_apply split put fst_conv f(2) .
qed simp

lemma cat_kernel_fs:
  "ramfs_inv (kfs cat_kernel)" "fs_map (kfs cat_kernel) = [''/sys/ota/w'' \<mapsto> demo_pkg,
     CATALOG_PATH_INDEX \<mapsto> ''h|2|/sys/ota/w|/agent/1/w|stable|0'', CATALOG_PATH_ACTIVE \<mapsto> ''h|1|/agent/1/w'', ''/agent/1/w'' \<mapsto> ''old'']"
proof -
  have "demo_pkg \<noteq> []" using length_demo_pkg by auto
  with put_files [of blank_fs cat_files] length_demo_pkg
  show "ramfs_inv (kfs cat_kernel)" "fs_map (kfs cat_kernel) = [''/sys/ota/w'' \<mapsto> demo_pkg,
     CATALOG_PATH_INDEX \<mapsto> ''h|2|/sys/ota/w|/agent/1/w|stable|0'', CATALOG_PATH_ACTIVE \<mapsto> ''h|1|/agent/1/w'', ''/agent/1/w'' \<mapsto> ''old'']"
    by (simp_all add: cat_kernel_def cat_files_def path_fits_def)
qed

lemma cat_kernel_channel:
  "fs_map fs ''/sys/ota/channel'' = None \<Longrightarrow> ota_channel_matches fs (put_field 7 8 ''stable'')"
  by (simp add: ota_channel_matches_def rfs.read_none put_field_def pad_to_def)

lemma cat_kernel_user:
  "agent_has_cap (agent_current cat_kernel 0) CAP_FS" "junk_run cat_kernel = []" "kheap (kvm cat_kernel) = kheap boot_vm"
  "fetch_str cat_kernel 0 0x60000000 32 EINVAL (Some EINVAL) [] = Inr ''h''"
proof -
  define a where "a = (agent_at talk_kernel 1)\<lparr>caps := CAP_FS\<rparr>"
  have c: "agent_current cat_kernel 0 = Some a" and v: "kvm cat_kernel = talk_vm"
    using talk_kernel_wf talk_kernel_current by (auto simp: cat_kernel_def agent_current_def cur_idx_def a_def kernel_wf_def)
  have p: "pagetable a = pagetable ro_agent" using talk_kernel_current by (simp add: a_def ro_agent_def)
  show "agent_has_cap (agent_current cat_kernel 0) CAP_FS" by (simp add: c agent_has_cap_def a_def)
  show "junk_run cat_kernel = []" by (simp add: cat_kernel_def talk_kernel_def demo_kernel_def)
  show "kheap (kvm cat_kernel) = kheap boot_vm" by (simp add: v talk_vm_def)
  have "user_strnlen talk_vm (Some ro_agent) 0x60000000 31 = 1" "copy_from_user talk_vm (Some ro_agent) 0x60000000 2 = (2, [CHR ''h'', NUL])"
    by code_simp+
  then show "fetch_str cat_kernel 0 0x60000000 32 EINVAL (Some EINVAL) [] = Inr ''h''"
    by (simp add: fetch_str_def fetch_bytes_def user_text_def from_user_def c v user_strnlen_agent [OF p]
        copy_from_user_agent [OF p] Let_def cstr_def)
qed

lemma cat_kernel_entry:
  "catalog_find_entry cat_kernel ''h'' =
     Inr \<lparr>ce_version = ''2'', ce_pkg_path = ''/sys/ota/w'', ce_install_path = ''/agent/1/w'', ce_min_version = ''0''\<rparr>"
  "fs_map (kfs k) CATALOG_PATH_ACTIVE = Some ''h|1|/agent/1/w'' \<Longrightarrow> ramfs_inv (kfs k) \<Longrightarrow>
   catalog_active_version (kfs k) ''h'' 16 = Some ''1''"
proof -
  define idx where "idx = ''h|2|/sys/ota/w|/agent/1/w|stable|0''"
  have "line_for ''h'' idx = Some idx" "cstr (drop 32 (entry_mem idx [])) = ''2''" "cstr (drop 48 (entry_mem idx [])) = ''/sys/ota/w''"
    "cstr (drop 96 (entry_mem idx [])) = ''/agent/1/w''" "cstr (drop 152 (entry_mem idx [])) = ''0''"
    unfolding idx_def by code_simp+
  moreover have "catalog_read_file (kfs cat_kernel) CATALOG_PATH_INDEX 8192 = Inr idx"
    using catalog_read_file_some [OF cat_kernel_fs(1)] cat_kernel_fs(2) by (simp add: idx_def)
  ultimately show "catalog_find_entry cat_kernel ''h'' =
     Inr \<lparr>ce_version = ''2'', ce_pkg_path = ''/sys/ota/w'', ce_install_path = ''/agent/1/w'', ce_min_version = ''0''\<rparr>"
    using cat_kernel_user(2) by (simp add: catalog_find_entry_def Let_def)
  assume a: "fs_map (kfs k) CATALOG_PATH_ACTIVE = Some ''h|1|/agent/1/w''" "ramfs_inv (kfs k)"
  have "record_line ''h'' ''1'' ''/agent/1/w'' = ''h|1|/agent/1/w''" by (simp add: record_line_eq)
  with active_record(1) [OF a(2), of "''h''" "''1''" "''/agent/1/w''"] a(1)
  show "catalog_active_version (kfs k) ''h'' 16 = Some ''1''" by (simp add: field_ok_def)
qed

lemma catalog_backup_returns:
  assumes "ramfs_inv (kfs k)" "field_ok 47 p" "p \<noteq> CATALOG_PATH_ROLLBACK" "fs_map (kfs k) p = Some old" "old \<noteq> []"
    "catalog_active_version (kfs k) name 16 = Some ver" "card (dom (fs_map (kfs k))) \<le> 60"
  obtains k' where "catalog_backup k name p = (k', 0)" "kvm k' = kvm k" "kworld k' = kworld k"
proof -
  note b = backup_path_facts [OF assms(2)]
  have nv: "field_ok 31 name" "field_ok 15 ver"
    using active_fieldD [of "kfs k" name 1 16 ver] assms(6) by (simp_all add: catalog_active_version_def)
  note r = record_line_fields [OF nv b(1)]
  obtain k1 rc where k1: "put_record k CATALOG_PATH_ROLLBACK (record_line name ver (backup_path_for p)) = (k1, rc)" by fastforce
  have "path_fits CATALOG_PATH_ROLLBACK" by (simp add: path_fits_def)
  note w = put_record_ok [OF assms(1) this r(4,5) k1]
  have "has_room (kfs k) CATALOG_PATH_ROLLBACK" using has_room_map [OF assms(1)] assms(7) by simp
  with w have f1: "rc = 0" "ramfs_inv (kfs k1)"
      "fs_map (kfs k1) = (fs_map (kfs k))(CATALOG_PATH_ROLLBACK \<mapsto> record_line name ver (backup_path_for p))" by blast+
  have "card (dom (fs_map (kfs k1))) \<le> 61"
    unfolding f1(3) using finite_dom_fs [of "kfs k"] assms(7) by (simp add: card_insert_if)
  then have "has_room (kfs k1) (backup_path_for p)" using has_room_map [OF f1(2)] by simp
  moreover have old: "fs_map (kfs k1) p = Some old" using f1(3) assms(3,4) by simp
  moreover obtain fs' r' where put: "ramfs_put (kfs k1) (backup_path_for p) old (int (length old)) = (fs', r')" by fastforce
  ultimately have cp: "catalog_copy_file (kfs k1) p (backup_path_for p) = (fs', 0)"
    using put_whole [OF f1(2) b(2) assms(5) rfs.cont_size [OF assms(1,4)] put]
      catalog_copy_file_put [OF f1(2) old assms(5), of "backup_path_for p"] by simp
  have sz: "catalog_file_size (kfs k) p > 0" using catalog_file_size_some [OF assms(1,4,5)] assms(5) by simp
  have "catalog_backup k name p = (k1\<lparr>kfs := fs'\<rparr>, 0)"
    using k1 f1(1) cp sz assms(6) by (simp add: catalog_backup_def catalog_set_rollback_def)
  moreover have "kvm k1 = kvm k" "kworld k1 = kworld k" using k1 by (auto simp: put_record_def split: prod.splits)
  ultimately show thesis using that by simp
qed

lemma cat_kernel_installs: "\<exists>k1. catalog_install cat_kernel 0 0x60000000 = Some (k1, 0)"
proof -
  let ?p = "''/agent/1/w''" and ?src = "''/sys/ota/w''"
  note F = cat_kernel_fs
  have ok: "field_ok 47 ?p" by (simp add: field_ok_def)
  have pkg: "pkg_accepted w fs demo_pkg" "unat (om_elf_offset (dec_manifest demo_pkg)) = 128"
      "unat (om_elf_size (dec_manifest demo_pkg)) = 64" "install_target k demo_pkg = ?p"
    if "fs_map fs ''/sys/ota/channel'' = None" for w fs k
    using mk_agentpkg_accepted [OF demo_pkg_def _ _ _ _ _ cat_kernel_channel [OF that]] length_demo_pkg by auto
  obtain k1 q where k1: "kalloc_k cat_kernel 192 = (k1, q)" by fastforce
  have h1: "q \<noteq> 0" "snd (kalloc (kheap (kvm k1)) 192) \<noteq> 0"
  proof -
    have "snd (kalloc (kheap boot_vm) 192) \<noteq> 0" "snd (kalloc (fst (kalloc (kheap boot_vm) 192)) 192) \<noteq> 0" by code_simp+
    moreover obtain m r where m: "kalloc (kheap boot_vm) 192 = (m, r)" by fastforce
    moreover have "kalloc_k cat_kernel 192 = (cat_kernel\<lparr>kvm := (kvm cat_kernel)\<lparr>kheap := m\<rparr>\<rparr>, r)"
      unfolding kalloc_k_def cat_kernel_user(3) m by simp
    ultimately show "q \<noteq> 0" "snd (kalloc (kheap (kvm k1)) 192) \<noteq> 0" using k1 by auto
  qed
  have e1: "kfs k1 = kfs cat_kernel" "kworld k1 = kworld cat_kernel" using kalloc_k_frame [OF k1] by simp_all
  have "ota_check_package (kworld cat_kernel) (kfs cat_kernel) demo_pkg = Some 0"
    using ota_check_iff [of demo_pkg] pkg(1) [of "kfs cat_kernel"] length_demo_pkg F(2) by simp
  then have ver: "ota_verify_package_kpath cat_kernel ?src = Some (k1, 0)"
    using ota_parse_some [OF F(1), of ?src demo_pkg] F(2) length_demo_pkg k1 h1(1)
    by (simp add: ota_verify_package_kpath_def)
  have av: "catalog_active_version (kfs cat_kernel) ''h'' 16 = Some ''1''" using cat_kernel_entry(2) [of cat_kernel] F by simp
  obtain k2 where k2: "catalog_backup k1 ''h'' ?p = (k2, 0)" "kvm k2 = kvm k1" "kworld k2 = kworld k1"
    using catalog_backup_returns [of k1 ?p "''old''" "''h''" "''1''"] F av ok e1 by auto
  note b = catalog_backup_ok [of k1 ?p "''old''" "''h''" "''1''" k2, unfolded e1, OF F(1) ok _ _ _ av k2(1)]
  have f2: "ramfs_inv (kfs k2)" "fs_map (kfs k2) ?src = Some demo_pkg" "fs_map (kfs k2) ''/sys/ota/channel'' = None"
      "fs_map (kfs k2) ?p \<noteq> None" "fs_map (kfs k2) CATALOG_PATH_ACTIVE \<noteq> None"
    using b F(2) by (simp_all add: backup_path_for_def)
  have su: "same_user cat_kernel k2"
    using same_user_trans [OF same_user_kalloc [OF k1] catalog_backup_same_user [OF k2(1)]] .
  have "agent_has_cap (agent_current k2 0) CAP_FS" "ota_pkg_path_ok (agent_current k2 0) ?src"
    using cat_kernel_user(1) same_user_current [OF su, of 0] by (auto simp: ota_pkg_path_ok_def)
  moreover have "snd (kalloc_k k2 (of_nat (length demo_pkg))) \<noteq> 0"
    using h1(2) k2(2) length_demo_pkg by (simp add: kalloc_k_def case_prod_unfold)
  ultimately obtain k3 where k3: "ota_apply_package_kpath k2 0 ?src = Some (k3, 0)" "fs_map (kfs k3) CATALOG_PATH_ACTIVE \<noteq> None"
    using ota_apply_ok [OF f2(1,2) pkg(1) [OF f2(3)] _ _ _ pkg(2,3) [OF f2(3)], of 0] pkg(4) [OF f2(3), of k2]
      length_demo_pkg existing_room [OF f2(1,4)] f2(5) backup_path_facts(3) [OF ok] by auto
  have i3: "ramfs_inv (kfs k3)" using ota_apply_result [OF f2(1) _ k3(1)] su cat_kernel_user(2) by (simp add: same_user_def)
  note r = record_line_fields [of "''h''" "''2''" ?p]
  obtain k4 rc where k4: "put_record k3 CATALOG_PATH_ACTIVE (record_line ''h'' ''2'' ?p) = (k4, rc)" by fastforce
  have "rc = 0"
    using put_record_ok(1) [OF i3 _ _ _ k4] r existing_room [OF i3 k3(2)] by (simp add: field_ok_def path_fits_def)
  moreover have "version_ge ''1'' ''0''" by code_simp
  ultimately have "install_named cat_kernel 0 ''h'' = Some (k4, 0)"
    using cat_kernel_entry(1) av ver k2(1) k3(1) k4
    by (simp add: install_named_def install_allowed_def catalog_set_active_def)
  then show ?thesis using cat_kernel_user by (simp add: catalog_install_def)
qed

theorem catalog_rollback_undoes_install_witness:
  "\<exists>k1 k2. catalog_install cat_kernel 0 0x60000000 = Some (k1, 0) \<and> catalog_rollback k1 0 0x60000000 = (k2, 0) \<and>
     fs_map (kfs k2) ''/agent/1/w'' = Some ''old''"
proof -
  from cat_kernel_installs obtain k1 where k1: "catalog_install cat_kernel 0 0x60000000 = Some (k1, 0)" by blast
  have t: "install_target cat_kernel demo_pkg = ''/agent/1/w''"
    using mk_agentpkg_accepted(6) [OF demo_pkg_def _ _ _ _ _ cat_kernel_channel [of blank_fs]] length_demo_pkg by simp
  have av: "catalog_active_version (kfs cat_kernel) ''h'' 16 = Some ''1''" using cat_kernel_entry(2) [of cat_kernel] cat_kernel_fs by simp
  have "\<exists>k2. catalog_rollback k1 0 0x60000000 = (k2, 0) \<and> catalog_active_version (kfs k2) ''h'' 16 = Some ''1'' \<and>
    (\<forall>q. q \<notin> {CATALOG_PATH_ROLLBACK, CATALOG_PATH_ACTIVE, backup_path_for ''/agent/1/w''} \<longrightarrow> fs_map (kfs k2) q = fs_map (kfs cat_kernel) q)"
  proof (rule catalog_rollback_undoes_install [OF cat_kernel_fs(1) _ _ cat_kernel_entry(1) _ _ _ _ _ _ _ _ av k1, where old = "''old''"])
    show "length (cstr (junk_run cat_kernel)) \<le> 15"
      "fetch_str cat_kernel 0 0x60000000 32 EINVAL (Some EINVAL) (junk_run cat_kernel) = Inr ''h''"
      using cat_kernel_user(2,4) by (simp_all add: cstr_def)
  qed (use t cat_kernel_fs(2) in \<open>simp_all add: field_ok_def backup_path_for_def\<close>)
  then obtain k2 where k2: "catalog_rollback k1 0 0x60000000 = (k2, 0)"
    "\<forall>q. q \<notin> {CATALOG_PATH_ROLLBACK, CATALOG_PATH_ACTIVE, backup_path_for ''/agent/1/w''} \<longrightarrow> fs_map (kfs k2) q = fs_map (kfs cat_kernel) q"
    by blast
  have "fs_map (kfs k2) ''/agent/1/w'' = fs_map (kfs cat_kernel) ''/agent/1/w''"
    by (rule k2(2) [rule_format]) (simp add: backup_path_for_def)
  then have "fs_map (kfs k2) ''/agent/1/w'' = Some ''old''" by (simp add: cat_kernel_fs(2))
  with k1 k2(1) show ?thesis by blast
qed

end
