(* ===== verification/Tool.thy ===== *)
theory Tool
  imports Llm Fleet Catalog
begin

text \<open>
  The tool gateway: \<open>kernel/tool.c\<close> and \<open>agent_tool\<close> of \<open>kernel/agent.c\<close>.

  A tool is called with its number and three registers.  \<open>tool_dispatch\<close> asks the tool quota and the policy, looks the
  tool up in \<open>tool_table\<close>, tests the capability and the arguments, runs the tool, writes a line to the
  agent's audit log and charges the quota.  The calling agent is the index \<open>i\<close>; it runs on the hart \<open>h\<close>.

  Each \<open>run_\<close> function is the function of that name.  \<open>None\<close> means that the tool does not return, faults or runs past
  a local array; a write of one byte behind a buffer sets \<open>kbuf_oob\<close>.
\<close>

section \<open>Definitions\<close>

type_synonym tool_result = "(kernel \<times> int) option"

definition as_int :: "u64 \<Rightarrow> int" where
  "as_int x = wrap32 (sint x)"

abbreviation (input) TOOL_QUOTA :: int where "TOOL_QUOTA \<equiv> 21"
abbreviation (input) TOOL_FLEET :: int where "TOOL_FLEET \<equiv> 22"
abbreviation (input) TOOL_POLICY :: int where "TOOL_POLICY \<equiv> 23"
abbreviation (input) TOOL_REMOTE :: int where "TOOL_REMOTE \<equiv> 24"
abbreviation (input) TOOL_MESH :: int where "TOOL_MESH \<equiv> 25"
abbreviation (input) TOOL_CONSOLE :: int where "TOOL_CONSOLE \<equiv> 16"
abbreviation (input) TOOL_INPUT :: int where "TOOL_INPUT \<equiv> 15"
abbreviation (input) TOOL_AUDIT :: int where "TOOL_AUDIT \<equiv> 19"
abbreviation (input) TOOL_NAMESPACE :: int where "TOOL_NAMESPACE \<equiv> 20"
abbreviation (input) TOOL_READ :: int where "TOOL_READ \<equiv> 3"
abbreviation (input) TOOL_WRITE :: int where "TOOL_WRITE \<equiv> 4"

abbreviation (input) PATH_BUF :: nat where "PATH_BUF \<equiv> 64"
abbreviation (input) IO_BUF :: int where "IO_BUF \<equiv> 256"
abbreviation (input) IO_MAX :: int where "IO_MAX \<equiv> 8192"

subsection \<open>The audit line\<close>

definition is_audit_path :: "string \<Rightarrow> bool" where
  "is_audit_path path = match_at path 1 ''audit/''"

definition append_int :: "string \<Rightarrow> nat \<Rightarrow> int \<Rightarrow> string option" where
  "append_int buf cap val =
     (if val < 0 \<and> length buf \<ge> cap - 1 then None
      else
        let buf1 = (if val < 0 then buf @ ''-'' else buf);
            ds = dec_str (uint32 (if val < 0 then - val else val))
        in if length buf1 + length ds \<le> cap - 1 then Some (buf1 @ ds) else None)"

definition audit_line :: "int \<Rightarrow> int \<Rightarrow> string option" where
  "audit_line tool rc =
     (case append_int ''tool='' 32 tool of
        None \<Rightarrow> None
      | Some l \<Rightarrow> (case append_int (l @ '' rc='') 32 rc of None \<Rightarrow> None | Some l1 \<Rightarrow> Some (l1 @ [NEWLINE])))"

definition tool_audit_log :: "kernel \<Rightarrow> nat \<Rightarrow> int \<Rightarrow> int \<Rightarrow> kernel" where
  "tool_audit_log k i tool rc =
     (case audit_line tool rc of
        None \<Rightarrow> k
      | Some line \<Rightarrow>
          let a = Some (agent_at k i); n = int (length line)
          in (case audit_write (kfs k) a line n of (fs, wrc) \<Rightarrow>
                if wrc = ENOSPC then k\<lparr>kfs := fst (audit_write (fst (audit_compact fs a 8)) a line n)\<rparr>
                else k\<lparr>kfs := fs\<rparr>))"

subsection \<open>Argument checks\<close>

definition read_path_from_user :: "kernel \<Rightarrow> nat \<Rightarrow> u64 \<Rightarrow> string \<Rightarrow> int + string" where
  "read_path_from_user k h arg0 junk = fetch_str k h arg0 PATH_BUF EFAULT (Some EINVAL) junk"

definition policy_add :: "u64 \<Rightarrow> u64 \<Rightarrow> int" where
  "policy_add arg0 arg1 =
     (if sint arg0 < - 1000000 \<or> sint arg0 > 1000000 \<or> sint arg1 < - 1000000 \<or> sint arg1 > 1000000 then EINVAL else 0)"

definition storage_path_ok :: "string \<Rightarrow> bool \<Rightarrow> int" where
  "storage_path_ok path wr =
     (if chr_at path 0 \<noteq> CHR ''/'' then EINVAL
      else if is_audit_path path then EPERM
      else if namespace_is_path path then EPERM
      else if match_at path 1 ''sys'' then (if wr then EPERM else 0)
      else if match_at path 1 ''agent/'' then 0
      else if match_at path 1 ''session/'' then 0
      else EPERM)"

definition agent_dir_ok :: "agent \<Rightarrow> string \<Rightarrow> int" where
  "agent_dir_ok a path =
     (case parse_uint 0 (drop 7 path) of (n, rest) \<Rightarrow>
        if chr_at rest 0 \<noteq> CHR ''/'' then EINVAL else if n = aid a then 0 else EPERM)"

definition fs_read_rule :: "agent \<Rightarrow> string \<Rightarrow> int" where
  "fs_read_rule a path =
     (if is_audit_path path then (if audit_path_ok (Some a) path then 0 else EPERM)
      else if namespace_is_path path then (if namespace_path_ok (Some a) path then 0 else EPERM)
      else if agent_has_cap (Some a) CAP_SVC_STORAGE then storage_path_ok path False
      else if chr_at path 0 \<noteq> CHR ''/'' then EINVAL
      else if match_at path 1 ''sys'' then 0
      else if match_at path 1 ''session/'' then (if tenant_session_path_ok (Some a) path then 0 else EPERM)
      else if match_at path 1 ''agent/'' then agent_dir_ok a path
      else EPERM)"

definition policy_fs_read :: "kernel \<Rightarrow> nat \<Rightarrow> agent \<Rightarrow> u64 \<Rightarrow> int" where
  "policy_fs_read k h a arg0 =
     (case read_path_from_user k h arg0 (junk_check k) of Inl e \<Rightarrow> EINVAL | Inr path \<Rightarrow> fs_read_rule a path)"

definition fs_write_rule :: "agent \<Rightarrow> string \<Rightarrow> int" where
  "fs_write_rule a path =
     (if is_audit_path path then EPERM
      else if namespace_is_path path then (if namespace_path_ok (Some a) path then 0 else EPERM)
      else if agent_has_cap (Some a) CAP_SVC_STORAGE then storage_path_ok path True
      else if match_at path 1 ''sys'' then EPERM
      else if match_at path 1 ''agent/'' then agent_dir_ok a path
      else EPERM)"

definition policy_fs_write :: "kernel \<Rightarrow> nat \<Rightarrow> agent \<Rightarrow> u64 \<Rightarrow> int" where
  "policy_fs_write k h a arg0 =
     (case read_path_from_user k h arg0 (junk_check k) of Inl e \<Rightarrow> EINVAL | Inr path \<Rightarrow> fs_write_rule a path)"

definition policy_llm :: "u64 \<Rightarrow> u64 \<Rightarrow> u64 \<Rightarrow> int" where
  "policy_llm arg0 arg1 arg2 = (if arg0 = 0 \<or> arg1 = 0 \<or> sint arg2 \<le> 0 then EINVAL else 0)"

definition policy_session :: "u64 \<Rightarrow> int" where
  "policy_session arg0 = (if arg0 = 0 then EINVAL else 0)"

definition policy_gpio :: "u64 \<Rightarrow> u64 \<Rightarrow> int" where
  "policy_gpio arg0 arg1 =
     (if sint arg0 < 0 \<or> sint arg0 > 63 then EINVAL else if arg1 \<noteq> 0 \<and> arg1 \<noteq> 1 then EINVAL else 0)"

definition policy_http :: "u64 \<Rightarrow> u64 \<Rightarrow> u64 \<Rightarrow> int" where
  "policy_http arg0 arg1 arg2 = (if arg0 = 0 \<or> arg1 = 0 \<or> sint arg2 \<le> 0 then EINVAL else 0)"

subsection \<open>Tools\<close>

definition run_log :: "kernel \<Rightarrow> tool_result" where
  "run_log k = Some (k, 0)"

definition run_add :: "kernel \<Rightarrow> u64 \<Rightarrow> u64 \<Rightarrow> tool_result" where
  "run_add k arg0 arg1 = Some (k, as_int (arg0 + arg1))"

definition enc64 :: "u64 \<Rightarrow> string" where
  "enc64 t = map (\<lambda>j. char_of (unat (drop_bit (8 * j) t))) [0..<8]"

definition run_time :: "kernel \<Rightarrow> nat \<Rightarrow> u64 \<Rightarrow> tool_result" where
  "run_time k h arg0 =
     (let t = ktime k; rc = uint (t AND 0x7fffffff)
      in if arg0 \<noteq> 0 then
           (case to_user k h arg0 (enc64 t) of (k1, c) \<Rightarrow> Some (k1, if c < 0 then EFAULT else rc))
         else Some (k, rc))"

definition run_read :: "kernel \<Rightarrow> nat \<Rightarrow> u64 \<Rightarrow> u64 \<Rightarrow> u64 \<Rightarrow> tool_result" where
  "run_read k h arg0 arg1 arg2 =
     (let len = as_int arg2
      in case read_path_from_user k h arg0 (junk_run k) of
           Inl e \<Rightarrow> Some (k, EINVAL)
         | Inr path \<Rightarrow>
             if len \<le> 0 \<or> len > IO_MAX then Some (k, EINVAL)
             else
               let (k1, p) = (if len > IO_BUF then kalloc_k k (of_int len) else (k, 1))
               in if p = 0 then Some (k1, ENOSPC)
                  else (case ramfs_read (kfs k1) path 0 len of (rc, bs) \<Rightarrow>
                    if rc < 0 then Some (k1, rc)
                    else (case to_user k1 h arg1 bs of (k2, c) \<Rightarrow>
                      if c < 0 then Some (k2, EFAULT)
                      else
                        let past = (if len > IO_BUF then rc = len \<and> len mod 16 = 0 else rc = IO_BUF)
                        in Some (k2\<lparr>kbuf_oob := kbuf_oob k2 \<or> past\<rparr>, rc))))"

definition run_write :: "kernel \<Rightarrow> nat \<Rightarrow> nat \<Rightarrow> u64 \<Rightarrow> u64 \<Rightarrow> u64 \<Rightarrow> tool_result" where
  "run_write k h i arg0 arg1 arg2 =
     (let len = as_int arg2
      in case read_path_from_user k h arg0 (junk_run k) of
           Inl e \<Rightarrow> Some (k, EINVAL)
         | Inr path \<Rightarrow>
             if len \<le> 0 \<or> len > IO_MAX then Some (k, EINVAL)
             else
               let (k1, p) = (if len > IO_BUF then kalloc_k k (of_int len) else (k, 1))
               in if p = 0 then Some (k1, ENOSPC)
                  else (case from_user k1 h arg1 (of_int len) of (c, bs) \<Rightarrow>
                    if c < 0 then Some (k1, EFAULT)
                    else
                      let q = quota_fs_allow_new (kfs k1) (Some (agent_at k1 i)) path
                      in if q \<noteq> 0 then Some (k1, q)
                         else (case ramfs_write (kfs k1) path 0 bs len of (fs, rc) \<Rightarrow> Some (k1\<lparr>kfs := fs\<rparr>, rc))))"

definition run_llm :: "kernel \<Rightarrow> nat \<Rightarrow> u64 \<Rightarrow> u64 \<Rightarrow> u64 \<Rightarrow> tool_result" where
  "run_llm k h arg0 arg1 arg2 = agent_llm_query k h arg0 arg1 (as_int arg2)"

definition run_session_append :: "kernel \<Rightarrow> nat \<Rightarrow> nat \<Rightarrow> u64 \<Rightarrow> tool_result" where
  "run_session_append k h i arg0 =
     (case fetch_str k h arg0 128 EFAULT (Some EINVAL) (junk_run k) of
        Inl e \<Rightarrow> Some (k, e)
      | Inr text \<Rightarrow>
          (case session_append (kfs k) (Some (agent_at k i)) text of (fs, rc) \<Rightarrow> Some (k\<lparr>kfs := fs\<rparr>, rc)))"

definition run_session_tail :: "kernel \<Rightarrow> nat \<Rightarrow> nat \<Rightarrow> u64 \<Rightarrow> u64 \<Rightarrow> tool_result" where
  "run_session_tail k h i arg0 arg1 =
     (let buflen = as_int arg1
      in if arg0 = 0 \<or> buflen \<le> 0 \<or> buflen > 128 then Some (k, EINVAL)
         else (case session_tail (kfs k) (Some (agent_at k i)) buflen of (rc, bs) \<Rightarrow>
                 if rc < 0 then Some (k, rc)
                 else (case to_user k h arg0 (bs @ [NUL]) of (k1, c) \<Rightarrow> Some (k1, if c < 0 then EFAULT else rc))))"

definition run_session_read :: "kernel \<Rightarrow> nat \<Rightarrow> nat \<Rightarrow> u64 \<Rightarrow> u64 \<Rightarrow> u64 \<Rightarrow> tool_result" where
  "run_session_read k h i arg0 arg1 arg2 =
     (let buflen = as_int arg1
      in if arg0 = 0 \<or> buflen \<le> 0 \<or> buflen > 8192 then Some (k, EINVAL)
         else (case session_read (kfs k) (Some (agent_at k i)) buflen (as_int arg2) of (rc, bs) \<Rightarrow>
                 if rc < 0 then Some (k, rc)
                 else (case to_user k h arg0 (bs @ [NUL]) of (k1, c) \<Rightarrow> Some (k1, if c < 0 then EFAULT else rc))))"

definition run_session_compact :: "kernel \<Rightarrow> nat \<Rightarrow> u64 \<Rightarrow> tool_result" where
  "run_session_compact k i arg0 =
     (case session_compact (kfs k) (Some (agent_at k i)) (as_int arg0) of (fs, a, rc) \<Rightarrow>
        Some (upd_agent (k\<lparr>kfs := fs\<rparr>) i (\<lambda>_. the a), rc))"

definition run_gpio :: "kernel \<Rightarrow> u64 \<Rightarrow> tool_result" where
  "run_gpio k arg1 = Some (k, as_int arg1)"

definition run_http :: "kernel \<Rightarrow> nat \<Rightarrow> u64 \<Rightarrow> u64 \<Rightarrow> u64 \<Rightarrow> tool_result" where
  "run_http k h arg0 arg1 arg2 =
     (let buflen = as_int arg2
      in if arg0 = 0 \<or> arg1 = 0 \<or> buflen \<le> 0 \<or> buflen > int HTTP_MAX_BODY then Some (k, EINVAL)
         else (case fetch_str k h arg0 HTTP_MAX_URL EINVAL (Some EINVAL) (junk_run k) of
           Inl e \<Rightarrow> Some (k, e)
         | Inr url \<Rightarrow>
             (case agent_http_fetch (kworld k) url (int HTTP_MAX_BODY) of
                None \<Rightarrow> None
              | Some (w, rc, body) \<Rightarrow>
                  let k1 = k\<lparr>kworld := w\<rparr>
                  in if rc < 0 then Some (k1, rc)
                     else if rc \<ge> buflen then Some (k1, EINVAL)
                     else
                       let n = nat rc + 1
                       in (case to_user k1 h arg1 (take n (pad_to n (body @ NUL # junk_run k))) of (k2, c) \<Rightarrow>
                             Some (k2, if c < 0 then EFAULT else rc)))))"

definition run_display :: "kernel \<Rightarrow> nat \<Rightarrow> u64 \<Rightarrow> u64 \<Rightarrow> tool_result" where
  "run_display k h arg0 arg2 =
     (let cmd = as_int arg0; w = kworld k
      in if cmd = 0 then Some (k, 0)
         else if cmd = 2 then
           (if virtio_gpu_ready w then Some (k\<lparr>kworld := w_step w\<rparr>, virtio_gpu_flush w (w_calls w)) else Some (k, 0))
         else if cmd \<noteq> 1 then Some (k, EINVAL)
         else if arg2 = 0 then Some (k, EINVAL)
         else if user_text k h arg2 127 \<le> 0 then Some (k, EINVAL)
         else if fst (from_user k h arg2 128) < 0 then Some (k, EFAULT)
         else Some (k, 0))"

definition run_input :: "kernel \<Rightarrow> u64 \<Rightarrow> tool_result" where
  "run_input k arg0 =
     (let w = kworld k
      in if as_int arg0 \<noteq> 0 then Some (k, EINVAL)
         else if virtio_input_ready w then
           (case virtio_input_poll w (w_calls w) of (rc, ty, code, value) \<Rightarrow>
              let k1 = k\<lparr>kworld := w_step w\<rparr>
              in if rc \<le> 0 then Some (k1, rc) else if ty = 1 \<and> value = 1 then Some (k1, code) else Some (k1, 0))
         else (case uart_poll_char k of
                 (k1, None) \<Rightarrow> Some (k1, 0)
               | (k1, Some ch) \<Rightarrow>
                   if ch = CHR ''h'' \<or> ch = CHR ''H'' then Some (k1, 11)
                   else if ch = CR \<or> ch = NEWLINE then Some (k1, 0)
                   else Some (k1, int (of_char ch))))"

definition run_console :: "kernel \<Rightarrow> nat \<Rightarrow> u64 \<Rightarrow> u64 \<Rightarrow> u64 \<Rightarrow> tool_result" where
  "run_console k h arg0 arg1 arg2 =
     (let cmd = as_int arg0
      in if cmd = 3 then
           (case uart_poll_char k of (k1, None) \<Rightarrow> Some (k1, 0) | (k1, Some ch) \<Rightarrow> Some (k1, int (of_char ch)))
         else if cmd = 0 then
           (if arg1 = 0 \<or> sint arg2 \<le> 0 then Some (k, EINVAL)
            else (case uart_getline k (if sint arg2 < 204 then as_int arg2 else 204) of
                    None \<Rightarrow> None
                  | Some (k1, rc, buf) \<Rightarrow>
                      if rc < 0 then Some (k1, rc)
                      else (case to_user k1 h arg1 (buf @ [NUL]) of (k2, c) \<Rightarrow> Some (k2, if c < 0 then EFAULT else rc))))
         else if cmd = 1 then
           (if arg1 = 0 then Some (k, EINVAL)
            else (case fetch_str k h arg1 201 EINVAL (Some EINVAL) (junk_run k) of
                    Inl e \<Rightarrow> Some (k, e) | Inr s \<Rightarrow> Some (uart_puts k s, 0)))
         else if cmd = 2 then
           (if arg1 \<noteq> 0 \<and> user_text k h arg1 63 > 0 then
              (case fetch_str k h arg1 64 EINVAL (Some EINVAL) (junk_run k) of
                 Inl e \<Rightarrow> Some (k, e) | Inr s \<Rightarrow> Some (uart_puts k s, 0))
            else Some (uart_puts k ''agentos> '', 0))
         else Some (k, EINVAL))"

definition run_smp :: "kernel \<Rightarrow> nat \<Rightarrow> u64 \<Rightarrow> u64 \<Rightarrow> tool_result" where
  "run_smp k h arg0 arg1 =
     (let cmd = as_int arg0
      in Some (k, if cmd = 0 then smp_online_count k
                  else if cmd = 1 then wrap32 (uint (smp_hart_ticks k (as_int arg1)))
                  else if cmd = 2 then int h
                  else EINVAL))"

definition run_ota :: "kernel \<Rightarrow> nat \<Rightarrow> u64 \<Rightarrow> u64 \<Rightarrow> u64 \<Rightarrow> tool_result" where
  "run_ota k h arg0 arg1 arg2 =
     (let cmd = as_int arg0
      in if cmd = 0 then ota_apply_package k h arg1
         else if cmd = 1 then ota_verify_package k h arg1
         else if cmd = 2 then ota_channel_get k h arg1 (as_int arg2)
         else if cmd = 3 then Some (ota_channel_set k h arg1)
         else if cmd = 4 then Some (k, ota_kernel_gen)
         else Some (k, EINVAL))"

definition run_catalog :: "kernel \<Rightarrow> nat \<Rightarrow> u64 \<Rightarrow> u64 \<Rightarrow> tool_result" where
  "run_catalog k h arg0 arg1 =
     (let cmd = as_int arg0
      in if cmd = 0 then Some (k, catalog_list (kfs k))
         else if cmd = 1 then catalog_install k h arg1
         else if cmd = 2 then Some (catalog_rollback k h arg1)
         else Some (k, EINVAL))"

definition run_audit :: "kernel \<Rightarrow> nat \<Rightarrow> u64 \<Rightarrow> u64 \<Rightarrow> tool_result" where
  "run_audit k i arg0 arg1 =
     (let cmd = as_int arg0; a = Some (agent_at k i)
      in if cmd = 0 then Some (k, audit_usage (kfs k) a)
         else if cmd = 1 then Some (k, fst (audit_tail (kfs k) a (as_int arg1)))
         else if cmd = 2 then map_option (Pair k) (audit_probe_cross_read (kfs k) a (as_int arg1))
         else if cmd = 3 then (case audit_compact (kfs k) a (as_int arg1) of (fs, rc) \<Rightarrow> Some (k\<lparr>kfs := fs\<rparr>, rc))
         else Some (k, EINVAL))"

definition run_namespace :: "kernel \<Rightarrow> nat \<Rightarrow> nat \<Rightarrow> u64 \<Rightarrow> u64 \<Rightarrow> tool_result" where
  "run_namespace k h i arg0 arg1 =
     (let cmd = as_int arg0; a = Some (agent_at k i)
      in if cmd = 0 then Some (k, namespace_status (kfs k) a)
         else if cmd = 1 then map_option (Pair k) (namespace_probe_cross_read (kfs k) a (as_int arg1))
         else if cmd = 2 then
           (case fetch_bytes k h arg1 128 EFAULT (Some EINVAL) of
              Inl e \<Rightarrow> Some (k, e)
            | Inr text \<Rightarrow>
                (case namespace_write_secret (kfs k) a text (user_text k h arg1 127) of (fs, rc) \<Rightarrow> Some (k\<lparr>kfs := fs\<rparr>, rc)))
         else Some (k, EINVAL))"

definition run_quota :: "kernel \<Rightarrow> nat \<Rightarrow> nat \<Rightarrow> u64 \<Rightarrow> u64 \<Rightarrow> tool_result" where
  "run_quota k h i arg0 arg1 =
     (let cmd = as_int arg0; a = Some (agent_at k i)
      in if cmd = 0 then Some (k, quota_status (kquota k) a)
         else if cmd = 1 then Some (quota_burn_ipc k i (as_int arg1))
         else if cmd = 2 then Some (k, quota_probe_ipc (kquota k) a)
         else if cmd = 3 then
           (case fetch_str k h arg1 128 EFAULT (Some EINVAL) (junk_run k) of
              Inl e \<Rightarrow> Some (k, e) | Inr text \<Rightarrow> Some (quota_notify k i text))
         else Some (k, EINVAL))"

definition run_fleet :: "kernel \<Rightarrow> nat \<Rightarrow> nat \<Rightarrow> u64 \<Rightarrow> u64 \<Rightarrow> tool_result" where
  "run_fleet k h i arg0 arg1 =
     (let cmd = as_int arg0
      in if cmd = 0 then Some (k, fleet_status k)
         else if cmd = 1 then Some (fleet_push k (Some (agent_at k i)))
         else if cmd = 2 then
           (case fetch_str k h arg1 128 EFAULT (Some EINVAL) (junk_run k) of
              Inl e \<Rightarrow> Some (k, e) | Inr url \<Rightarrow> Some (k, fleet_probe url))
         else if cmd = 3 then
           (if arg1 = 0 then fleet_ingest k None
            else (case fetch_str k h arg1 128 EFAULT None (junk_run k) of
                    Inl e \<Rightarrow> Some (k, e) | Inr url \<Rightarrow> fleet_ingest k (Some url)))
         else Some (k, EINVAL))"

definition pol_result :: "kernel \<Rightarrow> policy \<times> int \<Rightarrow> tool_result" where
  "pol_result k r = Some (k\<lparr>kpol := fst r\<rparr>, snd r)"

definition run_policy :: "kernel \<Rightarrow> nat \<Rightarrow> u64 \<Rightarrow> u64 \<Rightarrow> u64 \<Rightarrow> tool_result" where
  "run_policy k h arg0 arg1 arg2 =
     (let cmd = as_int arg0; n = as_int arg1; pol = kpol k
      in if cmd = 0 then Some (k, policy_status pol)
         else if cmd = 1 then
           (if arg1 = 0 then pol_result k (policy_load pol (kfs k) None)
            else (case fetch_str k h arg1 128 EFAULT None (junk_run k) of
                    Inl e \<Rightarrow> Some (k, e) | Inr path \<Rightarrow> pol_result k (policy_load pol (kfs k) (Some path))))
         else if cmd = 2 then Some (k, policy_probe_tool pol n)
         else if cmd = 3 then pol_result k (policy_deny_tool pol n)
         else if cmd = 4 then pol_result k (policy_allow_tool pol n)
         else if cmd = 5 then
           (if arg1 = 0 then Some (k, EINVAL)
            else (case fetch_str k h arg1 64 EFAULT None (junk_run k) of
                    Inl e \<Rightarrow> Some (k, e) | Inr host \<Rightarrow> pol_result k (policy_net_add_allow pol host (uint (arg2 AND 0xffff)))))
         else if cmd = 6 then Some (k, policy_net_status pol)
         else if cmd = 7 then pol_result k (policy_net_set_restrict pol n)
         else Some (k, EINVAL))"

definition run_remote :: "kernel \<Rightarrow> u64 \<Rightarrow> tool_result" where
  "run_remote k arg0 =
     (let cmd = as_int arg0
      in if cmd = 0 then Some (k, remote_status k)
         else if cmd = 1 then Some (remote_enable k)
         else if cmd = 2 then Some (remote_disable k)
         else if cmd = 3 then Some (k, remote_ping k)
         else if cmd = 4 then Some (remote_connect k)
         else Some (k, EINVAL))"

definition run_mesh :: "kernel \<Rightarrow> nat \<Rightarrow> u64 \<Rightarrow> u64 \<Rightarrow> tool_result" where
  "run_mesh k h arg0 arg1 =
     (let cmd = as_int arg0
      in if cmd = 0 then Some (k, mesh_status)
         else if cmd = 1 then Some (k, mesh_beacon)
         else if cmd = 2 then
           (case fetch_str k h arg1 64 EFAULT (Some EINVAL) (junk_run k) of
              Inl e \<Rightarrow> Some (k, e) | Inr service \<Rightarrow> Some (k, mesh_probe service))
         else Some (k, EINVAL))"

definition run_tenant :: "kernel \<Rightarrow> nat \<Rightarrow> u64 \<Rightarrow> u64 \<Rightarrow> tool_result" where
  "run_tenant k i arg0 arg1 =
     (let cmd = as_int arg0; a = Some (agent_at k i)
      in if cmd = 0 then Some (k, tenant_session_usage (kfs k) a)
         else if cmd = 1 then map_option (Pair k) (tenant_probe_cross_read (kfs k) a (as_int arg1))
         else Some (k, EINVAL))"

subsection \<open>Dispatch\<close>

record tool_entry =
  te_tool :: int
  te_cap :: u32
  te_check :: "kernel \<Rightarrow> nat \<Rightarrow> nat \<Rightarrow> u64 \<Rightarrow> u64 \<Rightarrow> u64 \<Rightarrow> int"
  te_run :: "kernel \<Rightarrow> nat \<Rightarrow> nat \<Rightarrow> u64 \<Rightarrow> u64 \<Rightarrow> u64 \<Rightarrow> tool_result"

definition no_check :: "kernel \<Rightarrow> nat \<Rightarrow> nat \<Rightarrow> u64 \<Rightarrow> u64 \<Rightarrow> u64 \<Rightarrow> int" where
  "no_check k h i arg0 arg1 arg2 = 0"

definition tool_table :: "tool_entry list" where
  "tool_table =
    [\<lparr>te_tool = 0, te_cap = CAP_LOG, te_check = no_check, te_run = (\<lambda>k h i x y z. run_log k)\<rparr>,
     \<lparr>te_tool = 1, te_cap = CAP_MATH, te_check = (\<lambda>k h i x y z. policy_add x y), te_run = (\<lambda>k h i x y z. run_add k x y)\<rparr>,
     \<lparr>te_tool = 2, te_cap = CAP_TIME, te_check = no_check, te_run = (\<lambda>k h i x y z. run_time k h x)\<rparr>,
     \<lparr>te_tool = 3, te_cap = CAP_FS, te_check = (\<lambda>k h i x y z. policy_fs_read k h (agent_at k i) x),
       te_run = (\<lambda>k h i x y z. run_read k h x y z)\<rparr>,
     \<lparr>te_tool = 4, te_cap = CAP_FS, te_check = (\<lambda>k h i x y z. policy_fs_write k h (agent_at k i) x),
       te_run = (\<lambda>k h i x y z. run_write k h i x y z)\<rparr>,
     \<lparr>te_tool = 5, te_cap = CAP_LLM, te_check = (\<lambda>k h i x y z. policy_llm x y z), te_run = (\<lambda>k h i x y z. run_llm k h x y z)\<rparr>,
     \<lparr>te_tool = 6, te_cap = CAP_LOG, te_check = (\<lambda>k h i x y z. policy_session x), te_run = (\<lambda>k h i x y z. run_session_append k h i x)\<rparr>,
     \<lparr>te_tool = 7, te_cap = CAP_LOG, te_check = (\<lambda>k h i x y z. policy_session x), te_run = (\<lambda>k h i x y z. run_session_tail k h i x y)\<rparr>,
     \<lparr>te_tool = 8, te_cap = CAP_LOG, te_check = (\<lambda>k h i x y z. policy_session x), te_run = (\<lambda>k h i x y z. run_session_read k h i x y z)\<rparr>,
     \<lparr>te_tool = 9, te_cap = CAP_LOG, te_check = (\<lambda>k h i x y z. policy_session x), te_run = (\<lambda>k h i x y z. run_session_compact k i x)\<rparr>,
     \<lparr>te_tool = 10, te_cap = CAP_GPIO, te_check = (\<lambda>k h i x y z. policy_gpio x y), te_run = (\<lambda>k h i x y z. run_gpio k y)\<rparr>,
     \<lparr>te_tool = 11, te_cap = CAP_NET, te_check = (\<lambda>k h i x y z. policy_http x y z), te_run = (\<lambda>k h i x y z. run_http k h x y z)\<rparr>,
     \<lparr>te_tool = 14, te_cap = CAP_DISPLAY, te_check = no_check, te_run = (\<lambda>k h i x y z. run_display k h x z)\<rparr>,
     \<lparr>te_tool = 15, te_cap = CAP_INPUT, te_check = no_check, te_run = (\<lambda>k h i x y z. run_input k x)\<rparr>,
     \<lparr>te_tool = 16, te_cap = CAP_SVC_CONSOLE, te_check = no_check, te_run = (\<lambda>k h i x y z. run_console k h x y z)\<rparr>,
     \<lparr>te_tool = 12, te_cap = CAP_LOG, te_check = no_check, te_run = (\<lambda>k h i x y z. run_smp k h x y)\<rparr>,
     \<lparr>te_tool = 13, te_cap = CAP_FS, te_check = no_check, te_run = (\<lambda>k h i x y z. run_ota k h x y z)\<rparr>,
     \<lparr>te_tool = 17, te_cap = CAP_FS, te_check = no_check, te_run = (\<lambda>k h i x y z. run_catalog k h x y)\<rparr>,
     \<lparr>te_tool = 18, te_cap = CAP_LOG, te_check = no_check, te_run = (\<lambda>k h i x y z. run_tenant k i x y)\<rparr>,
     \<lparr>te_tool = 19, te_cap = CAP_LOG, te_check = no_check, te_run = (\<lambda>k h i x y z. run_audit k i x y)\<rparr>,
     \<lparr>te_tool = 20, te_cap = CAP_LOG, te_check = no_check, te_run = (\<lambda>k h i x y z. run_namespace k h i x y)\<rparr>,
     \<lparr>te_tool = 21, te_cap = CAP_LOG, te_check = no_check, te_run = (\<lambda>k h i x y z. run_quota k h i x y)\<rparr>,
     \<lparr>te_tool = 22, te_cap = CAP_LOG, te_check = no_check, te_run = (\<lambda>k h i x y z. run_fleet k h i x y)\<rparr>,
     \<lparr>te_tool = 23, te_cap = CAP_LOG, te_check = no_check, te_run = (\<lambda>k h i x y z. run_policy k h x y z)\<rparr>,
     \<lparr>te_tool = 24, te_cap = CAP_LOG, te_check = no_check, te_run = (\<lambda>k h i x y z. run_remote k x)\<rparr>,
     \<lparr>te_tool = 25, te_cap = CAP_LOG, te_check = no_check, te_run = (\<lambda>k h i x y z. run_mesh k h x y)\<rparr>]"

definition console_quiet :: "int \<Rightarrow> u64 \<Rightarrow> bool" where
  "console_quiet tool arg0 \<longleftrightarrow> tool = TOOL_CONSOLE \<and> (arg0 = 3 \<or> arg0 = 1 \<or> arg0 = 2)"

definition unmetered :: "int \<Rightarrow> u64 \<Rightarrow> bool" where
  "unmetered tool arg0 \<longleftrightarrow>
     tool = TOOL_QUOTA \<or> tool = TOOL_POLICY \<or> tool = TOOL_FLEET \<or> tool = TOOL_REMOTE \<or> tool = TOOL_MESH \<or> console_quiet tool arg0"

definition unlogged :: "int \<Rightarrow> u64 \<Rightarrow> int \<Rightarrow> bool" where
  "unlogged tool arg0 rc \<longleftrightarrow>
     tool = TOOL_INPUT \<and> rc = 0 \<or> console_quiet tool arg0 \<or> tool = TOOL_AUDIT \<or> tool = TOOL_NAMESPACE \<or>
     tool = TOOL_QUOTA \<or> tool = TOOL_FLEET \<or> tool = TOOL_POLICY \<or> tool = TOOL_REMOTE \<or> tool = TOOL_MESH"

definition tool_gate :: "kernel \<Rightarrow> nat \<Rightarrow> int \<Rightarrow> u64 \<Rightarrow> int" where
  "tool_gate k i tool arg0 =
     (if unmetered tool arg0 then 0
      else
        let rc = quota_tool_allow (kquota k) (Some (agent_at k i))
        in if rc \<noteq> 0 then rc else policy_tool_allow (kpol k) tool)"

definition tool_lookup :: "int \<Rightarrow> tool_entry option" where
  "tool_lookup tool = List.find (\<lambda>e. te_tool e = tool) tool_table"

definition tool_dispatch :: "kernel \<Rightarrow> nat \<Rightarrow> nat \<Rightarrow> int \<Rightarrow> u64 \<Rightarrow> u64 \<Rightarrow> u64 \<Rightarrow> tool_result" where
  "tool_dispatch k h i tool arg0 arg1 arg2 =
     (let deny = (\<lambda>rc. Some (tool_audit_log k i tool rc, rc)); rc = tool_gate k i tool arg0
      in if rc \<noteq> 0 then deny rc
         else (case tool_lookup tool of
                 None \<Rightarrow> deny EINVAL
               | Some e \<Rightarrow>
                   if \<not> agent_has_cap (Some (agent_at k i)) (te_cap e) then deny EPERM
                   else if te_check e k h i arg0 arg1 arg2 \<noteq> 0 then deny (te_check e k h i arg0 arg1 arg2)
                   else (case te_run e k h i arg0 arg1 arg2 of
                           None \<Rightarrow> None
                         | Some (k1, rc) \<Rightarrow>
                             let k2 = (if unlogged tool arg0 rc then k1 else tool_audit_log k1 i tool rc);
                                 k3 = (if unmetered tool arg0 then k2
                                       else k2\<lparr>kquota := quota_tool_charge (kquota k2) (Some (agent_at k2 i))\<rparr>)
                             in Some (k3, rc))))"

definition agent_tool :: "kernel \<Rightarrow> nat \<Rightarrow> int \<Rightarrow> u64 \<Rightarrow> u64 \<Rightarrow> u64 \<Rightarrow> tool_result" where
  "agent_tool k h tool arg0 arg1 arg2 =
     (case cur_idx k h of
        None \<Rightarrow> Some (k, EPERM)
      | Some i \<Rightarrow>
          (case tool_dispatch (agent_set_phase k h AGENT_PHASE_TOOL) h i tool arg0 arg1 arg2 of
             None \<Rightarrow> None
           | Some (k1, rc) \<Rightarrow> Some (agent_set_phase k1 h AGENT_PHASE_IDLE, rc)))"

end
