(* ===== verification/Kframe.thy ===== *)
theory Kframe
  imports Tool
begin

text \<open>
  What no tool changes: which agent runs on which hart, the shape of the tables, the tool counters of the quota, and of every agent
  its number, its capabilities, its saved registers and its page table.  The tool gateway charges a call to the
  agent that made it, and no tool gives an agent a capability, because of this.
\<close>

definition ident :: "agent \<Rightarrow> int \<times> u32 \<times> trapframe option \<times> u64" where
  "ident a = (aid a, caps a, atf a, pagetable a)"

definition keeps :: "kernel \<Rightarrow> kernel \<Rightarrow> bool" where
  "keeps k k' \<longleftrightarrow> map ident (agents k') = map ident (agents k) \<and> cpu_current k' = cpu_current k \<and>
     length (cpu_rq k') = length (cpu_rq k) \<and> length (cpu_satp k') = length (cpu_satp k) \<and>
     quota_tool_count (kquota k') = quota_tool_count (kquota k)"

named_theorems keeps_intros \<open>operations that keep the frame\<close>

lemma keeps_refl [simp]: "keeps k k"
  by (simp add: keeps_def)

lemma keeps_trans [trans]: "keeps k k1 \<Longrightarrow> keeps k1 k2 \<Longrightarrow> keeps k k2"
  by (simp add: keeps_def)

lemma keeps_fields [simp]:
  "keeps k (k'\<lparr>kvm := x1\<rparr>) = keeps k k'" "keeps k (k'\<lparr>kfs := x2\<rparr>) = keeps k k'" "keeps k (k'\<lparr>kpol := x3\<rparr>) = keeps k k'"
  "keeps k (k'\<lparr>uart_out := x4\<rparr>) = keeps k k'" "keeps k (k'\<lparr>uart_in := x5\<rparr>) = keeps k k'"
  "keeps k (k'\<lparr>kbuf_oob := x6\<rparr>) = keeps k k'" "keeps k (k'\<lparr>kworld := x7\<rparr>) = keeps k k'"
  "keeps k (k'\<lparr>remote_enabled := x8\<rparr>) = keeps k k'" "keeps k (k'\<lparr>llm_stream_buf := x9\<rparr>) = keeps k k'"
  "keeps k (k'\<lparr>kdisk := x10\<rparr>) = keeps k k'"
  by (simp_all add: keeps_def)

lemma keeps_fields_left [simp]:
  "keeps (k\<lparr>kfs := x1\<rparr>) k' = keeps k k'" "keeps (k\<lparr>kbuf_oob := x2\<rparr>) k' = keeps k k'" "keeps (k\<lparr>kworld := x3\<rparr>) k' = keeps k k'"
  "keeps (k\<lparr>uart_in := x4\<rparr>) k' = keeps k k'" "keeps (k\<lparr>uart_out := x5\<rparr>) k' = keeps k k'"
  by (simp_all add: keeps_def)

lemma keeps_ident: "keeps k k' \<Longrightarrow> i < length (agents k) \<Longrightarrow> ident (agent_at k' i) = ident (agent_at k i)"
  unfolding keeps_def agent_at_def by (metis length_map nth_map)

lemma keeps_length: "keeps k k' \<Longrightarrow> length (agents k') = length (agents k)"
  unfolding keeps_def by (metis length_map)

lemma keeps_aid: "keeps k k' \<Longrightarrow> i < length (agents k) \<Longrightarrow> aid (agent_at k' i) = aid (agent_at k i)"
  using keeps_ident [of k k' i] by (simp add: ident_def)

lemma keeps_wf: "keeps k k' \<Longrightarrow> kernel_wf k \<Longrightarrow> kernel_wf k'"
proof -
  assume a: "keeps k k'" "kernel_wf k"
  have "aid (agents k' ! i) = int i" if "i < 12" for i
    using keeps_aid [OF a(1), of i] that a(2) by (simp add: kernel_wf_def agent_at_def)
  then show ?thesis using a keeps_length [OF a(1)] by (simp add: keeps_def kernel_wf_def)
qed

lemma keeps_cur: "keeps k k' \<Longrightarrow> cur_idx k' h = cur_idx k h"
  by (simp add: keeps_def cur_idx_def)

lemma keeps_upd [keeps_intros]: "(\<And>a. ident (f a) = ident a) \<Longrightarrow> keeps k (upd_agent k i f)"
  by (cases "i < length (agents k)") (auto simp: keeps_def agents_upd map_update list_update_same_conv list_update_beyond)

lemma keeps_set_phase [keeps_intros]: "keeps k (agent_set_phase k h p)"
  by (auto simp: agent_set_phase_def split: option.splits intro!: keeps_upd simp: ident_def)

lemma keeps_kalloc: "kalloc_k k n = (k', p) \<Longrightarrow> keeps k k'"
  unfolding kalloc_k_def by (auto split: prod.splits)

lemma keeps_to_user: "to_user k h p b = (k', c) \<Longrightarrow> keeps k k'"
  by (auto simp: to_user_def split: prod.splits)

lemma keeps_rq_add: "keeps k (sched_rq_add k i)"
  by (auto simp: sched_rq_add_def keeps_def Let_def)

lemma keeps_notify [keeps_intros]: "keeps k (sched_notify_runnable k i)"
  using keeps_trans [OF keeps_upd keeps_rq_add] by (auto simp: sched_notify_runnable_def ident_def)

lemma keeps_charge [simp]: "quota_tool_count (quota_ipc_charge q a) = quota_tool_count q"
  by (simp add: quota_ipc_charge_def split: option.splits)

lemma keeps_quota [simp]: "quota_tool_count q = quota_tool_count (kquota k') \<Longrightarrow> keeps k (k'\<lparr>kquota := q\<rparr>) = keeps k k'"
  by (simp add: keeps_def)

lemma keeps_push_notify:
  "(\<And>a. ident (f a) = ident a) \<Longrightarrow> keeps k (sched_notify_runnable (upd_agent k t f) i)"
  using keeps_trans [OF keeps_upd keeps_notify] by blast

lemma keeps_send_nocheck: "agent_send_kernel_nocheck k from d m text = (k', rc) \<Longrightarrow> keeps k k'"
  by (auto simp: agent_send_kernel_nocheck_def Let_def ident_def split: option.splits if_splits prod.splits
      intro!: keeps_upd keeps_push_notify)

lemma keeps_send_kernel: "agent_send_kernel k from d m text = (k', rc) \<Longrightarrow> keeps k k'"
  by (auto simp: agent_send_kernel_def Let_def split: if_splits prod.splits
      dest!: keeps_send_nocheck intro: keeps_trans)

lemma keeps_burn_loop: "burn_loop k i n = (k', rc) \<Longrightarrow> keeps k k'"
  by (induction n arbitrary: k)
    (auto split: if_splits prod.splits dest!: keeps_send_kernel intro: keeps_trans)

lemma keeps_write_loop: "keeps k (fst (agent_write_loop k h b i n))"
proof (induction k h b i n rule: agent_write_loop.induct)
  case (1 k h b i n)
  show ?case
  proof (cases "i < n")
    case True
    obtain rc bs where f: "from_user k h (b + of_int i) (of_int (if n - i > 128 then 128 else n - i)) = (rc, bs)" by fastforce
    show ?thesis
      using True 1 [OF True refl f [symmetric]] f
      by (subst agent_write_loop.simps) (auto simp: Let_def keeps_def)
  next
    case False
    then show ?thesis by (subst agent_write_loop.simps) simp
  qed
qed

lemma keeps_agent_write [keeps_intros]: "keeps k (fst (agent_write k h b n))"
  using keeps_write_loop by (simp add: agent_write_def)

section \<open>Model queries\<close>

lemma keeps_stream_push: "keeps k k' \<Longrightarrow> keeps k (llm_stream_push c k')"
  by (simp add: llm_stream_push_def)

lemma keeps_fold:
  assumes "\<And>x k'. keeps k k' \<Longrightarrow> keeps k (f x k')"
  shows "keeps k k0 \<Longrightarrow> keeps k (fold f xs k0)"
  using assms by (induction xs arbitrary: k0) simp_all

lemma keeps_part: "keeps k (sv_part k h va cs)"
  by (simp add: sv_part_def Let_def)

lemma keeps_put: "sv_put k h va cs = Some k' \<Longrightarrow> keeps k k'"
  by (auto simp: sv_put_def split: option.splits)

lemma keeps_faux_stream: "keeps k (faux_stream h a k)"
proof -
  have "keeps k (llm_stream_push [c] (if P then fst (agent_write k1 h x 1) else k1))" if "keeps k k1" for c P k1 x
    using that keeps_trans [OF that keeps_agent_write] by (auto intro: keeps_stream_push)
  then show ?thesis unfolding faux_stream_def Let_def by (intro keeps_fold keeps_refl)
qed

lemma keeps_faux: "llm_faux k h p b n = Some (k', rc) \<Longrightarrow> keeps k k'"
  by (auto simp: llm_faux_def Let_def split: option.splits if_splits dest!: keeps_put intro: keeps_trans [OF keeps_faux_stream])

lemma keeps_delta: "keeps k k' \<Longrightarrow> keeps k (llm_delta_write h c k')"
  unfolding llm_delta_write_def Let_def
  using keeps_trans [of k k', OF _ keeps_agent_write] by (auto intro: keeps_stream_push)

lemma keeps_transport: "llm_transport k h b ans = Some (k', rc) \<Longrightarrow> keeps k k'"
  using keeps_fold [of k "llm_delta_write h" "k\<lparr>kworld := w_step (kworld k)\<rparr>"] keeps_delta [of k]
  by (auto simp: llm_transport_def Let_def split: option.splits prod.splits dest!: keeps_put intro: keeps_trans)

lemma keeps_query_any: "llm_query_any k h p b n = Some (k', rc) \<Longrightarrow> keeps k k'"
  by (auto simp: llm_query_any_def Let_def split: option.splits llm_build.splits if_splits prod.splits
      dest!: keeps_transport keeps_faux intro: keeps_trans)

lemma keeps_llm: "agent_llm_query k h p b n = Some (k', rc) \<Longrightarrow> keeps k k'"
proof -
  have f: "keeps k (llm_session_finish k1 h)" if "keeps k k1" for k1 using that by (simp add: llm_session_finish_def Let_def)
  have r: "keeps k (agent_set_phase (llm_session_reset k) h ph)" for ph
    using keeps_trans [OF _ keeps_set_phase, of k "llm_session_reset k"] by (simp add: llm_session_reset_def)
  show "agent_llm_query k h p b n = Some (k', rc) \<Longrightarrow> keeps k k'"
    by (auto simp: agent_llm_query_def Let_def split: option.splits if_splits
        dest!: keeps_query_any intro!: keeps_trans [OF _ keeps_set_phase] f intro: keeps_trans [OF r])
qed

section \<open>Packages\<close>

lemma keeps_ota_parse: "ota_parse_package k p = Some (k', r) \<Longrightarrow> keeps k k'"
  by (auto simp: ota_parse_package_def Let_def split: if_splits prod.splits option.splits dest: keeps_kalloc)

lemma keeps_ota_verify: "ota_verify_package_kpath k p = Some (k', r) \<Longrightarrow> keeps k k'"
  by (auto simp: ota_verify_package_kpath_def split: option.splits sum.splits dest: keeps_ota_parse)

lemma keeps_ota_apply: "ota_apply_package_kpath k h p = Some (k', r) \<Longrightarrow> keeps k k'"
  by (auto simp: ota_apply_package_kpath_def Let_def split: if_splits prod.splits option.splits sum.splits dest: keeps_ota_parse)

lemma keeps_run_ota: "run_ota k h x y z = Some (k', rc) \<Longrightarrow> keeps k k'"
  by (auto simp: run_ota_def ota_apply_package_def ota_verify_package_def ota_channel_get_def ota_channel_set_def Let_def
      split: if_splits prod.splits option.splits sum.splits dest: keeps_ota_verify keeps_ota_apply keeps_put)

lemma keeps_put_record: "put_record k f l = (k', rc) \<Longrightarrow> keeps k k'"
  by (auto simp: put_record_def split: prod.splits)

lemma keeps_backup: "catalog_backup k n p = (k', rc) \<Longrightarrow> keeps k k'"
  by (auto simp: catalog_backup_def catalog_set_rollback_def Let_def split: if_splits prod.splits option.splits
      dest!: keeps_put_record)

lemma keeps_install: "install_named k h n = Some (k', rc) \<Longrightarrow> keeps k k'"
  by (auto simp: install_named_def catalog_set_active_def split: if_splits prod.splits option.splits sum.splits
      dest!: keeps_ota_verify keeps_backup keeps_ota_apply keeps_put_record intro: keeps_trans)

lemma keeps_rollback: "rollback_named k n = (k', rc) \<Longrightarrow> keeps k k'"
  by (auto simp: rollback_named_def catalog_set_active_def Let_def split: if_splits prod.splits option.splits sum.splits
      dest!: keeps_put_record)

lemma keeps_run_catalog: "run_catalog k h x y = Some (k', rc) \<Longrightarrow> keeps k k'"
  by (auto simp: run_catalog_def catalog_install_def catalog_rollback_def Let_def
      split: if_splits sum.splits dest: keeps_install keeps_rollback)

section \<open>All tools\<close>

lemma keeps_run_read: "run_read k h x y z = Some (k', rc) \<Longrightarrow> keeps k k'"
  by (auto simp: run_read_def Let_def split: if_splits prod.splits sum.splits dest!: keeps_kalloc keeps_to_user intro: keeps_trans)

lemma keeps_run_write: "run_write k h i x y z = Some (k', rc) \<Longrightarrow> keeps k k'"
  by (auto simp: run_write_def Let_def split: if_splits prod.splits sum.splits dest!: keeps_kalloc)

lemma keeps_getline: "getline_loop k b n = Some (k', r) \<Longrightarrow> keeps k k'"
proof (induction "uart_in k" arbitrary: k b)
  case Nil
  then show ?case by (subst (asm) getline_step) (auto split: if_splits)
next
  case (Cons c cs)
  note IH = Cons.hyps(1) and u = Cons.hyps(2) [symmetric]
  have k: "k' = k \<or> k' = uart_putc (k\<lparr>uart_in := cs\<rparr>) NEWLINE \<or> (\<exists>b1. getline_loop (k\<lparr>uart_in := cs\<rparr>) b1 n = Some (k', r)) \<or>
      (\<exists>b1 o1. getline_loop (k\<lparr>uart_in := cs, uart_out := o1\<rparr>) b1 n = Some (k', r))"
    using Cons.prems u by (subst (asm) getline_step) (auto simp: uart_putc_def split: if_splits)
  show ?case
    using k IH [of "k\<lparr>uart_in := cs\<rparr>"] IH [of "k\<lparr>uart_in := cs, uart_out := o1\<rparr>" for o1]
    by (auto simp: uart_putc_def)
qed

lemma session_compact_ident: "session_compact fs (Some a) n = (fs', a', rc) \<Longrightarrow> ident (the a') = ident a"
  by (auto simp: ident_def session_compact_def Let_def split: if_splits prod.splits)

lemma keeps_session_compact: "run_session_compact k i x = Some (k', rc) \<Longrightarrow> keeps k k'"
proof -
  assume r: "run_session_compact k i x = Some (k', rc)"
  obtain fs a c where s: "session_compact (kfs k) (Some (agent_at k i)) (as_int x) = (fs, a, c)" by (metis prod_cases3)
  have "ident (the a) = ident (agents k ! i)" using session_compact_ident [OF s] by (simp add: agent_at_def)
  then have "map ident ((agents k)[i := the a]) = map ident (agents k)"
    by (cases "i < length (agents k)") (auto simp: map_update list_update_same_conv list_update_beyond)
  with r s show ?thesis by (auto simp: run_session_compact_def keeps_def agents_upd)
qed

lemma keeps_run_time: "run_time k h x = Some (k', rc) \<Longrightarrow> keeps k k'"
  by (auto simp: run_time_def Let_def split: if_splits prod.splits dest!: keeps_to_user)

lemma keeps_run_http: "run_http k h x y z = Some (k', rc) \<Longrightarrow> keeps k k'"
  by (auto simp: run_http_def Let_def split: if_splits prod.splits option.splits sum.splits dest!: keeps_to_user)

lemma keeps_run_console: "run_console k h x y z = Some (k', rc) \<Longrightarrow> keeps k k'"
  by (auto simp: run_console_def uart_getline_def uart_poll_char_def Let_def
      split: if_splits prod.splits option.splits sum.splits list.splits dest!: keeps_to_user keeps_getline intro: keeps_trans)

lemma keeps_run_quota: "run_quota k h i x y = Some (k', rc) \<Longrightarrow> keeps k k'"
  by (auto simp: run_quota_def quota_burn_ipc_def quota_notify_def Let_def split: if_splits sum.splits
      dest!: keeps_burn_loop keeps_send_nocheck)

lemma keeps_run_fleet: "run_fleet k h i x y = Some (k', rc) \<Longrightarrow> keeps k k'"
  by (auto simp: run_fleet_def fleet_push_def fleet_ingest_def fleet_ingest_net_def Let_def
      split: if_splits sum.splits option.splits prod.splits)

lemma keeps_run_session:
  "run_session_append k h i x = Some (k', rc) \<Longrightarrow> keeps k k'" "run_session_tail k h i x y = Some (k', rc) \<Longrightarrow> keeps k k'"
  "run_session_read k h i x y z = Some (k', rc) \<Longrightarrow> keeps k k'"
  by (auto simp: run_session_append_def run_session_tail_def run_session_read_def Let_def
      split: if_splits sum.splits prod.splits dest!: keeps_to_user)

lemma keeps_run_policy: "run_policy k h x y z = Some (k', rc) \<Longrightarrow> keeps k k'"
  by (auto simp: run_policy_def pol_result_def Let_def split: if_splits sum.splits)

lemma keeps_run_remote: "run_remote k x = Some (k', rc) \<Longrightarrow> keeps k k'"
  by (auto simp: run_remote_def remote_enable_def remote_disable_def remote_connect_def Let_def
      split: if_splits sum.splits prod.splits)

lemma keeps_run_small:
  "run_log k = Some (k', rc) \<Longrightarrow> keeps k k'" "run_add k x y = Some (k', rc) \<Longrightarrow> keeps k k'"
  "run_gpio k x = Some (k', rc) \<Longrightarrow> keeps k k'" "run_smp k h x y = Some (k', rc) \<Longrightarrow> keeps k k'"
  "run_display k h x y = Some (k', rc) \<Longrightarrow> keeps k k'" "run_input k x = Some (k', rc) \<Longrightarrow> keeps k k'"
  "run_audit k i x y = Some (k', rc) \<Longrightarrow> keeps k k'" "run_namespace k h i x y = Some (k', rc) \<Longrightarrow> keeps k k'"
  "run_mesh k h x y = Some (k', rc) \<Longrightarrow> keeps k k'" "run_tenant k i x y = Some (k', rc) \<Longrightarrow> keeps k k'"
  by (auto simp: run_log_def run_add_def run_gpio_def run_smp_def run_display_def run_input_def run_audit_def run_namespace_def
      run_mesh_def run_tenant_def uart_poll_char_def Let_def split: if_splits prod.splits sum.splits list.splits)

lemmas keeps_runs = keeps_run_read keeps_run_write keeps_llm keeps_session_compact keeps_run_time keeps_run_http keeps_run_console
  keeps_run_quota keeps_run_fleet keeps_run_session keeps_run_policy keeps_run_remote keeps_run_small keeps_run_ota keeps_run_catalog

lemma keeps_tool_run:
  assumes "e \<in> set tool_table" "te_run e k h i x y z = Some (k', rc)"
  shows "keeps k k'"
  using assms by (auto simp: tool_table_def run_llm_def dest!: keeps_runs)

lemma tool_lookup_in: "tool_lookup tool = Some e \<Longrightarrow> e \<in> set tool_table \<and> te_tool e = tool"
  by (auto simp: tool_lookup_def find_Some_iff)

lemma keeps_audit_log: "keeps k (tool_audit_log k i tool rc)"
  by (auto simp: tool_audit_log_def Let_def split: option.splits prod.splits)

end
