(* ===== verification/Gateway.thy ===== *)
theory Gateway
  imports Kframe
begin

text \<open>
  Properties of the tool gateway (\<open>tool_dispatch\<close> of \<open>kernel/tool.c\<close>): a call that is refused has no effect but a line in the
  caller's audit log, the audit log consists of one line for each call and never grows beyond its quota, an
  agent gets at most 128 metered calls, and a file write stays in the files of the caller.
\<close>

section \<open>Admission\<close>

definition admitted :: "kernel \<Rightarrow> nat \<Rightarrow> nat \<Rightarrow> int \<Rightarrow> u64 \<Rightarrow> u64 \<Rightarrow> u64 \<Rightarrow> bool" where
  "admitted k h i tool arg0 arg1 arg2 \<longleftrightarrow> tool_gate k i tool arg0 = 0 \<and>
     (\<exists>e. tool_lookup tool = Some e \<and> agent_has_cap (Some (agent_at k i)) (te_cap e) \<and> te_check e k h i arg0 arg1 arg2 = 0)"

lemma dispatch_refused:
  assumes "\<not> admitted k h i tool x y z"
  obtains rc where "tool_dispatch k h i tool x y z = Some (tool_audit_log k i tool rc, rc)" "rc \<noteq> 0"
proof (cases "tool_gate k i tool x = 0")
  case False
  then show thesis using that [of "tool_gate k i tool x"] by (simp add: tool_dispatch_def Let_def)
next
  case gate: True
  show thesis
  proof (cases "tool_lookup tool")
    case None
    then show thesis using that [of EINVAL] gate by (simp add: tool_dispatch_def Let_def)
  next
    case (Some e)
    show thesis
    proof (cases "agent_has_cap (Some (agent_at k i)) (te_cap e)")
      case True
      with assms gate Some have "te_check e k h i x y z \<noteq> 0" by (auto simp: admitted_def)
      then show thesis using that [of "te_check e k h i x y z"] gate Some True by (simp add: tool_dispatch_def Let_def)
    next
      case False
      then show thesis using that [of EPERM] gate Some by (simp add: tool_dispatch_def Let_def)
    qed
  qed
qed

lemma dispatch_admitted:
  assumes "admitted k h i tool x y z" "tool_dispatch k h i tool x y z = Some (k', rc)"
  obtains e k1 where "tool_lookup tool = Some e" "agent_has_cap (Some (agent_at k i)) (te_cap e)"
    "te_check e k h i x y z = 0" "te_run e k h i x y z = Some (k1, rc)"
    "k' = (let k2 = (if unlogged tool x rc then k1 else tool_audit_log k1 i tool rc)
           in if unmetered tool x then k2 else k2\<lparr>kquota := quota_tool_charge (kquota k2) (Some (agent_at k2 i))\<rparr>)"
proof -
  from assms(1) obtain e where e: "tool_gate k i tool x = 0" "tool_lookup tool = Some e"
      "agent_has_cap (Some (agent_at k i)) (te_cap e)" "te_check e k h i x y z = 0"
    by (auto simp: admitted_def)
  moreover with assms(2) obtain k1 where "te_run e k h i x y z = Some (k1, rc)"
      "k' = (let k2 = (if unlogged tool x rc then k1 else tool_audit_log k1 i tool rc)
           in if unmetered tool x then k2 else k2\<lparr>kquota := quota_tool_charge (kquota k2) (Some (agent_at k2 i))\<rparr>)"
    by (auto simp: tool_dispatch_def Let_def split: option.splits prod.splits)
  ultimately show thesis using that by blast
qed

section \<open>The budget\<close>

lemma dispatch_counts:
  assumes "kernel_wf k" "length (quota_tool_count (kquota k)) = 12" "i < 12" "tool_dispatch k h i tool x y z = Some (k', rc)"
  defines "n \<equiv> quota_tool_count (kquota k)"
  shows "kernel_wf k'" "quota_tool_count (kquota k') =
      (if admitted k h i tool x y z \<and> \<not> unmetered tool x then n[i := n ! i + 1] else n)"
    "admitted k h i tool x y z \<Longrightarrow> \<not> unmetered tool x \<Longrightarrow> n ! i < 128"
proof -
  have ai: "aid (agent_at k i) = int i" using assms(1,3) by (simp add: kernel_wf_def agent_at_def)
  have q: "quota_index (Some (agent_at k i)) = Some i" using ai assms(3) by (simp add: quota_index_def)
  show "n ! i < 128" if "admitted k h i tool x y z" "\<not> unmetered tool x"
    using that q by (auto simp: admitted_def tool_gate_def Let_def quota_tool_allow_def quota_tool_used_def quota_tool_max_def n_def
        split: if_splits)
  have "kernel_wf k' \<and> quota_tool_count (kquota k') =
      (if admitted k h i tool x y z \<and> \<not> unmetered tool x then n[i := n ! i + 1] else n)"
  proof (cases "admitted k h i tool x y z")
    case False
    from dispatch_refused [OF False] assms(4) obtain rc' where "k' = tool_audit_log k i tool rc'" by fastforce
    with False keeps_audit_log [of k i tool rc'] keeps_wf [OF keeps_audit_log assms(1), of i tool rc'] show ?thesis
      by (simp add: keeps_def n_def)
  next
    case True
    from dispatch_admitted [OF True assms(4)] obtain e k1 where r: "tool_lookup tool = Some e" "te_run e k h i x y z = Some (k1, rc)"
      "k' = (let k2 = (if unlogged tool x rc then k1 else tool_audit_log k1 i tool rc)
           in if unmetered tool x then k2 else k2\<lparr>kquota := quota_tool_charge (kquota k2) (Some (agent_at k2 i))\<rparr>)" by blast
    define k2 where "k2 = (if unlogged tool x rc then k1 else tool_audit_log k1 i tool rc)"
    have kp: "keeps k k2"
      using keeps_tool_run [OF conjunct1 [OF tool_lookup_in [OF r(1)]] r(2)] keeps_trans [OF _ keeps_audit_log] by (auto simp: k2_def)
    have wf: "kernel_wf k2" using keeps_wf [OF kp assms(1)] .
    have "aid (agent_at k2 i) = int i" using wf assms(3) by (simp add: kernel_wf_def agent_at_def)
    then have "quota_index (Some (agent_at k2 i)) = Some i" using assms(3) by (simp add: quota_index_def)
    moreover have "quota_tool_count (kquota k2) = n" using kp by (simp add: keeps_def n_def)
    moreover have "k' = (if unmetered tool x then k2 else k2\<lparr>kquota := quota_tool_charge (kquota k2) (Some (agent_at k2 i))\<rparr>)"
      using r(3) by (simp add: k2_def Let_def)
    ultimately show ?thesis using True wf by (simp add: quota_tool_charge_def)
  qed
  then show "kernel_wf k'" "quota_tool_count (kquota k') =
      (if admitted k h i tool x y z \<and> \<not> unmetered tool x then n[i := n ! i + 1] else n)" by simp_all
qed

text \<open>A refused call has a negative result.\<close>

lemma check_not_positive:
  assumes "e \<in> set tool_table"
  shows "te_check e k h i x y z \<le> 0"
proof -
  have "agent_dir_ok a p \<le> 0" "storage_path_ok p w \<le> 0" for a p w
    by (simp_all add: agent_dir_ok_def storage_path_ok_def split: prod.splits)
  then have "fs_read_rule a p \<le> 0" "fs_write_rule a p \<le> 0" for a p by (simp_all add: fs_read_rule_def fs_write_rule_def)
  then have "policy_fs_read k h a x \<le> 0" "policy_fs_write k h a x \<le> 0" for a
    by (simp_all add: policy_fs_read_def policy_fs_write_def split: sum.splits)
  with assms show ?thesis
    by (auto simp: tool_table_def no_check_def policy_add_def policy_llm_def policy_session_def policy_gpio_def policy_http_def)
qed

lemma refused_negative:
  assumes "\<not> admitted k h i tool x y z" "tool_dispatch k h i tool x y z = Some (k', rc)"
  shows "rc < 0 \<and> k' = tool_audit_log k i tool rc"
proof -
  have "tool_gate k i tool x \<le> 0"
    by (simp add: tool_gate_def Let_def quota_tool_allow_def policy_tool_allow_def)
  moreover have "te_check e k h i x y z \<le> 0" if "tool_lookup tool = Some e" for e
    using check_not_positive tool_lookup_in [OF that] by blast
  ultimately show ?thesis
    using assms by (fastforce simp: tool_dispatch_def admitted_def Let_def split: option.splits if_splits)
qed

record tool_call =
  tc_hart :: nat
  tc_agent :: nat
  tc_tool :: int
  tc_arg0 :: u64
  tc_arg1 :: u64
  tc_arg2 :: u64

text \<open>A call is served when it succeeds or does anything but write a refusal to the audit log; \<open>served\<close> is the number of metered calls of an
  agent that are served in a sequence of calls of all agents.\<close>

definition does_work :: "kernel \<Rightarrow> tool_call \<Rightarrow> kernel \<Rightarrow> int \<Rightarrow> bool" where
  "does_work k c k' rc \<longleftrightarrow> 0 \<le> rc \<or> k' \<noteq> tool_audit_log k (tc_agent c) (tc_tool c) rc"

fun served :: "nat \<Rightarrow> kernel \<Rightarrow> tool_call list \<Rightarrow> nat" where
  "served i k [] = 0"
| "served i k (c # cs) =
     (case tool_dispatch k (tc_hart c) (tc_agent c) (tc_tool c) (tc_arg0 c) (tc_arg1 c) (tc_arg2 c) of
        None \<Rightarrow> 0
      | Some (k', rc) \<Rightarrow>
          (if tc_agent c = i \<and> \<not> unmetered (tc_tool c) (tc_arg0 c) \<and> does_work k c k' rc then 1 else 0) + served i k' cs)"

text \<open>C30: No agent gets more than its 128 metered tool calls, whatever the agents call in whatever order: the number of such calls
  of an agent that succeed or change anything besides the line in its audit log is at most what its quota has left.\<close>

theorem tool_budget:
  assumes "kernel_wf k" "quota_inv (kquota k)" "i < 12" "\<forall>c \<in> set cs. tc_agent c < 12"
  shows "int (served i k cs) \<le> 128 - quota_tool_count (kquota k) ! i"
proof -
  have "length (quota_tool_count (kquota k)) = 12" "quota_tool_count (kquota k) ! i \<le> 128"
    using assms(2,3) by (auto simp: quota_inv_def)
  with assms(1,4) show ?thesis
  proof (induction cs arbitrary: k)
    case Nil
    then show ?case by simp
  next
    case (Cons c cs)
    let ?n = "quota_tool_count (kquota k)"
    show ?case
    proof (cases "tool_dispatch k (tc_hart c) (tc_agent c) (tc_tool c) (tc_arg0 c) (tc_arg1 c) (tc_arg2 c)")
      case None
      with Cons.prems show ?thesis by simp
    next
      case (Some r)
      then obtain k' rc where r: "tool_dispatch k (tc_hart c) (tc_agent c) (tc_tool c) (tc_arg0 c) (tc_arg1 c) (tc_arg2 c) = Some (k', rc)"
        by (cases r) simp
      have a: "tc_agent c < 12" using Cons.prems(2) by simp
      note D = dispatch_counts [OF Cons.prems(1,3) a r]
      define run where "run \<longleftrightarrow> admitted k (tc_hart c) (tc_agent c) (tc_tool c) (tc_arg0 c) (tc_arg1 c) (tc_arg2 c) \<and>
        \<not> unmetered (tc_tool c) (tc_arg0 c)"
      have n': "quota_tool_count (kquota k') ! i = ?n ! i + (if tc_agent c = i \<and> run then 1 else 0)"
        "length (quota_tool_count (kquota k')) = 12"
        unfolding D(2) run_def using Cons.prems(3) assms(3) by (cases "tc_agent c = i"; simp)+
      have "quota_tool_count (kquota k') ! i \<le> 128" using n'(1) D(3) Cons.prems(4) by (auto simp: run_def split: if_splits)
      then have "int (served i k' cs) \<le> 128 - quota_tool_count (kquota k') ! i"
        using Cons.IH [OF D(1) _ n'(2)] Cons.prems(2) by simp
      moreover have "does_work k c k' rc \<Longrightarrow> admitted k (tc_hart c) (tc_agent c) (tc_tool c) (tc_arg0 c) (tc_arg1 c) (tc_arg2 c)"
        using refused_negative [OF _ r] by (fastforce simp: does_work_def)
      then have "served i k (c # cs) \<le> (if tc_agent c = i \<and> run then 1 else 0) + served i k' cs"
        using r by (auto simp: run_def)
      ultimately show ?thesis using n'(1) by (cases "tc_agent c = i \<and> run") (simp_all del: served.simps)
    qed
  qed
qed

section \<open>Refused calls\<close>

lemma append_int_fits:
  assumes "length buf + 11 < cap"
  shows "\<exists>ds. append_int buf cap v = Some (buf @ ds) \<and> 1 \<le> length ds \<and> length ds \<le> 11 \<and> NEWLINE \<notin> set ds"
proof -
  define n where "n = uint32 (if v < 0 then - v else v)"
  have n: "0 \<le> n" "n < 10 ^ 10" by (auto simp: n_def uint32_def intro: less_trans [OF pos_mod_bound])
  have l: "length (dec_str n) \<le> 10" "1 \<le> length (dec_str n)"
    using length_dec_str [OF n] dec_str_nonempty [OF n(1)] by (simp_all add: Suc_leI)
  have "\<not> is_digit NEWLINE" by (simp add: is_digit_def)
  then have "NEWLINE \<notin> set (dec_str n)" using dec_str_digits by blast
  moreover have "append_int buf cap v = Some (buf @ (if v < 0 then ''-'' else []) @ dec_str n)"
    unfolding append_int_def n_def [symmetric] using l(1) assms by (simp add: Let_def) linarith
  ultimately show ?thesis using l by (cases "v < 0") simp_all
qed

lemma audit_line_some:
  obtains l where "audit_line tool rc = Some (l @ [NEWLINE])" "11 \<le> length l" "length l \<le> 31" "NEWLINE \<notin> set l"
proof -
  obtain d1 where 1: "append_int ''tool='' 32 tool = Some (''tool='' @ d1)" "1 \<le> length d1" "length d1 \<le> 11" "NEWLINE \<notin> set d1"
    using append_int_fits [of "''tool=''" 32 tool] by auto
  obtain d2 where 2: "append_int (''tool='' @ d1 @ '' rc='') 32 rc = Some (''tool='' @ d1 @ '' rc='' @ d2)"
      "1 \<le> length d2" "length d2 \<le> 11" "NEWLINE \<notin> set d2"
    using append_int_fits [of "''tool='' @ d1 @ '' rc=''" 32 rc] 1(3) by auto
  show thesis
    using that [of "''tool='' @ d1 @ '' rc='' @ d2"] 1 2 by (simp add: audit_line_def)
qed

text \<open>The audit log of an agent as the gateway leaves it: complete lines of 10 to 31 characters, within the quota.\<close>

definition audit_lines_ok :: "string list \<Rightarrow> bool" where
  "audit_lines_ok ls \<longleftrightarrow> (\<forall>l \<in> set ls. NEWLINE \<notin> set l \<and> 10 \<le> length l \<and> length l \<le> 31) \<and> length (log_text ls) \<le> 512"

definition audit_logged :: "ramfs \<Rightarrow> agent \<Rightarrow> string list \<Rightarrow> bool" where
  "audit_logged fs a ls \<longleftrightarrow> audit_lines_ok ls \<and>
     fs_map fs (audit_path_for (aid a)) = (if ls = [] then None else Some (log_text ls))"

lemma log_text_bounds:
  assumes "\<forall>l \<in> set ls. 10 \<le> length l \<and> length l \<le> 31"
  shows "11 * length ls \<le> length (log_text ls)" "length (log_text ls) \<le> 32 * length ls"
  using assms by (induction ls) auto

lemma audit_write_line:
  assumes "ramfs_inv fs" "agent_id_ok a" "audit_logged fs a ls" "has_room fs (audit_path_for (aid a))"
    "NEWLINE \<notin> set l" "10 \<le> length l" "length l \<le> 31" "length (log_text ls) + Suc (length l) \<le> 512"
    "audit_write fs (Some a) (l @ [NEWLINE]) (int (Suc (length l))) = (fs', rc)"
  shows "rc = 0" "ramfs_inv fs'" "audit_logged fs' a (ls @ [l])"
    "\<And>q. q \<noteq> audit_path_for (aid a) \<Longrightarrow> fs_map fs' q = fs_map fs q"
proof -
  have log: "audit_log fs a = log_text ls" using assms(3) by (auto simp: audit_logged_def audit_log_def)
  have "audit_usage fs (Some a) = int (length (log_text ls))"
    using assms(3) by (cases ls) (auto simp: audit_usage_map [OF assms(1)] audit_logged_def)
  then have u: "audit_usage fs (Some a) + int (Suc (length l)) \<le> 512" using assms(8) by simp
  from audit_write_ok [OF assms(1,2,4) _ _ u, of "l @ [NEWLINE]"] assms(9) log
  have r: "rc = 0" "ramfs_inv fs'" "fs_map fs' = (fs_map fs)(audit_path_for (aid a) \<mapsto> log_text ls @ l @ [NEWLINE])" by simp_all
  then show "rc = 0" "ramfs_inv fs'" "\<And>q. q \<noteq> audit_path_for (aid a) \<Longrightarrow> fs_map fs' q = fs_map fs q" by simp_all
  show "audit_logged fs' a (ls @ [l])" using assms(3,5-8) r(3) by (auto simp: audit_logged_def audit_lines_ok_def)
qed

lemma tool_audit_log_line:
  assumes "ramfs_inv (kfs k)" "agent_id_ok (agent_at k i)" "audit_logged (kfs k) (agent_at k i) ls"
    "has_room (kfs k) (audit_path_for (aid (agent_at k i)))" "k' = tool_audit_log k i tool rc"
  shows "\<exists>l. audit_line tool rc = Some (l @ [NEWLINE]) \<and> ramfs_inv (kfs k') \<and> k' = k\<lparr>kfs := kfs k'\<rparr> \<and>
    (audit_logged (kfs k') (agent_at k i) (ls @ [l]) \<or> audit_logged (kfs k') (agent_at k i) (compacted 8 ls @ [l])) \<and>
    (\<forall>q. q \<noteq> audit_path_for (aid (agent_at k i)) \<longrightarrow> fs_map (kfs k') q = fs_map (kfs k) q)"
proof -
  define a where "a = agent_at k i"
  obtain l where l: "audit_line tool rc = Some (l @ [NEWLINE])" "11 \<le> length l" "length l \<le> 31" "NEWLINE \<notin> set l"
    by (rule audit_line_some)
  have l10: "10 \<le> length l" using l(2) by simp
  note A = assms(1-4) [folded a_def]
  obtain fs1 wrc where w: "audit_write (kfs k) (Some a) (l @ [NEWLINE]) (int (Suc (length l))) = (fs1, wrc)" by fastforce
  show ?thesis
  proof (cases "length (log_text ls) + Suc (length l) \<le> 512")
    case True
    note W = audit_write_line [OF A l(4) l10 l(3) True w]
    have "k' = k\<lparr>kfs := fs1\<rparr>" using assms(5) l(1) w W(1) by (simp add: tool_audit_log_def a_def)
    with W l(1) show ?thesis by (auto simp: a_def)
  next
    case False
    have lb: "\<forall>l \<in> set ls. 10 \<le> length l \<and> length l \<le> 31" "\<forall>l \<in> set ls. NEWLINE \<notin> set l" "length (log_text ls) \<le> 512"
      using A(3) by (auto simp: audit_logged_def audit_lines_ok_def)
    have n: "8 < length ls" "length ls \<le> 255" using log_text_bounds [OF lb(1)] False l(3) lb(3) by linarith+
    then have ne: "ls \<noteq> []" by auto
    then have c: "fs_map (kfs k) (audit_path_for (aid a)) = Some (log_text ls)" using A(3) by (simp add: audit_logged_def)
    have "audit_usage (kfs k) (Some a) = int (length (log_text ls))" using c ne by (cases ls) (auto simp: audit_usage_map [OF A(1)])
    then have rf: "audit_write (kfs k) (Some a) (l @ [NEWLINE]) (int (Suc (length l))) = (kfs k, ENOSPC)"
      using False by (intro audit_write_refused) simp_all
    obtain fs2 c2 where cp: "audit_compact (kfs k) (Some a) 8 = (fs2, c2)" by fastforce
    define ms where "ms = compacted 8 ls"
    have f2: "ramfs_inv fs2" "fs_map fs2 = (fs_map (kfs k))(audit_path_for (aid a) \<mapsto> log_text ms)"
      using audit_compact_ok [OF A(1,2) c lb(2) ne n(2), of 8] lb(3) cp by (simp_all add: ms_def)
    have ms: "ms = compact_header 8 # drop (length ls - 8) ls" using n(1) by (simp add: ms_def compacted_def)
    have h: "compact_header 8 = ''compact: 8''" by (simp add: compact_header_def dec_str_two_digits)
    have mb: "\<forall>l \<in> set ms. NEWLINE \<notin> set l \<and> 10 \<le> length l \<and> length l \<le> 31" using lb(1,2) by (auto simp: ms h dest!: in_set_dropD)
    then have "\<forall>l \<in> set ms. 10 \<le> length l \<and> length l \<le> 31" by blast
    then have len: "length (log_text ms) \<le> 32 * length ms" by (rule log_text_bounds(2))
    have "length ms = 9" using n(1) by (simp add: ms)
    with len mb f2(2) have al: "audit_logged fs2 a ms" "length (log_text ms) + Suc (length l) \<le> 512"
      using l(3) by (auto simp: audit_logged_def audit_lines_ok_def ms)
    obtain fs3 r3 where w3: "audit_write fs2 (Some a) (l @ [NEWLINE]) (int (Suc (length l))) = (fs3, r3)" by fastforce
    have room: "has_room fs2 (audit_path_for (aid a))" using existing_room [OF f2(1)] f2(2) by simp
    note W = audit_write_line [OF f2(1) A(2) al(1) room l(4) l10 l(3) al(2) w3]
    have "k' = k\<lparr>kfs := fs3\<rparr>"
      using assms(5) l(1) rf cp w3 by (simp add: tool_audit_log_def a_def)
    with W l(1) f2(2) show ?thesis by (auto simp: a_def ms_def)
  qed
qed

text \<open>C29: A call the gateway refuses - the quota is used up, the tool is not in the table or on the deny list, the agent lacks the
  capability, or the arguments are bad - returns an error code and changes nothing but the audit log of the caller.  The log gains
  one line that names the tool and the code; when the line does not fit the quota the log is first compacted to its last eight lines.\<close>

theorem tool_refused_only_logged:
  assumes "\<not> admitted k h i tool x y z" "ramfs_inv (kfs k)" "agent_id_ok (agent_at k i)"
    and "audit_logged (kfs k) (agent_at k i) ls" "has_room (kfs k) (audit_path_for (aid (agent_at k i)))"
  shows "\<exists>k' rc l ls'. tool_dispatch k h i tool x y z = Some (k', rc) \<and> rc \<noteq> 0 \<and> k' = k\<lparr>kfs := kfs k'\<rparr> \<and>
    (\<forall>q. q \<noteq> audit_path_for (aid (agent_at k i)) \<longrightarrow> fs_map (kfs k') q = fs_map (kfs k) q) \<and>
    audit_line tool rc = Some (l @ [NEWLINE]) \<and> (ls' = ls \<or> ls' = compacted 8 ls) \<and>
    audit_logged (kfs k') (agent_at k i) (ls' @ [l])"
proof -
  from dispatch_refused [OF assms(1)] obtain rc where
    "tool_dispatch k h i tool x y z = Some (tool_audit_log k i tool rc, rc)" "rc \<noteq> 0" by blast
  with tool_audit_log_line [OF assms(2-5) refl, of tool rc] show ?thesis by metis
qed

section \<open>Writing files\<close>

text \<open>An agent without the storage capability may write only under its own directories, and never an audit log.\<close>

lemma write_rule_exclusive:
  assumes "fs_write_rule a p = 0" "\<not> agent_has_cap (Some a) CAP_SVC_STORAGE" "fs_write_rule b p = 0" "\<not> agent_has_cap (Some b) CAP_SVC_STORAGE"
  shows "aid a = aid b"
  using assms by (auto simp: fs_write_rule_def namespace_path_ok_def agent_dir_ok_def Let_def split: if_splits prod.splits)

lemma audit_path_not_writable: "fs_write_rule a (audit_path_for n) = EPERM"
  by (simp add: fs_write_rule_def is_audit_path_def audit_path_for_def)

lemma audit_write_frame:
  assumes "ramfs_inv fs" "agent_id_ok a" "d \<noteq> []" "audit_write fs (Some a) d (int (length d)) = (fs', rc)"
  shows "ramfs_inv fs' \<and> (\<forall>q. q \<noteq> audit_path_for (aid a) \<longrightarrow> fs_map fs' q = fs_map fs q)"
proof (cases "audit_usage fs (Some a) + int (length d) \<le> 512")
  case True
  have "fs' = fst (ramfs_put fs (audit_path_for (aid a)) (audit_log fs a @ d) (int (length (audit_log fs a)) + int (length d)))"
    using audit_write_put [OF assms(1) _ True, of d] assms(3,4) by (metis fst_conv length_greater_0_conv nat_int of_nat_0_less_iff order_refl take_all)
  then show ?thesis using assms(1,2) by (simp only:) (intro rfs.put_frame, simp_all add: agent_id_ok_def audit_path_fits nat_add_distrib)
next
  case False
  with assms(1,3,4) show ?thesis using audit_write_refused [of "int (length d)" fs a d] by simp
qed

lemma audit_compact_frame:
  assumes "ramfs_inv fs" "agent_id_ok a"
  shows "ramfs_inv (fst (audit_compact fs (Some a) 8)) \<and>
    (\<forall>q. q \<noteq> audit_path_for (aid a) \<longrightarrow> fs_map (fst (audit_compact fs (Some a) 8)) q = fs_map fs q)"
proof -
  have f: "ramfs_inv (fst (ramfs_put fs (audit_path_for (aid a)) out n))"
    "q \<noteq> audit_path_for (aid a) \<Longrightarrow> fs_map (fst (ramfs_put fs (audit_path_for (aid a)) out n)) q = fs_map fs q"
    if "nat n \<le> length out" for out n q
    using assms that rfs.put_frame [of fs "audit_path_for (aid a)" n out] by (simp_all add: agent_id_ok_def audit_path_fits)
  show ?thesis
    by (cases "fst (ramfs_read fs (audit_path_for (aid a)) 0 8192) \<le> 0";
        cases "length (audit_line_starts (snd (ramfs_read fs (audit_path_for (aid a)) 0 8192))) \<le> 8")
      (simp_all add: audit_compact_def Let_def case_prod_beta assms(1) f nat_add_distrib)
qed

lemma tool_audit_log_frame:
  assumes "ramfs_inv (kfs k)" "agent_id_ok (agent_at k i)"
  shows "ramfs_inv (kfs (tool_audit_log k i tool rc)) \<and>
    (\<forall>q. q \<noteq> audit_path_for (aid (agent_at k i)) \<longrightarrow> fs_map (kfs (tool_audit_log k i tool rc)) q = fs_map (kfs k) q)"
proof -
  obtain l where l: "audit_line tool rc = Some (l @ [NEWLINE])" by (rule audit_line_some)
  define a d where "a = agent_at k i" and "d = l @ [NEWLINE]"
  note W = audit_write_frame [OF _ assms(2), folded a_def, of _ d]
  obtain fs1 r1 where w1: "audit_write (kfs k) (Some a) d (int (length d)) = (fs1, r1)" by fastforce
  note 1 = W [OF assms(1) _ w1]
  then have 2: "ramfs_inv (fst (audit_compact fs1 (Some a) 8)) \<and>
      (\<forall>q. q \<noteq> audit_path_for (aid a) \<longrightarrow> fs_map (fst (audit_compact fs1 (Some a) 8)) q = fs_map fs1 q)"
    using assms(2) by (intro audit_compact_frame) (simp_all add: a_def d_def)
  obtain fs3 r3 where w3: "audit_write (fst (audit_compact fs1 (Some a) 8)) (Some a) d (int (length d)) = (fs3, r3)" by fastforce
  note 3 = W [OF conjunct1 [OF 2] _ w3]
  have "tool_audit_log k i tool rc = (if r1 = ENOSPC then k\<lparr>kfs := fs3\<rparr> else k\<lparr>kfs := fs1\<rparr>)"
    using l w1 w3 by (simp add: tool_audit_log_def Let_def a_def d_def)
  with 1 2 3 show ?thesis by (simp add: a_def d_def)
qed

lemma ramfs_write_frame:
  assumes "ramfs_inv fs" "path_fits p" "n < 2147483648" "nat n \<le> length d"
  shows "ramfs_inv (fst (ramfs_write fs p 0 d n)) \<and> (\<forall>q. q \<noteq> p \<longrightarrow> fs_map (fst (ramfs_write fs p 0 d n)) q = fs_map fs q)"
proof -
  consider "n \<le> 0" | "0 < n" "\<not> has_room fs p" | "0 < n" "has_room fs p" "n < 8192" | "has_room fs p" "8192 \<le> n" by linarith
  then show ?thesis
    using assms ramfs_write_einval ramfs_write_full ramfs_write_ok [of fs p n d] ramfs_write_too_long [of fs p n d] by cases simp_all
qed

lemma short_path_determined:
  assumes "read_path_from_user k h x [] = Inr path" "length path < 64"
  shows "read_path_from_user k h x junk = Inr path"
proof -
  from assms(1) obtain bs where b: "fetch_bytes k h x PATH_BUF EFAULT (Some EINVAL) = Inr bs" "path = cstr (bs @ [])"
    by (auto simp: read_path_from_user_def fetch_str_def split: sum.splits)
  note f = fetch_str_bytes [OF b(1)]
  have "NUL \<in> set bs" using f(1) [of "[]"] f(2) b(2) assms(2) by (auto split: if_splits)
  then have "cstr (bs @ junk) = path" using f(1) [of junk] f(1) [of "[]"] b(2) by simp
  then show ?thesis using b(1) by (simp add: read_path_from_user_def fetch_str_def)
qed

lemma run_write_frame:
  assumes "read_path_from_user k h x (junk_run k) = Inr path" "length path < 64" "ramfs_inv (kfs k)" "run_write k h i x y z = Some (k1, rc)"
  shows "ramfs_inv (kfs k1) \<and> (\<forall>q. q \<noteq> path \<longrightarrow> fs_map (kfs k1) q = fs_map (kfs k) q)"
proof -
  define len where "len = as_int z"
  obtain k0 p where kp: "(if len > IO_BUF then kalloc_k k (of_int len) else (k, 1)) = (k0, p)" by fastforce
  have k0: "kfs k0 = kfs k" using kp by (auto simp: kalloc_k_def split: prod.splits if_splits)
  have w: "ramfs_inv (fst (ramfs_write (kfs k) path 0 bs len)) \<and> (\<forall>q. q \<noteq> path \<longrightarrow> fs_map (fst (ramfs_write (kfs k) path 0 bs len)) q = fs_map (kfs k) q)"
    if "len \<le> IO_MAX" "nat len \<le> length bs" for bs
    using ramfs_write_frame [OF assms(3), of path len bs] that assms(2) by (simp add: path_fits_def)
  show ?thesis
  proof (cases "len \<le> 0 \<or> len > IO_MAX \<or> p = 0")
    case True
    with assms(1,3,4) k0 show ?thesis
      by (cases "len \<le> 0 \<or> len > IO_MAX") (simp_all add: run_write_def Let_def len_def [symmetric] kp split del: if_split)
  next
    case False
    obtain c bs where u: "from_user k0 h y (of_int len) = (c, bs)" by fastforce
    have r: "Some (k1, rc) = (if c < 0 then Some (k0, EFAULT)
        else let q = quota_fs_allow_new (kfs k0) (Some (agent_at k0 i)) path
             in if q \<noteq> 0 then Some (k0, q) else (case ramfs_write (kfs k0) path 0 bs len of (fs, rc) \<Rightarrow> Some (k0\<lparr>kfs := fs\<rparr>, rc)))"
      using False assms(1,4) u by (simp add: run_write_def Let_def len_def [symmetric] kp split del: if_split)
    have "\<not> c < 0 \<Longrightarrow> nat len \<le> length bs"
      using copy_from_user_cases [OF u [unfolded from_user_def]] False word64_of_int [of len] by auto
    with r w [of bs] assms(3) k0 False show ?thesis by (auto simp: Let_def split: if_splits prod.splits)
  qed
qed

text \<open>C28: The write tool keeps to the files of the caller.  When an agent without the storage capability names a path of at most 63
  characters, every file other than its own audit log and the named path keeps its content; the named path changes only when
  \<open>fs_write_rule\<close> lets the agent write it, and a path that another agent without that capability may write, or
  the audit log of any other agent, is never changed.\<close>

theorem tool_write_confined:
  assumes "kernel_wf k" "ramfs_inv (kfs k)" "i < 12" "\<not> agent_has_cap (Some (agent_at k i)) CAP_SVC_STORAGE"
    and "read_path_from_user k h x [] = Inr path" "length path < 64" "tool_dispatch k h i TOOL_WRITE x y z = Some (k', rc)"
  shows "ramfs_inv (kfs k') \<and> (\<forall>q. fs_map (kfs k') q \<noteq> fs_map (kfs k) q \<longrightarrow>
    (q = audit_path_for (int i) \<or> q = path \<and> fs_write_rule (agent_at k i) path = 0) \<and>
    (\<forall>j < 12. j \<noteq> i \<longrightarrow> q \<noteq> audit_path_for (int j) \<and>
       (agent_has_cap (Some (agent_at k j)) CAP_SVC_STORAGE \<or> fs_write_rule (agent_at k j) q \<noteq> 0)))"
proof -
  have ai: "aid (agent_at k j) = int j" if "j < 12" for j using assms(1) that by (simp add: kernel_wf_def agent_at_def)
  have ok: "agent_id_ok (agent_at k i)" using ai [OF assms(3)] assms(3) by (simp add: agent_id_ok_def)
  have M: "ramfs_inv (kfs k') \<and> (\<forall>q. fs_map (kfs k') q \<noteq> fs_map (kfs k) q \<longrightarrow>
    q = audit_path_for (int i) \<or> q = path \<and> fs_write_rule (agent_at k i) path = 0)"
  proof (cases "admitted k h i TOOL_WRITE x y z")
    case False
    from dispatch_refused [OF False] assms(7) obtain rc' where "k' = tool_audit_log k i TOOL_WRITE rc'" by fastforce
    with tool_audit_log_frame [OF assms(2) ok, of TOOL_WRITE rc'] ai [OF assms(3)] show ?thesis by auto
  next
    case True
    from dispatch_admitted [OF True assms(7)] obtain e k1 where r: "tool_lookup TOOL_WRITE = Some e" "te_check e k h i x y z = 0"
      "te_run e k h i x y z = Some (k1, rc)"
      "k' = (let k2 = (if unlogged TOOL_WRITE x rc then k1 else tool_audit_log k1 i TOOL_WRITE rc)
           in if unmetered TOOL_WRITE x then k2 else k2\<lparr>kquota := quota_tool_charge (kquota k2) (Some (agent_at k2 i))\<rparr>)" by blast
    have e: "te_check e k h i x y z = policy_fs_write k h (agent_at k i) x" "te_run e k h i x y z = run_write k h i x y z"
      using r(1) by (auto simp: tool_lookup_def tool_table_def)
    have rule: "fs_write_rule (agent_at k i) path = 0"
      using r(2) short_path_determined [OF assms(5,6)] by (simp add: e(1) policy_fs_write_def)
    have 1: "ramfs_inv (kfs k1) \<and> (\<forall>q. q \<noteq> path \<longrightarrow> fs_map (kfs k1) q = fs_map (kfs k) q)"
      using run_write_frame [OF short_path_determined [OF assms(5,6)] assms(6,2)] r(3) e(2) by metis
    have "keeps k k1" using keeps_tool_run [OF conjunct1 [OF tool_lookup_in [OF r(1)]] r(3)] .
    then have "aid (agent_at k1 i) = int i" using keeps_aid [of k k1 i] ai [OF assms(3)] assms(1,3) by (simp add: kernel_wf_def)
    moreover have "agent_id_ok (agent_at k1 i)" using calculation assms(3) by (simp add: agent_id_ok_def)
    ultimately have 2: "ramfs_inv (kfs (tool_audit_log k1 i TOOL_WRITE rc)) \<and>
      (\<forall>q. q \<noteq> audit_path_for (int i) \<longrightarrow> fs_map (kfs (tool_audit_log k1 i TOOL_WRITE rc)) q = fs_map (kfs k1) q)"
      using tool_audit_log_frame [OF conjunct1 [OF 1], of i TOOL_WRITE rc] by simp
    have "kfs k' = kfs k1 \<or> kfs k' = kfs (tool_audit_log k1 i TOOL_WRITE rc)" using r(4) by (simp add: Let_def)
    with 1 2 rule show ?thesis by metis
  qed
  have A: "audit_path_for (int i) \<noteq> audit_path_for (int j)" if "j < 12" "j \<noteq> i" for j
    using that assms(3) dec_str_inject [of "int i" "int j"] by (auto simp: audit_path_for_def)
  have W: "fs_write_rule (agent_at k j) path \<noteq> 0"
    if "j < 12" "j \<noteq> i" "fs_write_rule (agent_at k i) path = 0" "\<not> agent_has_cap (Some (agent_at k j)) CAP_SVC_STORAGE" for j
    using write_rule_exclusive [OF that(3) assms(4) _ that(4)] ai [OF that(1)] ai [OF assms(3)] that(2) by auto
  have P: "path \<noteq> audit_path_for (int j)" if "fs_write_rule (agent_at k i) path = 0" for j
    using that audit_path_not_writable [of "agent_at k i" "int j"] by auto
  have N: "fs_write_rule (agent_at k j) (audit_path_for (int i)) \<noteq> 0" for j
    using audit_path_not_writable [of "agent_at k j" "int i"] by simp
  show ?thesis
    using M by (intro conjI allI impI) (use A W P N in metis)+
qed

section \<open>A kernel with a file path in user memory\<close>

text \<open>Agent 1 runs on hart 0 and has the path of one of its files in memory.\<close>

definition file_vm :: vm where
  "file_vm = talk_vm\<lparr>phys := (\<lambda>x. if 0x80700000 \<le> x \<and> x < 0x8070000a then ''/agent/1/w'' ! unat (x - 0x80700000) else NUL)\<rparr>"

definition file_kernel :: kernel where
  "file_kernel = upd_agent (talk_kernel\<lparr>kvm := file_vm\<rparr>) 1 (\<lambda>a. a\<lparr>caps := CAP_FS\<rparr>)"

lemma file_kernel_simps:
  "kernel_wf file_kernel" "ramfs_inv (kfs file_kernel)" "fs_map (kfs file_kernel) = Map.empty" "has_room (kfs file_kernel) p"
  "aid (agent_at file_kernel 1) = 1" "caps (agent_at file_kernel 1) = CAP_FS" "kquota file_kernel = quota_init"
  "kpol file_kernel = open_policy" "junk_run file_kernel = []"
proof -
  show "kernel_wf file_kernel"
    unfolding file_kernel_def using talk_kernel_wf by (intro kernel_wf_upd) (simp_all add: kernel_wf_def)
  show "ramfs_inv (kfs file_kernel)" "fs_map (kfs file_kernel) = Map.empty" "has_room (kfs file_kernel) p"
    "kquota file_kernel = quota_init" "kpol file_kernel = open_policy" "junk_run file_kernel = []"
    by (simp_all add: file_kernel_def talk_kernel_def demo_kernel_def)
  show "aid (agent_at file_kernel 1) = 1" "caps (agent_at file_kernel 1) = CAP_FS"
    using talk_kernel_wf talk_kernel_current by (simp_all add: file_kernel_def kernel_wf_def)
qed

lemma file_kernel_path: "read_path_from_user file_kernel 0 0x60000000 [] = Inr ''/agent/1/w''"
proof -
  define a where "a = (agent_at talk_kernel 1)\<lparr>caps := CAP_FS\<rparr>"
  have c: "agent_current file_kernel 0 = Some a" and v: "kvm file_kernel = file_vm"
    using talk_kernel_wf talk_kernel_current by (auto simp: file_kernel_def agent_current_def cur_idx_def a_def kernel_wf_def)
  have p: "pagetable a = pagetable ro_agent" using talk_kernel_current by (simp add: a_def ro_agent_def)
  have "user_strnlen file_vm (Some ro_agent) 0x60000000 63 = 10"
    "copy_from_user file_vm (Some ro_agent) 0x60000000 11 = (11, ''/agent/1/w'' @ [NUL])"
    by code_simp+
  then show ?thesis
    by (simp add: read_path_from_user_def fetch_str_def fetch_bytes_def user_text_def from_user_def c v user_strnlen_agent [OF p]
        copy_from_user_agent [OF p] Let_def cstr_def)
qed

theorem tool_budget_witness:
  "let c = \<lparr>tc_hart = 0, tc_agent = 1, tc_tool = TOOL_WRITE, tc_arg0 = 0x60000000, tc_arg1 = 0x60000000, tc_arg2 = 4\<rparr>;
       k = file_kernel\<lparr>kquota := quota_init\<lparr>quota_tool_count := (quota_tool_count quota_init)[1 := 128]\<rparr>\<rparr>
   in served 1 k [c, c] = 0"
proof -
  define c where "c = \<lparr>tc_hart = 0, tc_agent = 1, tc_tool = TOOL_WRITE, tc_arg0 = 0x60000000, tc_arg1 = 0x60000000, tc_arg2 = 4\<rparr>"
  define q where "q = quota_init\<lparr>quota_tool_count := (quota_tool_count quota_init)[1 := 128]\<rparr>"
  have "kernel_wf (file_kernel\<lparr>kquota := q\<rparr>)" using file_kernel_simps(1) by (simp add: kernel_wf_def)
  moreover have "quota_inv q" "quota_tool_count q ! 1 = 128" by (auto simp: quota_inv_def quota_init_def q_def dest!: set_mp [OF set_update_subset_insert])
  ultimately have "int (served 1 (file_kernel\<lparr>kquota := q\<rparr>) [c, c]) \<le> 0"
    using tool_budget [of "file_kernel\<lparr>kquota := q\<rparr>" 1 "[c, c]"] by (simp del: served.simps add: c_def)
  then show ?thesis unfolding Let_def c_def [symmetric] q_def [symmetric] by (simp only: of_nat_le_0_iff)
qed

theorem tool_refused_only_logged_witness:
  "\<exists>k' rc l. tool_dispatch file_kernel 0 1 99 0 0 0 = Some (k', rc) \<and> rc \<noteq> 0 \<and> fs_map (kfs k') = [''/audit/agent/1/tool.log'' \<mapsto> l @ [NEWLINE]]"
proof -
  have n: "\<not> admitted file_kernel 0 1 99 0 0 0" by (simp add: admitted_def tool_lookup_def tool_table_def)
  have g: "audit_logged (kfs file_kernel) (agent_at file_kernel 1) []"
    by (simp add: audit_logged_def audit_lines_ok_def file_kernel_simps)
  have i: "agent_id_ok (agent_at file_kernel 1)" using file_kernel_simps(5) by (simp add: agent_id_ok_def)
  have d: "audit_path_for (aid (agent_at file_kernel 1)) = ''/audit/agent/1/tool.log''" unfolding file_kernel_simps(5) by code_simp
  from tool_refused_only_logged [OF n file_kernel_simps(2) i g file_kernel_simps(4)] obtain k' rc l where
    k: "tool_dispatch file_kernel 0 1 99 0 0 0 = Some (k', rc)" "rc \<noteq> 0"
    "\<forall>q. q \<noteq> ''/audit/agent/1/tool.log'' \<longrightarrow> fs_map (kfs k') q = fs_map (kfs file_kernel) q"
    "audit_logged (kfs k') (agent_at file_kernel 1) [l]" unfolding d by (auto simp: compacted_def)
  then have "fs_map (kfs k') = [''/audit/agent/1/tool.log'' \<mapsto> l @ [NEWLINE]]"
    using d [simplified] by (auto simp: fun_eq_iff audit_logged_def file_kernel_simps(3))
  with k show ?thesis by blast
qed

lemma write_returns: "tool_dispatch k h i TOOL_WRITE x y z \<noteq> None"
proof (cases "admitted k h i TOOL_WRITE x y z")
  case True
  have "run_write k h i x y z \<noteq> None" by (auto simp: run_write_def Let_def split: sum.splits prod.splits)
  moreover have "te_run e = (\<lambda>k h i x y z. run_write k h i x y z)" if "tool_lookup TOOL_WRITE = Some e" for e
    using that by (auto simp: tool_lookup_def tool_table_def)
  ultimately show ?thesis by (auto simp: tool_dispatch_def Let_def split: option.splits)
next
  case False
  then show ?thesis by (metis dispatch_refused option.distinct(1))
qed

theorem tool_write_confined_witness:
  "\<exists>k' rc. tool_dispatch file_kernel 0 1 TOOL_WRITE 0x60000000 0x60000000 4 = Some (k', rc) \<and>
     fs_map (kfs k') ''/agent/2/w'' = None \<and> fs_map (kfs k') ''/audit/agent/2/tool.log'' = None"
proof -
  obtain k' rc where d: "tool_dispatch file_kernel 0 1 TOOL_WRITE 0x60000000 0x60000000 4 = Some (k', rc)"
    using write_returns [of file_kernel 0 1 "0x60000000" "0x60000000" 4] by auto
  have "dec_str 1 = ''1''" by code_simp
  then show ?thesis
    using d tool_write_confined [OF file_kernel_simps(1,2) _ _ file_kernel_path _ d] file_kernel_simps(3,6)
    by (auto simp: agent_has_cap_def audit_path_for_def)
qed

end
