(* ===== verification/Elfload.thy ===== *)
theory Elfload
  imports Kframe Agent_Msg
begin

text \<open>
  The program loader (\<open>kernel/elfload.c\<close>): a file of the in-memory file system that holds a RISC-V ELF image is mapped, segment by
  segment, into the address space of a new agent.  The image is a string; an access outside it, which the source makes when the
  sums of offsets it tests wrap at 64 bits, yields \<open>None\<close>.

  The properties: after a segment is mapped, the agent reads the bytes of the file at the addresses of the segment and zeros around
  them, with the permissions the program header asks for, and no other page of the agent changes; mapping a
  segment ends; and the range tests of the source do not keep the loader inside the image.
\<close>

section \<open>Definitions\<close>

unbundle bit_operations_syntax

abbreviation (input) ELF_MAGIC :: u64 where "ELF_MAGIC \<equiv> 0x464c457f"

abbreviation (input) ELF_EHDR_SIZE :: nat where "ELF_EHDR_SIZE \<equiv> 64"

abbreviation (input) ELF_PHDR_SIZE :: u64 where "ELF_PHDR_SIZE \<equiv> 56"

abbreviation (input) AGENT_ELF_MAX :: int where "AGENT_ELF_MAX \<equiv> 8192"

fun le_val :: "string \<Rightarrow> u64" where
  "le_val [] = 0"
| "le_val (c # cs) = of_char c + 256 * le_val cs"

definition le_at :: "string \<Rightarrow> nat \<Rightarrow> nat \<Rightarrow> u64" where
  "le_at s off n = le_val (take n (drop off s))"

record elf64_ehdr =
  e_ident :: string
  e_machine :: u64
  e_entry :: u64
  e_phoff :: u64
  e_phentsize :: u64
  e_phnum :: u64

definition dec_ehdr :: "string \<Rightarrow> elf64_ehdr" where
  "dec_ehdr s = \<lparr>e_ident = take 16 s, e_machine = le_at s 18 2, e_entry = le_at s 24 8, e_phoff = le_at s 32 8,
     e_phentsize = le_at s 54 2, e_phnum = le_at s 56 2\<rparr>"

record elf64_phdr =
  p_type :: u64
  p_flags :: u64
  p_offset :: u64
  p_vaddr :: u64
  p_filesz :: u64
  p_memsz :: u64

definition dec_phdr :: "string \<Rightarrow> elf64_phdr" where
  "dec_phdr s = \<lparr>p_type = le_at s 0 4, p_flags = le_at s 4 4, p_offset = le_at s 8 8, p_vaddr = le_at s 16 8,
     p_filesz = le_at s 32 8, p_memsz = le_at s 40 8\<rparr>"

text \<open>The bytes \<open>elf[off], elf[off + 1], ...\<close> of the image, when all of them are inside it.\<close>

definition elf_bytes :: "string \<Rightarrow> u64 \<Rightarrow> nat \<Rightarrow> string option" where
  "elf_bytes elf off n =
     (if list_all (\<lambda>i. unat (off + of_nat i) < length elf) [0..<n]
      then Some (map (\<lambda>i. elf ! unat (off + of_nat i)) [0..<n]) else None)"

definition ramfs_file_size :: "ramfs \<Rightarrow> string \<Rightarrow> int" where
  "ramfs_file_size fs path =
     (let n = fst (ramfs_read fs path 0 1)
      in if n < 0 then n else size_loop (\<lambda>off. fst (ramfs_read fs path (of_nat off) 1)) 1)"

definition elf_perm :: "u64 \<Rightarrow> u64" where
  "elf_perm flags = PTE_U OR PTE_R OR (if flags AND 2 \<noteq> 0 then PTE_W else 0) OR (if flags AND 1 \<noteq> 0 then PTE_X else 0)"

definition fill_page :: "vm \<Rightarrow> u64 \<Rightarrow> u64 \<Rightarrow> string \<Rightarrow> vm" where
  "fill_page vm page page_off bs =
     vm\<lparr>phys := (\<lambda>x. if x - page < PAGE_SIZE
        then (if page_off \<le> x - page \<and> unat (x - page - page_off) < length bs then bs ! unat (x - page - page_off) else NUL)
        else phys vm x)\<rparr>"

definition elf_page :: "string \<Rightarrow> u64 \<Rightarrow> u64 \<Rightarrow> u64 \<Rightarrow> u64 \<Rightarrow> u64 \<Rightarrow> string option" where
  "elf_page elf src vaddr filesz va page_off =
     (let foff = va + page_off - vaddr
      in if foff < filesz
         then elf_bytes elf (src + foff)
                (unat (let remain = filesz - foff in if PAGE_SIZE - page_off > remain then remain else PAGE_SIZE - page_off))
         else Some [])"

partial_function (option) elf_map_loop ::
  "vm \<Rightarrow> u64 \<Rightarrow> string \<Rightarrow> u64 \<Rightarrow> u64 \<Rightarrow> u64 \<Rightarrow> u64 \<Rightarrow> u64 \<Rightarrow> u64 \<Rightarrow> (vm \<times> int) option" where
  "elf_map_loop vm pt elf src vaddr filesz perm lim va =
     (if va < lim then
        (case kalloc_page (kheap vm) of (m, page) \<Rightarrow>
           if page = 0 then Some (vm\<lparr>kheap := m\<rparr>, ENOSPC)
           else (case elf_page elf src vaddr filesz va (if vaddr > va then vaddr - va else 0) of
                   None \<Rightarrow> None
                 | Some bs \<Rightarrow>
                     (case vm_map_user_page (fill_page (vm\<lparr>kheap := m\<rparr>) page (if vaddr > va then vaddr - va else 0) bs)
                             pt va page perm of (vm1, rc) \<Rightarrow>
                        if rc \<noteq> 0 then Some (vm1, ENOSPC)
                        else elf_map_loop vm1 pt elf src vaddr filesz perm lim (va + PAGE_SIZE))))
      else Some (vm, 0))"

declare elf_map_loop.simps [code]

definition elf_map_segment :: "vm \<Rightarrow> u64 \<Rightarrow> string \<Rightarrow> elf64_phdr \<Rightarrow> (vm \<times> int) option" where
  "elf_map_segment vm pt elf ph =
     (let lim = (p_vaddr ph + p_memsz ph + PAGE_SIZE - 1) AND NOT (PAGE_SIZE - 1)
      in elf_map_loop vm pt elf (p_offset ph) (p_vaddr ph) (p_filesz ph) (elf_perm (p_flags ph)) lim
           (p_vaddr ph AND NOT (PAGE_SIZE - 1)))"

fun elf_load_loop :: "vm \<Rightarrow> u64 \<Rightarrow> string \<Rightarrow> elf64_ehdr \<Rightarrow> nat list \<Rightarrow> (vm \<times> int) option" where
  "elf_load_loop vm pt elf eh [] = Some (vm, 0)"
| "elf_load_loop vm pt elf eh (i # is) =
     (let off = e_phoff eh + of_nat i * e_phentsize eh
      in if off + ELF_PHDR_SIZE > of_nat (length elf) then Some (vm, EINVAL)
         else (case elf_bytes elf off 56 of
                 None \<Rightarrow> None
               | Some bs \<Rightarrow>
                   let ph = dec_phdr bs
                   in if p_type ph \<noteq> 1 then elf_load_loop vm pt elf eh is
                      else if p_offset ph + p_filesz ph > of_nat (length elf) then Some (vm, EINVAL)
                      else (case elf_map_segment vm pt elf ph of
                              None \<Rightarrow> None
                            | Some (vm1, rc) \<Rightarrow> if rc \<noteq> 0 then Some (vm1, ENOSPC) else elf_load_loop vm1 pt elf eh is)))"

definition elf_header_ok :: "string \<Rightarrow> bool" where
  "elf_header_ok elf \<longleftrightarrow>
     (let eh = dec_ehdr elf
      in \<not> (length elf < ELF_EHDR_SIZE) \<and> le_at (e_ident eh) 0 4 = ELF_MAGIC \<and>
         le_at (e_ident eh) 4 1 = 2 \<and> le_at (e_ident eh) 5 1 = 1 \<and> e_machine eh = 243 \<and> e_phentsize eh = ELF_PHDR_SIZE)"

definition elf_load_into_agent :: "vm \<Rightarrow> u64 \<Rightarrow> string \<Rightarrow> (vm \<times> int) option" where
  "elf_load_into_agent vm pt elf =
     (if \<not> elf_header_ok elf then Some (vm, EINVAL)
      else elf_load_loop vm pt elf (dec_ehdr elf) [0..<unat (e_phnum (dec_ehdr elf))])"

definition agent_setup_loaded :: "kernel \<Rightarrow> nat \<Rightarrow> (kernel \<times> int) option" where
  "agent_setup_loaded k i =
     (case kalloc_page_k k of (k1, guard) \<Rightarrow>
        if guard = 0 then Some (k1, ENOSPC)
        else (case kalloc_k k1 AGENT_STACK_SIZE of (k2, stack) \<Rightarrow>
          if stack = 0 then Some (k2, ENOSPC)
          else
            let stack_pa = (stack + PAGE_SIZE - 1) AND NOT (PAGE_SIZE - 1);
                a = agent_at k2 i;
                stack_va = stack_va_of a;
                (vm1, pt) = vm_create_agent_pt (kvm k2);
                k3 = upd_agent (k2\<lparr>kvm := vm1\<rparr>) i (\<lambda>a. a\<lparr>pagetable := pt\<rparr>)
            in if pt = 0 then Some (k3, ENOSPC)
               else (case vm_map_user_stack vm1 pt (aid a) stack_pa AGENT_STACK_SIZE of
                       None \<Rightarrow> None
                     | Some (vm2, rc) \<Rightarrow>
                         if rc \<noteq> 0 then Some (k3\<lparr>kvm := vm2\<rparr>, ENOSPC)
                         else (case kalloc_k (k3\<lparr>kvm := vm2\<rparr>) TRAPFRAME_SIZE of (k4, tf) \<Rightarrow>
                           if tf = 0 then Some (k4, ENOSPC)
                           else Some (upd_agent k4 i (\<lambda>a. a\<lparr>
                                  stack_base := stack_va + AGENT_STACK_SIZE,
                                  atf := Some (agent_arch_init_tf (kgp k4) 0 (stack_va + AGENT_STACK_SIZE - 256) zero_tf),
                                  aentry := 0,
                                  heap_base := USER_HEAP_BASE + of_int (aid a) * AGENT_HEAP_SIZE,
                                  heap_max_pages := 16, heap_mapped := 0\<rparr>), 0)))))"

definition set_entry :: "u64 \<Rightarrow> agent \<Rightarrow> agent" where
  "set_entry entry a = a\<lparr>atf := map_option (\<lambda>tf. tf\<lparr>tf_sepc := entry\<rparr>) (atf a), aentry := entry\<rparr>"

text \<open>The end of \<open>agent_load_from_path\<close>, from the loaded image on.\<close>

definition finish_load :: "kernel \<Rightarrow> nat \<Rightarrow> nat \<Rightarrow> u64 \<Rightarrow> u32 \<Rightarrow> kernel \<times> int" where
  "finish_load k h i name new_caps =
     (let nlen = user_text k h name (int AGENT_NAME_SIZE - 1)
      in if nlen < 0 then (k, EFAULT)
         else if nlen = 0 then (k, EINVAL)
         else (case from_user k h name (of_int nlen + 1) of (rc, kname) \<Rightarrow>
           if rc < 0 then (k, EFAULT)
           else
             let k1 = upd_agent k i (\<lambda>a. a\<lparr>aname := strlcpy_local kname AGENT_NAME_SIZE, caps := new_caps,
                        astate := AGENT_RUNNABLE, aphase := AGENT_PHASE_IDLE, exit_code := 0, inbox := msgbox_init (inbox a)\<rparr>)
             in (sched_notify_runnable (k1\<lparr>agent_count := wrap32 (agent_count k1 + 1)\<rparr>) i, int i)))"

definition load_image :: "kernel \<Rightarrow> nat \<Rightarrow> string \<Rightarrow> u64 \<Rightarrow> u32 \<Rightarrow> (kernel \<times> int) option" where
  "load_image k h elf name new_caps =
     (case agent_alloc_id k of
        None \<Rightarrow> Some (k, ENOSPC)
      | Some i \<Rightarrow>
          (case agent_setup_loaded (upd_agent k i (\<lambda>a. a\<lparr>aid := int i\<rparr>)) i of
             None \<Rightarrow> None
           | Some (k1, rc) \<Rightarrow>
               if rc \<noteq> 0 then Some (k1, rc)
               else (case elf_load_into_agent (kvm k1) (pagetable (agent_at k1 i)) elf of
                       None \<Rightarrow> None
                     | Some (v, rc) \<Rightarrow>
                         if rc \<noteq> 0 then Some (k1\<lparr>kvm := v\<rparr>, rc)
                         else Some (finish_load (upd_agent (k1\<lparr>kvm := v\<rparr>) i (set_entry (e_entry (dec_ehdr elf)))) h i name new_caps))))"

definition agent_load_from_path :: "kernel \<Rightarrow> nat \<Rightarrow> u64 \<Rightarrow> u64 \<Rightarrow> u32 \<Rightarrow> (kernel \<times> int) option" where
  "agent_load_from_path k h path name new_caps =
     (if \<not> agent_has_cap (agent_current k h) CAP_SPAWN then Some (k, EPERM)
      else if path = 0 \<or> name = 0 then Some (k, EINVAL)
      else (case fetch_str k h path 64 EFAULT (Some EFAULT) (junk_run k) of
              Inl e \<Rightarrow> Some (k, e)
            | Inr kpath \<Rightarrow>
                let len = ramfs_file_size (kfs k) kpath
                in if len < 0 then Some (k, len)
                   else if len < 64 \<or> len > AGENT_ELF_MAX then Some (k, EINVAL)
                   else (case kalloc_k k (of_int len) of (k1, p) \<Rightarrow>
                     if p = 0 then Some (k1, ENOSPC)
                     else (case ramfs_read (kfs k1) kpath 0 len of (rc, elf) \<Rightarrow>
                       if rc \<noteq> len then Some (k1, if rc < 0 then rc else EIO)
                       else load_image k1 h elf name new_caps))))"

section \<open>A page of a segment\<close>

text \<open>The byte the image gives an address of a segment.\<close>

definition seg_byte :: "string \<Rightarrow> u64 \<Rightarrow> u64 \<Rightarrow> u64 \<Rightarrow> u64 \<Rightarrow> char" where
  "seg_byte elf src vaddr filesz x =
     (if vaddr \<le> x \<and> x - vaddr < filesz then elf ! unat (src + (x - vaddr)) else NUL)"

lemma elf_bytes_nth:
  assumes "elf_bytes elf off n = Some bs"
  shows "length bs = n" "j < n \<Longrightarrow> bs ! j = elf ! unat (off + of_nat j)"
  using assms by (auto simp: elf_bytes_def split: if_splits)

lemma elf_bytes_some:
  assumes "unat off + n \<le> length elf" "length elf < 18446744073709551616"
  shows "\<exists>bs. elf_bytes elf off n = Some bs"
proof -
  have "unat (off + of_nat i) < length elf" if "i < n" for i
  proof -
    have "unat (of_nat i :: u64) = i" using that assms by (intro unat_of_nat64) simp
    then have "unat (off + of_nat i) = unat off + i" using that assms by (simp add: unat_word_ariths)
    with that assms(1) show ?thesis by simp
  qed
  then show ?thesis by (simp add: elf_bytes_def list_all_iff)
qed

lemma unat_sub64: "y \<le> x \<Longrightarrow> unat (x - y :: u64) = unat x - unat y"
  by (simp add: unat_sub word_le_nat_alt)

lemma unat_add64: "unat x + unat y < 18446744073709551616 \<Longrightarrow> unat (x + y :: u64) = unat x + unat y"
  by (simp add: unat_word_ariths)

definition page_off_of :: "u64 \<Rightarrow> u64 \<Rightarrow> u64" where
  "page_off_of vaddr va = (if vaddr > va then vaddr - va else 0)"

lemma page_start:
  assumes "unat vaddr < unat va + 4096"
  shows "page_off_of vaddr va < 4096" "unat (va + page_off_of vaddr va - vaddr) = unat va - unat vaddr"
    "unat (page_off_of vaddr va) = unat vaddr - unat va"
  using assms unat_sub64 [of vaddr va] unat_sub64 [of va vaddr]
  by (auto simp: page_off_of_def word_less_nat_alt word_le_nat_alt not_less)

lemma elf_page_byte:
  assumes "elf_page elf src vaddr filesz va (page_off_of vaddr va) = Some bs" "unat vaddr < unat va + 4096"
    and "off < 4096" "unat va + unat off < 18446744073709551616"
  shows "(if page_off_of vaddr va \<le> off \<and> unat (off - page_off_of vaddr va) < length bs then bs ! unat (off - page_off_of vaddr va) else NUL) =
    seg_byte elf src vaddr filesz (va + off)"
proof -
  define po f where "po = page_off_of vaddr va" and "f = va + po - vaddr"
  note P = page_start [OF assms(2), folded po_def] and o = unat_add64 [OF assms(4)]
  have f: "unat f = unat va - unat vaddr" using P(2) by (simp add: f_def)
  have le: "po \<le> off \<longleftrightarrow> vaddr \<le> va + off" using P(3) o by (simp add: word_le_nat_alt) linarith
  show ?thesis
  proof (cases "po \<le> off")
    case False
    then show ?thesis using le by (simp add: seg_byte_def po_def)
  next
    case True
    have d: "unat (off - po) = unat off - unat po" using unat_sub64 [OF True] .
    have "vaddr \<le> va + off" using True le by simp
    then have u: "unat (va + off - vaddr) = unat va + unat off - unat vaddr" using o unat_sub64 by simp
    have x: "va + off - vaddr = f + (off - po)" by (simp add: f_def)
    have s: "unat (va + off - vaddr) = unat f + unat (off - po)" using u f d P(3) True unfolding word_le_nat_alt by linarith
    show ?thesis
    proof (cases "f < filesz")
      case False
      then have "bs = []" "\<not> va + off - vaddr < filesz"
        using assms(1) s by (simp_all add: elf_page_def po_def f_def Let_def word_less_nat_alt)
      then show ?thesis by (simp add: seg_byte_def)
    next
      case fl: True
      define n where "n = unat (if PAGE_SIZE - po > filesz - f then filesz - f else PAGE_SIZE - po)"
      have b: "elf_bytes elf (src + f) n = Some bs"
        using assms(1) fl by (simp add: elf_page_def po_def f_def n_def Let_def split: if_splits)
      have po4: "unat (4096 - po :: u64) = 4096 - unat po" using P(1) unat_sub64 [of po 4096] by (simp add: less_imp_le)
      have ff: "unat (filesz - f) = unat filesz - unat f" using fl unat_sub64 [of f filesz] by (simp add: less_imp_le)
      have "unat (off - po) < n \<longleftrightarrow> va + off - vaddr < filesz"
        unfolding n_def using s d po4 ff assms(3) True fl by (auto simp: word_less_nat_alt word_le_nat_alt)
      moreover have "src + f + of_nat (unat (off - po)) = src + (va + off - vaddr)" unfolding x by simp
      then have "bs ! unat (off - po) = elf ! unat (src + (va + off - vaddr))" if "unat (off - po) < n"
        using elf_bytes_nth(2) [OF b that] by (simp only:)
      ultimately show ?thesis
        using elf_bytes_nth(1) [OF b] True \<open>vaddr \<le> va + off\<close> unfolding seg_byte_def po_def [symmetric] by simp
    qed
  qed
qed

lemma elf_page_some:
  assumes "unat src + unat filesz \<le> length elf" "length elf < 18446744073709551616" "unat vaddr < unat va + 4096"
  shows "\<exists>bs. elf_page elf src vaddr filesz va (page_off_of vaddr va) = Some bs"
proof -
  define po f where "po = page_off_of vaddr va" and "f = va + po - vaddr"
  define n where "n = unat (if PAGE_SIZE - po > filesz - f then filesz - f else PAGE_SIZE - po)"
  show ?thesis
  proof (cases "f < filesz")
    case True
    then have ff: "unat (filesz - f) = unat filesz - unat f" "unat f < unat filesz"
      using unat_sub64 [of f filesz] by (simp_all add: less_imp_le word_less_nat_alt)
    then have "unat (src + f) = unat src + unat f" using assms(1,2) by (intro unat_add64) simp
    moreover have "n \<le> unat filesz - unat f" using ff(1) by (simp add: n_def word_less_nat_alt)
    ultimately have "\<exists>bs. elf_bytes elf (src + f) n = Some bs" using ff(2) assms(1,2) by (intro elf_bytes_some) simp_all
    with True show ?thesis by (auto simp: elf_page_def po_def f_def n_def Let_def split: if_splits)
  qed (simp add: elf_page_def po_def f_def Let_def)
qed

section \<open>A segment\<close>

lemma fill_page_fields [simp]:
  "kheap (fill_page vm p o1 bs) = kheap vm" "ptes (fill_page vm p o1 bs) = ptes vm" "pool_ok (fill_page vm p o1 bs) = pool_ok vm"
  "pt_tree (fill_page vm p o1 bs) = pt_tree vm" "leaf (fill_page vm p o1 bs) = leaf vm" "tables (fill_page vm p o1 bs) = tables vm" "kernel_pt (fill_page vm p o1 bs) = kernel_pt vm"
  by (simp_all add: fill_page_def)

lemma fill_page_below:
  assumes "unat y < unat p" "unat p < 4611686018427387904"
  shows "phys (fill_page vm p o1 bs) y = phys vm y"
proof -
  have "\<not> y - p < 4096"
  proof
    assume a: "y - p < 4096"
    have "y = (y - p) + p" by simp
    then have "unat y = unat (y - p) + unat p"
      using a assms(2) unat_add64 [of "y - p" p] by (simp add: word_less_nat_alt)
    with assms(1) show False by simp
  qed
  then show ?thesis by (simp add: fill_page_def)
qed

lemma low_bits: "x < 1024 \<longleftrightarrow> take_bit 10 x = (x :: u64)"
proof -
  have "take_bit 10 x = x \<longleftrightarrow> unat x mod 1024 = unat x" by (simp add: take_bit_eq_mod word_unat_eq_iff unat_mod)
  also have "\<dots> \<longleftrightarrow> unat x < 1024" by (metis mod_less mod_less_divisor zero_less_numeral)
  finally show ?thesis by (simp add: word_less_nat_alt)
qed

text \<open>What mapping pages keeps: the tables stay a tree, existing pages stay mapped, memory below the free part of the heap is not written.\<close>

definition extends :: "u64 \<Rightarrow> vm \<Rightarrow> vm \<Rightarrow> bool" where
  "extends pt vm vm' \<longleftrightarrow> pool_ok vm' \<and> pt_tree vm' pt \<and> kmem_inv (kheap vm') \<and>
     unat (heap_ptr (kheap vm)) \<le> unat (heap_ptr (kheap vm')) \<and> heap_end (kheap vm') = heap_end (kheap vm) \<and>
     (\<forall>y. unat y < unat (heap_ptr (kheap vm)) \<longrightarrow> phys vm' y = phys vm y) \<and>
     (\<forall>x e. leaf vm pt x = Some e \<longrightarrow> leaf vm' pt x = Some e) \<and> tables vm \<subseteq> tables vm' \<and>
     (\<forall>x \<in> tables vm. \<forall>j. pte_valid (ptes vm x j) \<longrightarrow> ptes vm' x j = ptes vm x j)"

lemma extends_trans: "extends pt vm vm1 \<Longrightarrow> extends pt vm1 vm2 \<Longrightarrow> extends pt vm vm2"
  unfolding extends_def by (auto intro: order_trans)

lemma extends_alloc:
  assumes "pool_ok vm" "pt_tree vm pt" "kmem_inv (kheap vm)" "kalloc_page (kheap vm) = (m, p)"
  shows "extends pt vm (vm\<lparr>kheap := m\<rparr>)"
  using kalloc_page_cases [OF assms(3,4)] assms by (auto simp: extends_def)

lemma map_fresh_page:
  assumes "pool_ok vm" "pt_tree vm pt" "kmem_inv (kheap vm)" "kalloc_page (kheap vm) = (m, p)" "p \<noteq> 0" "perm < 1024" "aligned va"
    and "vm_map_user_page (fill_page (vm\<lparr>kheap := m\<rparr>) p o1 bs) pt va p perm = (vm1, rc)"
  shows "extends pt vm vm1" "unat (heap_ptr (kheap vm1)) = unat p + 4096" "rc = 0 \<or> rc = - 1"
    "leaf vm1 pt x \<noteq> leaf vm pt x \<Longrightarrow> page_key x = page_key va"
    "rc = 0 \<Longrightarrow> off < 4096 \<Longrightarrow> unat va + 4096 \<le> 18446744073709551616 \<Longrightarrow>
       leaf vm1 pt (va + off) = Some (push_bit 10 (drop_bit 12 p) OR perm OR PTE_V OR PTE_STD) \<and> user_pa vm1 pt (va + off) = p + off \<and>
       user_byte vm1 pt (va + off) = (if o1 \<le> off \<and> unat (off - o1) < length bs then bs ! unat (off - o1) else NUL)"
proof -
  define vm0 where "vm0 = fill_page (vm\<lparr>kheap := m\<rparr>) p o1 bs"
  have A: "unat (heap_ptr (kheap vm)) \<le> unat p" "unat p + 4096 = unat (heap_ptr m)" "4096 dvd unat p" "kmem_inv m" "heap_end m = heap_end (kheap vm)"
    using kalloc_page_cases [OF assms(3,4)] assms(5) by auto
  have p62: "unat p < 4611686018427387904" using A(2,4) by (simp add: kmem_inv_def)
  note M = vm_map_page_cases [of vm0 pt va p perm vm1 rc]
  have M1: "pool_ok vm1" "pt_tree vm1 pt" "rc = 0 \<or> rc = - 1" "phys vm1 = phys vm0" "kheap vm1 = m" "rc = 0 \<longrightarrow> leaf vm pt va = None"
    and L: "\<And>x. leaf vm1 pt x = (if rc = 0 \<and> page_key x = page_key va then Some (push_bit 10 (drop_bit 12 p) OR perm OR PTE_V OR PTE_STD) else leaf vm pt x)"
    and T: "tables vm \<subseteq> tables vm1" "\<And>x j. x \<in> tables vm \<Longrightarrow> pte_valid (ptes vm x j) \<Longrightarrow> ptes vm1 x j = ptes vm x j"
    using M assms(1,2,8) by (simp_all add: vm0_def vm_map_user_page_def)
  show "rc = 0 \<or> rc = - 1" "unat (heap_ptr (kheap vm1)) = unat p + 4096" using M1 A(2) by simp_all
  show "leaf vm1 pt x \<noteq> leaf vm pt x \<Longrightarrow> page_key x = page_key va" using L [of x] by (simp split: if_splits)
  have keep: "leaf vm1 pt x = Some e" if "leaf vm pt x = Some e" for x e
    using that L [of x] M1(6) leaf_key [of x va vm pt] by auto
  moreover have "phys vm1 y = phys vm y" if "unat y < unat (heap_ptr (kheap vm))" for y
    using that fill_page_below [of y p "vm\<lparr>kheap := m\<rparr>" o1 bs] A(1) p62 M1(4) by (simp add: vm0_def)
  ultimately show "extends pt vm vm1" using M1 A T by (simp add: extends_def)
  assume rc: "rc = 0" and off: "off < 4096" and nv: "unat va + 4096 \<le> 18446744073709551616"
  have off': "unat off < 4096" using off by (simp add: word_less_nat_alt)
  have u: "unat (va + off) = unat va + unat off" using nv off' by (intro unat_add64) linarith
  have dv: "4096 dvd unat va" using assms(7) by (simp add: aligned_unat)
  have q: "(unat va + unat off) div 4096 = unat va div 4096" "(unat va + unat off) mod 4096 = unat off" using dv off' by auto
  have "page_key (va + off) = page_key va" using u q(1) by (intro page_key_page) simp
  then have l: "leaf vm1 pt (va + off) = Some (push_bit 10 (drop_bit 12 p) OR perm OR PTE_V OR PTE_STD)" using L rc by simp
  have "unat ((va + off) AND 4095) = unat off" using page_offset [of "va + off"] u q(2) by simp
  then have o: "(va + off) AND 4095 = off" by (simp add: word_unat_eq_iff)
  have al: "aligned p" using A(3) by (simp add: aligned_unat)
  have "vm_pte_pa (push_bit 10 (drop_bit 12 p) OR (perm OR PTE_V OR PTE_STD)) = p"
  proof (rule pte_pa_make [OF al])
    have "take_bit 10 perm = perm" using assms(6) by (simp add: low_bits)
    then have "take_bit 10 (perm OR PTE_V OR PTE_STD) = perm OR PTE_V OR PTE_STD" by (simp add: take_bit_or)
    then show "perm OR PTE_V OR PTE_STD < 1024" by (simp add: low_bits)
  qed
  then have pa: "user_pa vm1 pt (va + off) = p + off" unfolding user_pa_def l o by (simp add: or.assoc)
  with l off M1(4) show "leaf vm1 pt (va + off) = Some (push_bit 10 (drop_bit 12 p) OR perm OR PTE_V OR PTE_STD) \<and> user_pa vm1 pt (va + off) = p + off \<and>
       user_byte vm1 pt (va + off) = (if o1 \<le> off \<and> unat (off - o1) < length bs then bs ! unat (off - o1) else NUL)"
    by (simp add: user_byte_def vm0_def fill_page_def)
qed

text \<open>A page of a segment as the program header and the image describe it, in a frame that was free before.\<close>

definition loaded :: "vm \<Rightarrow> u64 \<Rightarrow> u64 \<Rightarrow> u64 \<Rightarrow> char \<Rightarrow> u64 \<Rightarrow> bool" where
  "loaded vm pt perm lo c x \<longleftrightarrow>
     (\<exists>pa. leaf vm pt x = Some (push_bit 10 (drop_bit 12 pa) OR perm OR PTE_V OR PTE_STD)) \<and>
     user_byte vm pt x = c \<and> unat lo \<le> unat (user_pa vm pt x) \<and> unat (user_pa vm pt x) < unat (heap_ptr (kheap vm))"

lemma loaded_extends:
  assumes "loaded vm pt perm lo c x" "extends pt vm vm'"
  shows "loaded vm' pt perm lo c x"
proof -
  obtain pa where l: "leaf vm pt x = Some (push_bit 10 (drop_bit 12 pa) OR perm OR PTE_V OR PTE_STD)" using assms(1) by (auto simp: loaded_def)
  with assms(2) have l': "leaf vm' pt x = leaf vm pt x" by (auto simp: extends_def)
  then have "user_pa vm' pt x = user_pa vm pt x" by (simp add: user_pa_def)
  with assms l l' show ?thesis by (auto simp: loaded_def extends_def user_byte_def)
qed

lemma elf_map_loop_spec:
  assumes "unat lim = unat va + 4096 * n" "unat vaddr < unat va + 4096" "aligned va" "perm < 1024"
    and "pool_ok vm" "pt_tree vm pt" "kmem_inv (kheap vm)" "unat src + unat filesz \<le> length elf" "length elf < 18446744073709551616"
  shows "\<exists>vm' rc. elf_map_loop vm pt elf src vaddr filesz perm lim va = Some (vm', rc) \<and> (rc = 0 \<or> rc = ENOSPC) \<and> extends pt vm vm' \<and>
    (\<forall>x. leaf vm' pt x \<noteq> leaf vm pt x \<longrightarrow> (\<exists>y. va \<le> y \<and> y < lim \<and> page_key x = page_key y)) \<and>
    (rc = 0 \<longrightarrow> (\<forall>x. va \<le> x \<and> x < lim \<longrightarrow> loaded vm' pt perm (heap_ptr (kheap vm)) (seg_byte elf src vaddr filesz x) x))"
  using assms(1-3,5-7)
proof (induction n arbitrary: va vm)
  case 0
  then have "va = lim" by (simp add: word_unat_eq_iff)
  then show ?case using 0 by (subst elf_map_loop.simps) (auto simp: extends_def)
next
  case (Suc n)
  have lt: "va < lim" using Suc.prems(1) by (simp add: word_less_nat_alt)
  obtain m p where k: "kalloc_page (kheap vm) = (m, p)" by fastforce
  note ex = extends_alloc [OF Suc.prems(4-6) k]
  show ?case
  proof (cases "p = 0")
    case True
    with lt k ex show ?thesis by (subst elf_map_loop.simps) simp
  next
    case p: False
    obtain bs where bs: "elf_page elf src vaddr filesz va (page_off_of vaddr va) = Some bs"
      using elf_page_some [OF assms(8,9) Suc.prems(2)] by blast
    obtain vm1 rc where m: "vm_map_user_page (fill_page (vm\<lparr>kheap := m\<rparr>) p (page_off_of vaddr va) bs) pt va p perm = (vm1, rc)" by fastforce
    note S = map_fresh_page [OF Suc.prems(4-6) k p assms(4) Suc.prems(3) m]
    have e: "elf_map_loop vm pt elf src vaddr filesz perm lim va =
        (if rc \<noteq> 0 then Some (vm1, ENOSPC) else elf_map_loop vm1 pt elf src vaddr filesz perm lim (va + PAGE_SIZE))"
      using lt k p bs m by (subst elf_map_loop.simps) (simp add: page_off_of_def)
    show ?thesis
    proof (cases "rc = 0")
      case False
      then show ?thesis using e S(1,4) lt by auto
    next
      case rc: True
      have lim: "unat va + 4096 * Suc n < 18446744073709551616" using Suc.prems(1) unsigned_less [of lim, where ?'a = nat] by simp
      then have u: "unat (va + 4096) = unat va + 4096" by (simp add: unat_word_ariths)
      have X: "pool_ok vm1" "pt_tree vm1 pt" "kmem_inv (kheap vm1)" using S(1) by (simp_all add: extends_def)
      have "aligned (va + 4096)" using Suc.prems(3) u by (simp add: aligned_unat)
      from Suc.IH [OF _ _ this X] Suc.prems(1,2) u obtain vm' rc' where
        I: "elf_map_loop vm1 pt elf src vaddr filesz perm lim (va + 4096) = Some (vm', rc')" "rc' = 0 \<or> rc' = ENOSPC" "extends pt vm1 vm'"
          "\<And>x. leaf vm' pt x \<noteq> leaf vm1 pt x \<Longrightarrow> \<exists>y. va + 4096 \<le> y \<and> y < lim \<and> page_key x = page_key y"
          "\<And>x. rc' = 0 \<Longrightarrow> va + 4096 \<le> x \<Longrightarrow> x < lim \<Longrightarrow> loaded vm' pt perm (heap_ptr (kheap vm1)) (seg_byte elf src vaddr filesz x) x"
        by auto
      have here: "loaded vm1 pt perm (heap_ptr (kheap vm)) (seg_byte elf src vaddr filesz x) x" if x: "va \<le> x" "x < va + 4096" for x
      proof -
        define off where "off = x - va"
        have "unat off = unat x - unat va" using unat_sub64 [OF x(1)] by (simp add: off_def)
        then have o: "unat off < 4096" "unat va + unat off = unat x" using x u by (simp_all add: word_less_nat_alt word_le_nat_alt)
        then have ol: "off < 4096" by (simp add: word_less_nat_alt)
        have xo: "x = va + off" by (simp add: off_def)
        note B = S(5) [OF rc ol] elf_page_byte [OF bs Suc.prems(2) ol]
        have A: "unat (heap_ptr (kheap vm)) \<le> unat p" "unat p < 4611686018427387904"
          using kalloc_page_cases [OF Suc.prems(6) k] p by (auto simp: kmem_inv_def)
        then have "unat (p + off) = unat p + unat off" using o by (intro unat_add64) simp
        with B lim o A S(2) show ?thesis unfolding loaded_def xo by auto
      qed
      have "loaded vm' pt perm (heap_ptr (kheap vm)) (seg_byte elf src vaddr filesz x) x" if x: "rc' = 0" "va \<le> x" "x < lim" for x
      proof (cases "x < va + 4096")
        case True
        show ?thesis using loaded_extends [OF here [OF x(2) True] I(3)] .
      next
        case False
        then show ?thesis using I(5) [OF x(1) _ x(3)] S(1) by (auto simp: loaded_def extends_def not_less)
      qed
      moreover have "\<exists>y. va \<le> y \<and> y < lim \<and> page_key x = page_key y" if "leaf vm' pt x \<noteq> leaf vm pt x" for x
      proof (cases "leaf vm' pt x = leaf vm1 pt x")
        case True
        then show ?thesis using S(4) [of x] that lt by auto
      next
        case False
        from I(4) [OF this] obtain y where "va + 4096 \<le> y" "y < lim" "page_key x = page_key y" by blast
        moreover from this have "va \<le> y" using u by (simp add: word_le_nat_alt)
        ultimately show ?thesis by blast
      qed
      ultimately show ?thesis using e rc I(1-2) extends_trans [OF S(1) I(3)] by auto
    qed
  qed
qed

lemma elf_perm_small: "elf_perm f < 1024"
  by (simp add: elf_perm_def)

lemma segment_range:
  assumes "unat (p_vaddr ph) + unat (p_memsz ph) + 4096 < 18446744073709551616"
  defines "va \<equiv> pa_round_down (p_vaddr ph)" and "lim \<equiv> pa_round_up (p_vaddr ph + p_memsz ph)"
  shows "\<exists>n. unat lim = unat va + 4096 * n" "unat (p_vaddr ph) < unat va + 4096" "aligned va"
    "unat va \<le> unat (p_vaddr ph)" "unat (p_vaddr ph) + unat (p_memsz ph) \<le> unat lim"
proof -
  have s: "unat (p_vaddr ph + p_memsz ph) = unat (p_vaddr ph) + unat (p_memsz ph)" using assms(1) by (intro unat_add64) simp
  have u: "unat va = unat (p_vaddr ph) div 4096 * 4096"
    using unat_round_down [of "p_vaddr ph" 12] by (simp add: va_def pa_round_down_def flip: mask_12)
  have l: "unat lim = (unat (p_vaddr ph) + unat (p_memsz ph) + 4095) div 4096 * 4096"
    using unat_round_up [of "p_vaddr ph + p_memsz ph" 12] assms(1) s by (simp add: lim_def pa_round_up_def add_diff_eq [symmetric] flip: mask_12)
  define n where "n = (unat (p_vaddr ph) + unat (p_memsz ph) + 4095) div 4096 - unat (p_vaddr ph) div 4096"
  have "unat (p_vaddr ph) div 4096 \<le> (unat (p_vaddr ph) + unat (p_memsz ph) + 4095) div 4096" by (rule div_le_mono) simp
  then have "unat lim = unat va + 4096 * n" using u l by (simp add: n_def algebra_simps)
  then show "\<exists>n. unat lim = unat va + 4096 * n" by blast
  show "unat (p_vaddr ph) < unat va + 4096" "aligned va" "unat va \<le> unat (p_vaddr ph)" using u by (simp_all add: aligned_unat)
  show "unat (p_vaddr ph) + unat (p_memsz ph) \<le> unat lim" unfolding l by simp
qed

lemma segment_spec:
  assumes "pool_ok vm" "pt_tree vm pt" "kmem_inv (kheap vm)" "length elf < 18446744073709551616"
    and "unat (p_offset ph) + unat (p_filesz ph) \<le> length elf" "unat (p_vaddr ph) + unat (p_memsz ph) + 4096 < 18446744073709551616"
  shows "\<exists>vm' rc. elf_map_segment vm pt elf ph = Some (vm', rc) \<and> (rc = 0 \<or> rc = ENOSPC) \<and> extends pt vm vm' \<and>
    (\<forall>x. leaf vm' pt x \<noteq> leaf vm pt x \<longrightarrow>
       (\<exists>y. pa_round_down (p_vaddr ph) \<le> y \<and> y < pa_round_up (p_vaddr ph + p_memsz ph) \<and> page_key x = page_key y)) \<and>
    (rc = 0 \<longrightarrow> (\<forall>x. pa_round_down (p_vaddr ph) \<le> x \<and> x < pa_round_up (p_vaddr ph + p_memsz ph) \<longrightarrow>
       loaded vm' pt (elf_perm (p_flags ph)) (heap_ptr (kheap vm)) (seg_byte elf (p_offset ph) (p_vaddr ph) (p_filesz ph) x) x))"
proof -
  note R = segment_range [OF assms(6)]
  obtain n where n: "unat (pa_round_up (p_vaddr ph + p_memsz ph)) = unat (pa_round_down (p_vaddr ph)) + 4096 * n" using R(1) by blast
  have e: "elf_map_segment vm pt elf ph = elf_map_loop vm pt elf (p_offset ph) (p_vaddr ph) (p_filesz ph) (elf_perm (p_flags ph))
      (pa_round_up (p_vaddr ph + p_memsz ph)) (pa_round_down (p_vaddr ph))"
    by (simp add: elf_map_segment_def pa_round_up_def pa_round_down_def Let_def)
  from elf_map_loop_spec [OF n R(2,3) elf_perm_small assms(1-3,5,4)] show ?thesis unfolding e .
qed

text \<open>C32: Loading a segment that lies inside its image returns, with success or \<open>ENOSPC\<close>.  On success every page from the start to the end
  of the segment is mapped with the permissions of the program header, in frames that were free; the agent reads there the
  bytes of the file, at the addresses the header gives, and zeros everywhere else, so nothing of the kernel's memory shows.
  In any case only pages of the segment change, no page that was mapped before is remapped, and memory in use is not written.\<close>

theorem elf_segment_loaded:
  assumes "pool_ok vm" "pt_tree vm pt" "kmem_inv (kheap vm)" "length elf < 18446744073709551616"
    and "unat (p_offset ph) + unat (p_filesz ph) \<le> length elf" "unat (p_vaddr ph) + unat (p_memsz ph) + 4096 < 18446744073709551616"
  shows "\<exists>vm' rc. elf_map_segment vm pt elf ph = Some (vm', rc) \<and> (rc = 0 \<or> rc = ENOSPC) \<and> extends pt vm vm' \<and>
    (\<forall>x. leaf vm' pt x \<noteq> leaf vm pt x \<longrightarrow>
       (\<exists>y. pa_round_down (p_vaddr ph) \<le> y \<and> y < pa_round_up (p_vaddr ph + p_memsz ph) \<and> page_key x = page_key y)) \<and>
    (rc = 0 \<longrightarrow> (\<forall>x. pa_round_down (p_vaddr ph) \<le> x \<and> x < pa_round_up (p_vaddr ph + p_memsz ph) \<longrightarrow>
       loaded vm' pt (elf_perm (p_flags ph)) (heap_ptr (kheap vm))
         (if p_vaddr ph \<le> x \<and> x - p_vaddr ph < p_filesz ph then elf ! unat (p_offset ph + (x - p_vaddr ph)) else NUL) x))"
  by (rule segment_spec [OF assms, unfolded seg_byte_def])

definition demo_phdr :: elf64_phdr where
  "demo_phdr = \<lparr>p_type = 1, p_flags = 5, p_offset = 2, p_vaddr = 0x40001004, p_filesz = 3, p_memsz = 6\<rparr>"

theorem elf_segment_loaded_witness:
  "\<exists>vm'. elf_map_segment boot_vm 0x80400000 ''__abc'' demo_phdr = Some (vm', 0) \<and>
     user_byte vm' 0x80400000 0x40001003 = NUL \<and> user_byte vm' 0x80400000 0x40001005 = CHR ''b'' \<and> user_byte vm' 0x80400000 0x40001007 = NUL"
proof -
  have t: "pt_tree boot_vm 0x80400000" using boot_vm_tree by (simp add: boot_vm_def)
  have k: "kmem_inv (kheap boot_vm)" by (simp add: boot_vm_def)
  have "map_option snd (elf_map_segment boot_vm 0x80400000 ''__abc'' demo_phdr) = Some 0" by code_simp
  then obtain vm' where e: "elf_map_segment boot_vm 0x80400000 ''__abc'' demo_phdr = Some (vm', 0)" by auto
  have r: "pa_round_down (p_vaddr demo_phdr) = 0x40001000" "pa_round_up (p_vaddr demo_phdr + p_memsz demo_phdr) = 0x40002000" by code_simp+
  from elf_segment_loaded [OF boot_vm_ok t k, of "''__abc''" demo_phdr] e
  have L: "loaded vm' 0x80400000 (elf_perm 5) (heap_ptr (kheap boot_vm))
      (if 0x40001004 \<le> x \<and> x - 0x40001004 < 3 then ''__abc'' ! unat (2 + (x - 0x40001004)) else NUL) x"
    if "0x40001000 \<le> x" "x < 0x40002000" for x
    using that unfolding r by (auto simp: demo_phdr_def)
  show ?thesis using e L [of "0x40001003"] L [of "0x40001005"] L [of "0x40001007"] by (auto simp: loaded_def)
qed

text \<open>C33: The loader does not restrict the addresses of a segment.  The root table of an agent is a copy of the kernel's, so below a root
  slot the kernel uses, both share their tables: a segment with such an address is mapped into the address space of the kernel,
  and of every other agent, with the permission bit for user mode set.\<close>

theorem elf_segment_shared:
  assumes "pool_ok vm" "pt_tree vm pt" "kmem_inv (kheap vm)" "length elf < 18446744073709551616"
    and "unat (p_offset ph) + unat (p_filesz ph) \<le> length elf" "unat (p_vaddr ph) + unat (p_memsz ph) + 4096 < 18446744073709551616"
    and "elf_map_segment vm pt elf ph = Some (vm', 0)" "p_vaddr ph \<le> x" "x < p_vaddr ph + p_memsz ph"
    and "q \<in> tables vm" "pte_valid (ptes vm q (vpn 2 x))" "ptes vm pt (vpn 2 x) = ptes vm q (vpn 2 x)"
  shows "\<exists>e. leaf vm' q x = Some e \<and> e AND PTE_U \<noteq> 0 \<and>
    user_byte vm' q x = (if x - p_vaddr ph < p_filesz ph then elf ! unat (p_offset ph + (x - p_vaddr ph)) else NUL)"
proof -
  note R = segment_range [OF assms(6)]
  have s: "unat (p_vaddr ph + p_memsz ph) = unat (p_vaddr ph) + unat (p_memsz ph)" using assms(6) by (intro unat_add64) simp
  have x: "pa_round_down (p_vaddr ph) \<le> x" "x < pa_round_up (p_vaddr ph + p_memsz ph)"
    using assms(8,9) R(4,5) s unfolding word_le_nat_alt word_less_nat_alt by linarith+
  from segment_spec [OF assms(1-6)] assms(7) x
  have X: "extends pt vm vm'" and L: "loaded vm' pt (elf_perm (p_flags ph)) (heap_ptr (kheap vm)) (seg_byte elf (p_offset ph) (p_vaddr ph) (p_filesz ph) x) x"
    by auto
  have "pt \<in> tables vm" using pt_treeD(1) [OF assms(2)] .
  with X assms(10-12) have "ptes vm' q (vpn 2 x) = ptes vm' pt (vpn 2 x)" by (auto simp: extends_def)
  then have "leaf vm' q x = leaf vm' pt x" by (simp add: leaf_unfold)
  moreover from this have "user_byte vm' q x = user_byte vm' pt x" by (simp add: user_byte_def user_pa_def)
  moreover have "(y OR elf_perm f OR z) AND PTE_U \<noteq> 0" for f y z
  proof -
    have "elf_perm f AND 16 = 16" by (simp add: elf_perm_def)
    then show ?thesis by (simp add: bit.conj_disj_distrib2 or_eq_0_iff)
  qed
  ultimately show ?thesis using L assms(8) by (auto simp: loaded_def seg_byte_def or.assoc)
qed

text \<open>A kernel table with a page mapped at \<open>0x80000000\<close>, and an agent created from it.\<close>

definition image_vm :: vm where
  "image_vm = fst (vm_map_page boot_vm 0x80400000 0x80000000 0x80200000 (PTE_R OR PTE_W))"

lemma image_vm_ok: "pool_ok image_vm" "pt_tree image_vm (kernel_pt image_vm)" "kernel_pt image_vm = 0x80400000" "kheap image_vm = mem_init"
  "pt_next image_vm = 2" "pool_table image_vm 2 = 0x80502000" "ptes image_vm 0x80400000 2 = 0x20140001"
proof -
  have t: "pt_tree boot_vm 0x80400000" using boot_vm_tree by (simp add: boot_vm_def)
  obtain rc where m: "vm_map_page boot_vm 0x80400000 0x80000000 0x80200000 (PTE_R OR PTE_W) = (image_vm, rc)"
    by (metis image_vm_def prod.collapse)
  show k: "kernel_pt image_vm = 0x80400000" "kheap image_vm = mem_init" using vm_map_page_cases [OF boot_vm_ok t m] by (simp_all add: boot_vm_def)
  show "pool_ok image_vm" "pt_tree image_vm (kernel_pt image_vm)" using vm_map_page_cases [OF boot_vm_ok t m] k(1) by simp_all
  show "pt_next image_vm = 2" "pool_table image_vm 2 = 0x80502000" "ptes image_vm 0x80400000 2 = 0x20140001" by code_simp+
qed

definition wild_phdr :: elf64_phdr where
  "wild_phdr = \<lparr>p_type = 1, p_flags = 7, p_offset = 0, p_vaddr = 0x90000000, p_filesz = 3, p_memsz = 3\<rparr>"

theorem elf_segment_shared_witness:
  "\<exists>vm' e. elf_map_segment (new_root image_vm) 0x80502000 ''abc'' wild_phdr = Some (vm', 0) \<and>
     leaf vm' 0x80400000 0x90000001 = Some e \<and> e AND PTE_U \<noteq> 0 \<and> user_byte vm' 0x80400000 0x90000001 = CHR ''b''"
proof -
  have n: "pt_next image_vm < 64" using image_vm_ok(5) by simp
  have kh: "kheap (new_root image_vm) = mem_init"
    using image_vm_ok(4) by (simp add: new_root_def vm_create_agent_pt_def pt_alloc_def Let_def)
  have ok: "pool_ok (new_root image_vm)" "pt_tree (new_root image_vm) 0x80502000" "kernel_pt (new_root image_vm) = 0x80400000"
      "ptes (new_root image_vm) 0x80400000 2 = 0x20140001" "ptes (new_root image_vm) 0x80502000 2 = 0x20140001"
    using new_root_tree(1) [OF image_vm_ok(1) n image_vm_ok(2)] vm_create_some [OF image_vm_ok(1) n] image_vm_ok
    by simp_all
  have "map_option snd (elf_map_segment (new_root image_vm) 0x80502000 ''abc'' wild_phdr) = Some 0" by code_simp
  then obtain vm' where e: "elf_map_segment (new_root image_vm) 0x80502000 ''abc'' wild_phdr = Some (vm', 0)" by auto
  have v: "vpn 2 0x90000001 = 2" "pte_valid 0x20140001" by code_simp+
  have "0x80400000 \<in> tables (new_root image_vm)" using ok(3) by (auto simp: tables_def)
  with elf_segment_shared [OF ok(1,2) _ _ _ _ e, of "0x90000001" "0x80400000"] e ok kh v show ?thesis
    by (auto simp: wild_phdr_def)
qed

text \<open>The test of the file range adds in 64 bits: an offset behind the image passes when the sum wraps, and the loader then reads outside the image.\<close>

lemma elf_offset_wraps:
  assumes "p_offset ph + p_filesz ph \<le> of_nat (length elf)" "length elf \<le> unat (p_offset ph)" "0 < p_filesz ph"
    and "unat (p_vaddr ph) + unat (p_memsz ph) + 4096 < 18446744073709551616" "0 < p_memsz ph" "snd (kalloc_page (kheap vm)) \<noteq> 0"
  shows "elf_map_segment vm pt elf ph = None"
proof -
  define va lim where "va = pa_round_down (p_vaddr ph)" and "lim = pa_round_up (p_vaddr ph + p_memsz ph)"
  note R = segment_range [OF assms(4), folded va_def lim_def]
  have lt: "va < lim" using R(4,5) assms(5) by (simp add: word_less_nat_alt)
  define po where "po = page_off_of (p_vaddr ph) va"
  note P = page_start [OF R(2), folded po_def]
  have f: "va + po - p_vaddr ph = 0" using P(2) R(4) by (simp add: word_unat_eq_iff)
  define n where "n = unat (if PAGE_SIZE - po > p_filesz ph then p_filesz ph else PAGE_SIZE - po)"
  have "0 < 4096 - po" using P(1) unat_sub64 [of po 4096] by (simp add: word_less_nat_alt word_le_nat_alt)
  then have "0 < n" using assms(3) by (simp add: n_def word_less_nat_alt)
  then have "elf_bytes elf (p_offset ph) n = None"
    using assms(2) by (auto simp: elf_bytes_def list_all_iff intro!: bexI [of _ 0])
  then have none: "elf_page elf (p_offset ph) (p_vaddr ph) (p_filesz ph) va po = None"
    using assms(3) f by (simp add: elf_page_def n_def split: if_splits)
  have e: "elf_map_segment vm pt elf ph = elf_map_loop vm pt elf (p_offset ph) (p_vaddr ph) (p_filesz ph) (elf_perm (p_flags ph)) lim va"
    by (simp add: elf_map_segment_def va_def lim_def pa_round_up_def pa_round_down_def Let_def)
  obtain m p where k: "kalloc_page (kheap vm) = (m, p)" "p \<noteq> 0" using assms(6) by (cases "kalloc_page (kheap vm)") auto
  show ?thesis unfolding e using lt k none by (subst elf_map_loop.simps) (simp add: po_def page_off_of_def)
qed

end
