(* ===== verification/Trap.thy ===== *)
theory Trap
  imports Gateway Elfload
begin

text \<open>
  Traps: the entry and exit code of \<open>kernel/trap.S\<close>, the handler of \<open>kernel/arch/riscv/trap_handler.c\<close> and the system call table of
  \<open>kernel/sched_syscall.c\<close>.

  The registers of a hart are a \<open>trapframe\<close> whose last two fields are the control registers \<open>sepc\<close> and \<open>sstatus\<close>.  A trap either resumes
  user code with a frame, or leaves the hart waiting in the loop of \<open>schedule_trap\<close>, parked, or halted.  Arming the timer and
  acknowledging an interrupt are calls of the firmware and have no effect here.  \<open>None\<close> is a fault of the kernel itself.

  The lemmas: every trap keeps the kernel's tables well formed; no trap changes the capabilities of an agent, the root of
  its page table, or the saved registers of an agent other than the one that trapped, except for the agent that a system call
  creates; and what the entry and exit code do to the registers of a preempted agent.  They are about the fields of the agent table: what
  a store of the kernel to a wrong address does to them is the subject of theory \<open>Machine\<close>.
\<close>

section \<open>Definitions\<close>

unbundle bit_operations_syntax

abbreviation (input) SSTATUS_SPP :: u64 where "SSTATUS_SPP \<equiv> 256"

abbreviation (input) TF_SIZE :: u64 where "TF_SIZE \<equiv> 264"

abbreviation (input) TRAP_STACK_SIZE :: u64 where "TRAP_STACK_SIZE \<equiv> 8192"

subsection \<open>Entry and exit\<close>

text \<open>\<open>trap_vector\<close>: the address of the frame on the kernel stack and the frame that \<open>SAVE_ALL\<close> stores there.\<close>

definition trap_vector :: "u64 \<Rightarrow> u64 \<Rightarrow> trapframe \<Rightarrow> u64 \<times> trapframe" where
  "trap_vector trap_stacks sscratch r0 =
     (let r1 = r0\<lparr>tf_t0 := tf_sstatus r0 AND SSTATUS_SPP\<rparr>
      in if tf_t0 r1 \<noteq> 0 then
           let sp = tf_sp r1 - TF_SIZE;
               r2 = r1\<lparr>tf_t4 := sp + TF_SIZE\<rparr>
           in (sp, r2\<lparr>tf_sp := tf_t4 r2\<rparr>)
         else
           let r2 = r1\<lparr>tf_t4 := tf_sp r1, tf_t5 := sscratch\<rparr>;
               r3 = r2\<lparr>tf_t6 := push_bit 13 (tf_t5 r2)\<rparr>;
               sp = trap_stacks + tf_t6 r3;
               r4 = r3\<lparr>tf_t6 := TRAP_STACK_SIZE\<rparr>;
               sp = sp + tf_t6 r4 - TF_SIZE
           in (sp, r4\<lparr>tf_sp := tf_t4 r4\<rparr>))"

definition user_sstatus :: "u64 \<Rightarrow> u64" where
  "user_sstatus s = s AND (256 XOR - 1) OR 32 OR push_bit 12 0x4"

text \<open>The registers at the \<open>sret\<close> that ends \<open>trap_vector\<close>, and at the one that ends \<open>switch_to_agent\<close>.\<close>

definition trap_return :: "trapframe \<Rightarrow> trapframe" where
  "trap_return f =
     (let r1 = f\<lparr>tf_sstatus := user_sstatus (tf_sstatus f), tf_t1 := push_bit 12 0x4\<rparr>;
          r2 = r1\<lparr>tf_t0 := tf_sepc f\<rparr>
      in r2\<lparr>tf_t1 := tf_t1 f, tf_s0 := tf_s0 f\<rparr>)"

definition switch_to_agent :: "trapframe \<Rightarrow> trapframe" where
  "switch_to_agent f =
     (let r1 = f\<lparr>tf_sstatus := user_sstatus (tf_sstatus f), tf_t1 := push_bit 12 0x4\<rparr>;
          r2 = r1\<lparr>tf_t0 := tf_sepc f\<rparr>
      in r2\<lparr>tf_t1 := tf_t1 f, tf_s1 := tf_s1 f, tf_s2 := tf_s2 f\<rparr>)"

definition agent_save_context :: "trapframe \<Rightarrow> trapframe \<Rightarrow> trapframe" where
  "agent_save_context r f =
     f\<lparr>tf_sp := tf_sp r, tf_gp := tf_gp r, tf_s0 := tf_s0 r, tf_s1 := tf_s1 r, tf_s2 := tf_s2 r, tf_s3 := tf_s3 r,
       tf_s4 := tf_s4 r, tf_s5 := tf_s5 r, tf_s6 := tf_s6 r, tf_s7 := tf_s7 r, tf_s8 := tf_s8 r, tf_s9 := tf_s9 r,
       tf_s10 := tf_s10 r, tf_s11 := tf_s11 r\<rparr>"

subsection \<open>System calls\<close>

definition sched_handle_syscall :: "kernel \<Rightarrow> nat \<Rightarrow> u64 \<Rightarrow> u64 \<Rightarrow> u64 \<Rightarrow> u64 \<Rightarrow> u64 \<Rightarrow> (kernel \<times> int) option" where
  "sched_handle_syscall k h n a0 a1 a2 a3 =
     (if n = 1 then agent_create k h a0 a1 (ucast a2)
      else if n = 2 then Some (agent_destroy k (as_int a0))
      else if n = 3 then Some (agent_send k h (as_int a0) (as_int a1) a2)
      else if n = 4 then Some (agent_recv k h a0)
      else if n = 6 then Some (k, case agent_current k h of None \<Rightarrow> - 1 | Some a \<Rightarrow> aid a)
      else if n = 7 then Some (agent_write k h a0 (sint a1))
      else if n = 8 then agent_tool k h (as_int a0) a1 a2 a3
      else if n = 10 then agent_llm_query k h a0 a1 (as_int a2)
      else if n = 11 then Some (agent_compact_inbox k h (as_int a0))
      else if n = 12 then Some (k, agent_get_phase k h)
      else if n = 13 then Some (agent_sync k)
      else if n = 14 then Some (k, agent_get_heap_base k h)
      else if n = 15 then Some (agent_heap_map k h (as_int a0))
      else if n = 16 then Some (agent_heap_cow k h (as_int a0) (as_int a1))
      else if n = 17 then agent_load_from_path k h a0 a1 (ucast a2)
      else Some (k, EINVAL))"

subsection \<open>The handler\<close>

datatype trap_end = Resume trapframe | Waiting trapframe | Parked | Halted

definition schedule_trap :: "kernel \<Rightarrow> nat \<Rightarrow> trapframe \<Rightarrow> kernel \<times> trap_end" where
  "schedule_trap k h cur_tf =
     (case schedule_turn k h (Some cur_tf) of
        (k1, Turn_run i) \<Rightarrow> (k1, case atf (agent_at k1 i) of None \<Rightarrow> Halted | Some tf \<Rightarrow> Resume tf)
      | (k1, Turn_wait) \<Rightarrow> (k1, Waiting cur_tf)
      | (k1, Turn_park) \<Rightarrow> (k1, Parked)
      | (k1, Turn_halt) \<Rightarrow> (k1, Halted))"

definition trapframe_sync_local :: "kernel \<Rightarrow> nat \<Rightarrow> trapframe \<Rightarrow> kernel \<times> trap_end" where
  "trapframe_sync_local k h src =
     (case trapframe_sync k h src of (k1, None) \<Rightarrow> (k1, Halted) | (k1, Some tf) \<Rightarrow> (k1, Resume tf))"

definition handle_ecall :: "kernel \<Rightarrow> nat \<Rightarrow> trapframe \<Rightarrow> (kernel \<times> trap_end) option" where
  "handle_ecall k h tf0 =
     (let n = tf_a7 tf0; tf = tf0\<lparr>tf_sepc := tf_sepc tf0 + 4\<rparr>
      in if n = 5 then
           let tf1 = tf\<lparr>tf_a0 := 0\<rparr>
           in Some (schedule_trap (trapframe_store k (cur_idx k h) (Some tf1)) h tf1)
         else if n = 9 then
           let k1 = agent_exit k h (as_int (tf_a0 tf))
           in Some (schedule_trap (trapframe_store k1 (cur_idx k1 h) (Some tf)) h tf)
         else if n = 3 then
           (case agent_send k h (as_int (tf_a0 tf)) (as_int (tf_a1 tf)) (tf_a2 tf) of (k1, ret) \<Rightarrow>
              let tf1 = tf\<lparr>tf_a0 := of_int ret\<rparr>
              in Some (trapframe_sync_local (trapframe_store k1 (cur_idx k1 h) (Some tf1)) h tf1))
         else (case sched_handle_syscall k h n (tf_a0 tf) (tf_a1 tf) (tf_a2 tf) (tf_a3 tf) of
                 None \<Rightarrow> None
               | Some (k1, ret) \<Rightarrow>
                   let tf1 = tf\<lparr>tf_a0 := of_int ret\<rparr>
                   in Some (trapframe_sync_local (trapframe_store k1 (cur_idx k1 h) (Some tf1)) h tf1)))"

definition resume_current :: "kernel \<Rightarrow> nat \<Rightarrow> (kernel \<times> trap_end) option" where
  "resume_current k h =
     (case agent_current k h of
        None \<Rightarrow> None
      | Some a \<Rightarrow> (case atf a of None \<Rightarrow> None | Some tf \<Rightarrow> Some (k, Resume tf)))"

definition kernel_halt :: "kernel \<Rightarrow> kernel \<times> trap_end" where
  "kernel_halt k = (k\<lparr>halted := True\<rparr>, Halted)"

definition handle_timer :: "kernel \<Rightarrow> nat \<Rightarrow> trapframe \<Rightarrow> (kernel \<times> trap_end) option" where
  "handle_timer k h tf =
     (if tf_sstatus tf AND SSTATUS_SPP \<noteq> 0 then
        (if cur_idx k h \<noteq> None then resume_current k h else Some (kernel_halt k))
      else if cur_idx k h \<noteq> None then Some (schedule_trap (trapframe_store k (cur_idx k h) (Some tf)) h tf)
      else Some (k, Resume tf))"

definition handle_page_fault :: "kernel \<Rightarrow> nat \<Rightarrow> bool \<Rightarrow> u64 \<Rightarrow> trapframe \<Rightarrow> (kernel \<times> trap_end) option" where
  "handle_page_fault k h wr stval tf =
     (case cur_idx k h of
        None \<Rightarrow> Some (kernel_halt k)
      | Some i \<Rightarrow>
          (case vm_heap_fault (kvm k) (Some (agent_at k i)) stval wr of (v, a1, ok) \<Rightarrow>
             let k1 = upd_agent (k\<lparr>kvm := v\<rparr>) i (\<lambda>_. the a1)
             in if ok then resume_current (trapframe_store k1 (Some i) (Some tf)) h
                else
                  let k2 = agent_exit k1 h 1
                  in Some (schedule_trap (trapframe_store k2 (cur_idx k2 h) (Some tf)) h tf)))"

definition trap_handler :: "kernel \<Rightarrow> nat \<Rightarrow> u64 \<Rightarrow> u64 \<Rightarrow> trapframe \<Rightarrow> (kernel \<times> trap_end) option" where
  "trap_handler k h scause stval tf =
     (if scause = 8 then handle_ecall k h tf
      else if scause = 0x8000000000000001 then Some (k, Resume tf)
      else if scause = 0x8000000000000005 then handle_timer k h tf
      else if scause = 12 \<or> scause = 13 \<or> scause = 15 then handle_page_fault k h (scause = 15) stval tf
      else Some (kernel_halt k))"

subsection \<open>Faults of the kernel\<close>

text \<open>A model query and the tool that returns the update channel access memory through unchecked pointers.  When such an access
  faults, the service stops there; the following definitions are the state it leaves behind, for calls whose result is
  \<open>None\<close>.  The fault is a trap of its own, taken in supervisor mode; \<open>trap_handler\<close> serves it as a fault of the agent.\<close>

definition query_fault :: "kernel \<Rightarrow> nat \<Rightarrow> u64 \<Rightarrow> u64 \<Rightarrow> kernel" where
  "query_fault k h prompt buf =
     (let w = kworld k;
          transport = (\<lambda>ans. case llm_transport k h buf ans of
                         None \<Rightarrow> (case ans of (rc, chunks, bytes) \<Rightarrow>
                                   Inl (sv_part (fold (llm_delta_write h) chunks (k\<lparr>kworld := w_step (kworld k)\<rparr>)) h buf bytes))
                       | Some (k1, rc) \<Rightarrow> Inr k1)
      in case (case w_llm_build w of
                 Llm_faux \<Rightarrow> Inr k
               | Llm_native \<Rightarrow> if netstack_ready w then transport (llm_deepseek_query w (w_calls w)) else Inr k
               | Llm_virtio \<Rightarrow> transport (virtio_llm_stream w (w_calls w))) of
           Inl k1 \<Rightarrow> k1
         | Inr k1 \<Rightarrow>
             (case llm_answer (kvm k1) (kpt k1 h) prompt of
                None \<Rightarrow> k1
              | Some answer \<Rightarrow> sv_part (faux_stream h answer k1) h buf (answer @ [NUL])))"

definition llm_fault :: "kernel \<Rightarrow> nat \<Rightarrow> u64 \<Rightarrow> u64 \<Rightarrow> kernel" where
  "llm_fault k h prompt buf = query_fault (agent_set_phase (llm_session_reset k) h AGENT_PHASE_LLM_WAIT) h prompt buf"

definition channel_fault :: "kernel \<Rightarrow> nat \<Rightarrow> u64 \<Rightarrow> int \<Rightarrow> kernel" where
  "channel_fault k h buf buflen = sv_part k h buf (snd (ramfs_read (kfs k) OTA_PATH_CHANNEL 0 (buflen - 1)) @ [NUL])"

definition syscall_fault :: "kernel \<Rightarrow> nat \<Rightarrow> u64 \<Rightarrow> u64 \<Rightarrow> u64 \<Rightarrow> u64 \<Rightarrow> u64 \<Rightarrow> kernel option" where
  "syscall_fault k h n a0 a1 a2 a3 =
     (let k1 = agent_set_phase k h AGENT_PHASE_TOOL
      in if n = 10 then Some (llm_fault k h a0 a1)
         else if n = 8 \<and> as_int a0 = 5 then Some (llm_fault k1 h a1 a2)
         else if n = 8 \<and> as_int a0 = 13 \<and> as_int a1 = 2 then Some (channel_fault k1 h a2 (as_int a3))
         else None)"

section \<open>Registers across a trap\<close>

lemma user_sstatus_spp: "user_sstatus s AND SSTATUS_SPP = 0"
  by (simp add: user_sstatus_def bit.conj_disj_distrib2 and.assoc)

lemma trap_frame_user:
  "tf_sstatus r AND SSTATUS_SPP = 0 \<Longrightarrow> snd (trap_vector b s r) = r\<lparr>tf_t0 := 0, tf_t4 := tf_sp r, tf_t5 := s, tf_t6 := 8192\<rparr>"
  by (simp add: trap_vector_def Let_def)

lemma trap_return_eq: "trap_return f = f\<lparr>tf_t0 := tf_sepc f, tf_sstatus := user_sstatus (tf_sstatus f)\<rparr>"
  by (simp add: trap_return_def Let_def)

lemma switch_return_eq: "switch_to_agent f = trap_return f"
  by (simp add: trap_return_def switch_to_agent_def Let_def)

section \<open>What a system call leaves alone\<close>

text \<open>\<open>spares N k k'\<close>: the tables stay well formed, every hart keeps its agent, and outside \<open>N\<close> every agent keeps its
  capabilities, its page table and its saved registers.\<close>

definition spares :: "nat set \<Rightarrow> kernel \<Rightarrow> kernel \<Rightarrow> bool" where
  "spares N k k' \<longleftrightarrow> kernel_wf k' \<and> cpu_current k' = cpu_current k \<and>
     (\<forall>i < MAX_AGENTS. i \<notin> N \<longrightarrow> caps (agent_at k' i) = caps (agent_at k i) \<and> pagetable (agent_at k' i) = pagetable (agent_at k i) \<and>
        atf (agent_at k' i) = atf (agent_at k i))"

named_theorems spares_intros \<open>operations that spare the agents outside a set\<close>

lemma spares_refl [spares_intros]: "kernel_wf k \<Longrightarrow> spares N k k"
  by (simp add: spares_def)

lemma spares_trans: "spares N k k1 \<Longrightarrow> spares N k1 k2 \<Longrightarrow> spares N k k2"
  by (simp add: spares_def)

lemma spares_wf: "spares N k k' \<Longrightarrow> kernel_wf k'"
  by (simp add: spares_def)

lemma spares_fields [simp]:
  "spares N k (k'\<lparr>kvm := x1\<rparr>) = spares N k k'" "spares N k (k'\<lparr>kfs := x2\<rparr>) = spares N k k'" "spares N k (k'\<lparr>kdisk := x3\<rparr>) = spares N k k'"
  "spares N k (k'\<lparr>uart_out := x4\<rparr>) = spares N k k'" "spares N k (k'\<lparr>kquota := x5\<rparr>) = spares N k k'"
  "spares N k (k'\<lparr>agent_count := x6\<rparr>) = spares N k k'" "spares N k (k'\<lparr>rr_next := x7\<rparr>) = spares N k k'"
  by (simp_all add: spares_def)

lemma keeps_spares [spares_intros]: "keeps k k' \<Longrightarrow> kernel_wf k \<Longrightarrow> spares N k k'"
  using keeps_wf [of k k'] keeps_ident [of k k']
  by (auto simp: spares_def ident_def kernel_wf_def keeps_def)

lemma agent_at_upd_any: "agent_at (upd_agent k i f) j = (if j = i \<and> i < length (agents k) then f (agent_at k i) else agent_at k j)"
  by (cases "i < length (agents k)") (simp_all add: agent_at_def agents_upd list_update_beyond)

lemma spares_upd_new [spares_intros]:
  "spares N k k' \<Longrightarrow> i \<in> N \<Longrightarrow> (\<And>a. aid (f a) = aid a) \<Longrightarrow> spares N k (upd_agent k' i f)"
  using kernel_wf_upd [of k' f i] by (auto simp: spares_def agent_at_upd_any)

lemma spares_upd [spares_intros]:
  "spares N k k' \<Longrightarrow> (\<And>a. ident (f a) = ident a) \<Longrightarrow> spares N k (upd_agent k' i f)"
  using kernel_wf_upd [of k' f i] by (auto simp: spares_def ident_def agent_at_upd_any)

lemma spares_set_id:
  assumes "spares N k k'" "i < MAX_AGENTS"
  shows "upd_agent k' i (\<lambda>a. a\<lparr>aid := int i\<rparr>) = k'"
  using assms by (intro upd_agent_same) (simp add: spares_def kernel_wf_def)

lemma setup_stack_spares:
  assumes "agent_setup_stack k i e = Some k1" "spares N k0 k" "i \<in> N"
  shows "spares N k0 k1"
  using assms unfolding agent_setup_stack_def kalloc_k_def kalloc_page_k_def
  by (auto simp: Let_def split: prod.splits option.splits if_splits intro!: spares_upd_new)

lemma setup_loaded_spares:
  assumes "agent_setup_loaded k i = Some (k1, rc)" "spares N k0 k" "i \<in> N"
  shows "spares N k0 k1"
  using assms unfolding agent_setup_loaded_def kalloc_k_def kalloc_page_k_def
  by (auto simp: Let_def split: prod.splits option.splits if_splits intro!: spares_upd_new)

lemma notify_spares: "spares N k0 k \<Longrightarrow> spares N k0 (sched_notify_runnable k i)"
  by (rule spares_trans, assumption, rule keeps_spares [OF keeps_notify]) (rule spares_wf)

lemma alloc_id_less: "agent_alloc_id k = Some i \<Longrightarrow> i < MAX_AGENTS"
  by (auto simp: agent_alloc_id_def find_Some_iff)

lemma create_spares:
  assumes "agent_create k h e nm c = Some (k1, rc)" "kernel_wf k" "\<And>i. agent_alloc_id k = Some i \<Longrightarrow> i \<in> N"
  shows "spares N k k1"
proof -
  have "spares N k k1" if i: "agent_alloc_id k = Some i" "agent_setup_stack (upd_agent k i (\<lambda>a. a\<lparr>aid := int i\<rparr>)) i e = Some k2"
    "k1 = k2 \<or> (\<exists>f. k1 = sched_notify_runnable ((upd_agent k2 i f)\<lparr>agent_count := wrap32 (agent_count k2 + 1)\<rparr>) i \<and> (\<forall>a. aid (f a) = aid a))" for i k2
  proof -
    have iN: "i \<in> N" using assms(3) i(1) .
    have k: "upd_agent k i (\<lambda>a. a\<lparr>aid := int i\<rparr>) = k" using spares_set_id [OF spares_refl [OF assms(2)]] alloc_id_less [OF i(1)] .
    have "spares N k k2" using setup_stack_spares [OF i(2) _ iN, of k] assms(2) by (simp add: k spares_refl)
    with i(3) iN show ?thesis by (auto intro!: notify_spares spares_upd_new)
  qed
  note one = this
  show ?thesis
  proof (cases "\<exists>i k2. agent_alloc_id k = Some i \<and> agent_setup_stack (upd_agent k i (\<lambda>a. a\<lparr>aid := int i\<rparr>)) i e = Some k2 \<and>
      (k1 = k2 \<or> (\<exists>f. k1 = sched_notify_runnable ((upd_agent k2 i f)\<lparr>agent_count := wrap32 (agent_count k2 + 1)\<rparr>) i \<and> (\<forall>a. aid (f a) = aid a)))")
    case True
    then show ?thesis using one by blast
  next
    case False
    then have "k1 = k"
      using assms(1) unfolding agent_create_def Let_def
      by (auto split: if_splits option.splits prod.splits)
    then show ?thesis using assms(2) by (simp add: spares_refl)
  qed
qed

lemma load_spares:
  assumes "agent_load_from_path k h p nm c = Some (k1, rc)" "kernel_wf k" "\<And>i. agent_alloc_id k = Some i \<Longrightarrow> i \<in> N"
  shows "spares N k k1"
proof -
  have fin: "spares N k0 (fst (finish_load k2 h i nm c))" if "spares N k0 k2" "i \<in> N" for k0 k2 i
    using that by (auto simp: finish_load_def Let_def split: prod.splits intro!: notify_spares spares_upd_new)
  have image: "spares N k k1" if l: "load_image k2 h elf nm c = Some (k1, rc)" and k2: "spares N k k2" "agent_alloc_id k2 = agent_alloc_id k" for k2 elf
  proof (cases "agent_alloc_id k")
    case None
    then show ?thesis using l k2 by (simp add: load_image_def)
  next
    case (Some i)
    have iN: "i \<in> N" using assms(3) Some .
    have k: "upd_agent k2 i (\<lambda>a. a\<lparr>aid := int i\<rparr>) = k2" using spares_set_id [OF k2(1)] alloc_id_less [OF Some] .
    obtain k3 rc3 where s: "agent_setup_loaded k2 i = Some (k3, rc3)" using l k2(2) Some by (auto simp: load_image_def k split: option.splits)
    have k3: "spares N k k3" using setup_loaded_spares [OF s k2(1) iN] .
    show ?thesis
    proof (cases "rc3 = 0")
      case False
      then show ?thesis using l k2(2) Some s k3 by (simp add: load_image_def k)
    next
      case True
      then obtain v rc4 where e: "elf_load_into_agent (kvm k3) (pagetable (agent_at k3 i)) elf = Some (v, rc4)"
        using l k2(2) Some s by (auto simp: load_image_def k split: option.splits)
      have "spares N k (upd_agent (k3\<lparr>kvm := v\<rparr>) i (set_entry (e_entry (dec_ehdr elf))))"
        using k3 iN by (intro spares_upd_new) (simp_all add: set_entry_def)
      note F = fin [OF this iN]
      show ?thesis
      proof (cases "rc4 = 0")
        case True
        then have "k1 = fst (finish_load (upd_agent (k3\<lparr>kvm := v\<rparr>) i (set_entry (e_entry (dec_ehdr elf)))) h i nm c)"
          using l k2(2) Some s e \<open>rc3 = 0\<close> by (simp add: load_image_def k)
        then show ?thesis using F by simp
      next
        case False
        then show ?thesis using l k2(2) Some s e \<open>rc3 = 0\<close> k3 by (auto simp: load_image_def k)
      qed
    qed
  qed
  have al: "spares N k k2 \<and> agent_alloc_id k2 = agent_alloc_id k" if "kalloc_k k n = (k2, q)" for k2 n q
    using that assms(2) by (auto simp: kalloc_k_def agent_alloc_id_def spares_refl split: prod.splits)
  show ?thesis
    using assms(1,2) unfolding agent_load_from_path_def Let_def
    by (auto split: if_splits sum.splits prod.splits intro: spares_refl image dest!: al)
qed

lemma spares_upd_at [spares_intros]:
  assumes "spares N k k'" "ident (f (agent_at k' i)) = ident (agent_at k' i)"
  shows "spares N k (upd_agent k' i f)"
proof -
  have "upd_agent k' i f = upd_agent k' i (\<lambda>a. if ident (f a) = ident a then f a else a)"
    using assms(2) by (simp add: upd_agent_def agent_at_def)
  also have "spares N k \<dots>" using assms(1) by (intro spares_upd) simp_all
  finally show ?thesis .
qed

lemma heap_map_ident: "vm_heap_map_page v (Some a) va = (v1, a1, rc) \<Longrightarrow> ident (the a1) = ident a"
  by (auto simp: vm_heap_map_page_def ident_def Let_def split: if_splits prod.splits)

lemma heap_cow_ident: "vm_heap_cow_alias v (Some a) x y = (v1, a1, rc) \<Longrightarrow> ident (the a1) = ident a"
  by (auto simp: vm_heap_cow_alias_def cow_map_dst_def cow_set_both_def ident_def Let_def split: if_splits prod.splits option.splits)

lemma heap_fault_ident: "vm_heap_fault v (Some a) va wr = (v1, a1, ok) \<Longrightarrow> ident (the a1) = ident a"
  by (auto simp: vm_heap_fault_def Let_def dest: heap_map_ident split: if_splits prod.splits option.splits)

lemma heap_spares:
  assumes "kernel_wf k"
  shows "spares N k (fst (agent_heap_map k h x))" "spares N k (fst (agent_heap_cow k h x y))"
  using assms
  by (auto simp: agent_heap_map_def agent_heap_cow_def Let_def spares_refl
      split: option.splits prod.splits intro!: spares_upd_at dest: heap_map_ident heap_cow_ident)

lemma to_user_spares: "to_user k h p b = (k1, c) \<Longrightarrow> spares N k0 k \<Longrightarrow> spares N k0 k1"
  by (auto simp: to_user_def split: prod.splits)

lemma phase_spares: "spares N k0 k \<Longrightarrow> spares N k0 (agent_set_phase k h p)"
  using spares_trans [OF _ keeps_spares [OF keeps_set_phase]] spares_wf by blast

lemma message_spares:
  assumes "kernel_wf k"
  shows "spares N k (fst (agent_send k h d m p))" "spares N k (fst (agent_recv k h p))" "spares N k (fst (agent_compact_inbox k h n))"
    "spares N k (fst (agent_destroy k t))" "spares N k (agent_exit k h n)"
proof -
  show "spares N k (fst (agent_send k h d m p))"
    using assms by (auto simp: agent_send_def send_msg_def Let_def ident_def split: option.splits prod.splits intro!: notify_spares spares_upd spares_refl)
  show "spares N k (fst (agent_recv k h p))"
    using assms
    by (auto simp: agent_recv_def Let_def ident_def split: option.splits prod.splits
        intro!: phase_spares spares_upd spares_refl elim!: to_user_spares)
  show "spares N k (fst (agent_compact_inbox k h n))" "spares N k (fst (agent_destroy k t))" "spares N k (agent_exit k h n)"
    using assms
    by (auto simp: agent_compact_inbox_def agent_destroy_def agent_exit_def Let_def ident_def split: option.splits prod.splits intro!: spares_upd spares_refl)
qed

lemma tool_spares:
  assumes "agent_tool k h tool x y z = Some (k1, rc)" "kernel_wf k"
  shows "spares N k k1"
proof -
  have d: "spares N k k2" if "tool_dispatch k h i tool x y z = Some (k2, rc)" "kernel_wf k" for k i k2
  proof (cases "admitted k h i tool x y z")
    case False
    from dispatch_refused [OF False] that(1) obtain rc' where "k2 = tool_audit_log k i tool rc'" by fastforce
    then show ?thesis using that(2) by (simp add: keeps_spares keeps_audit_log)
  next
    case True
    from dispatch_admitted [OF True that(1)] obtain e k3 where r: "tool_lookup tool = Some e" "te_run e k h i x y z = Some (k3, rc)"
      "k2 = (let k2 = (if unlogged tool x rc then k3 else tool_audit_log k3 i tool rc)
           in if unmetered tool x then k2 else k2\<lparr>kquota := quota_tool_charge (kquota k2) (Some (agent_at k2 i))\<rparr>)" by blast
    have "keeps k (if unlogged tool x rc then k3 else tool_audit_log k3 i tool rc)"
      using keeps_tool_run [OF conjunct1 [OF tool_lookup_in [OF r(1)]] r(2)] keeps_trans [OF _ keeps_audit_log] by auto
    then show ?thesis using r(3) that(2) by (auto simp: Let_def keeps_spares)
  qed
  have w: "kernel_wf (agent_set_phase k h AGENT_PHASE_TOOL)" using keeps_wf [OF keeps_set_phase assms(2)] .
  show ?thesis
    using assms spares_trans [OF phase_spares [OF spares_refl [OF assms(2)]] phase_spares [OF d [OF _ w]]]
    by (auto simp: agent_tool_def spares_refl split: option.splits)
qed

text \<open>The slot in which a system call puts a new agent.\<close>

definition new_slot :: "kernel \<Rightarrow> u64 \<Rightarrow> nat set" where
  "new_slot k n = (if n = 1 \<or> n = 17 then set_option (agent_alloc_id k) else {})"

lemma syscall_spares:
  assumes "sched_handle_syscall k h n a0 a1 a2 a3 = Some (k1, ret)" "kernel_wf k"
  shows "spares (new_slot k n) k k1"
proof -
  note M = message_spares [OF assms(2)] heap_spares [OF assms(2)]
  have "spares N k (fst (agent_sync k))" for N using assms(2) by (auto simp: agent_sync_def spares_refl split: prod.splits)
  moreover have "spares N k (fst (agent_write k h b l))" for N b l using assms(2) by (intro keeps_spares keeps_agent_write)
  ultimately show ?thesis
    using assms unfolding sched_handle_syscall_def
    by (auto split: if_splits simp: spares_refl new_slot_def intro: create_spares load_spares tool_spares keeps_spares keeps_llm)
      (metis M fst_conv)+
qed

lemma keeps_phase_trans: "keeps (agent_set_phase k h p) k' \<Longrightarrow> keeps k k'"
  using keeps_trans [OF keeps_set_phase] .

lemma keeps_query_fault: "keeps k (query_fault k h p b)"
proof -
  have T: "keeps k (sv_part (fold (llm_delta_write h) chunks (k\<lparr>kworld := w_step (kworld k)\<rparr>)) h b bytes)" for chunks bytes
    using keeps_trans [OF keeps_fold [of k "llm_delta_write h" "k\<lparr>kworld := w_step (kworld k)\<rparr>"] keeps_part] keeps_delta [of k] by simp
  have F: "keeps k (sv_part (faux_stream h a k1) h b cs)" if "keeps k k1" for k1 a cs
    using keeps_trans [OF keeps_trans [OF that keeps_faux_stream] keeps_part] .
  show ?thesis
    unfolding query_fault_def Let_def
    by (auto split: llm_build.splits option.splits sum.splits if_splits prod.splits intro!: T F dest!: keeps_transport)
qed

lemma fault_keeps: "syscall_fault k h n a0 a1 a2 a3 = Some k1 \<Longrightarrow> keeps k k1"
proof -
  have "keeps k (llm_session_reset k)" for k by (simp add: llm_session_reset_def)
  then have L: "keeps k (llm_fault k h p b)" for k p b
    unfolding llm_fault_def using keeps_trans [OF _ keeps_trans [OF keeps_set_phase keeps_query_fault]] by blast
  have C: "keeps k (channel_fault k h b n)" for k b n by (simp add: channel_fault_def keeps_part)
  show "syscall_fault k h n a0 a1 a2 a3 = Some k1 \<Longrightarrow> keeps k k1"
    using L keeps_phase_trans [OF L] keeps_phase_trans [OF C] by (auto simp: syscall_fault_def Let_def split: if_splits)
qed

section \<open>What a trap leaves alone\<close>

text \<open>\<open>isolated S N k k'\<close> compares the fields of the agent table, the root of a page table and not the tables below it: as \<open>spares\<close>, but the saved registers of the agents in \<open>S\<close> may change too, and so may the agent a hart runs.\<close>

definition isolated :: "nat set \<Rightarrow> nat set \<Rightarrow> kernel \<Rightarrow> kernel \<Rightarrow> bool" where
  "isolated S N k k' \<longleftrightarrow> kernel_wf k' \<and>
     (\<forall>i < MAX_AGENTS. i \<notin> N \<longrightarrow> caps (agent_at k' i) = caps (agent_at k i) \<and> pagetable (agent_at k' i) = pagetable (agent_at k i) \<and>
        (i \<notin> S \<longrightarrow> atf (agent_at k' i) = atf (agent_at k i)))"

lemma isolated_trans: "isolated S N k k1 \<Longrightarrow> isolated S N k1 k2 \<Longrightarrow> isolated S N k k2"
  by (simp add: isolated_def)

lemma spares_isolated: "spares N k k' \<Longrightarrow> isolated S N k k'"
  by (simp add: isolated_def spares_def)

lemma isolated_refl: "kernel_wf k \<Longrightarrow> isolated S N k k"
  by (simp add: isolated_def)

lemma isolated_halted [simp]: "isolated S N k (k'\<lparr>halted := b\<rparr>) = isolated S N k k'"
  by (simp add: isolated_def)

lemma isolated_wf: "isolated S N k k' \<Longrightarrow> kernel_wf k'"
  by (simp add: isolated_def)

text \<open>The agent the trap was taken from may lose its saved registers, unless they are stored already.\<close>

definition may_store :: "kernel \<Rightarrow> nat option \<Rightarrow> trapframe option \<Rightarrow> nat set \<Rightarrow> bool" where
  "may_store k cur src S \<longleftrightarrow> (\<forall>i. cur = Some i \<longrightarrow> i \<in> S \<or> atf (agent_at k i) = src)"

lemma store_isolated: "kernel_wf k \<Longrightarrow> may_store k cur src S \<Longrightarrow> isolated S N k (trapframe_store k cur src)"
  using kernel_wf_upd [of k "\<lambda>x. x\<lparr>atf := src\<rparr>"]
  by (auto simp: isolated_def may_store_def trapframe_store_def agent_at_upd_any split: option.splits)

lemma preempt_isolated:
  assumes "kernel_wf k" "may_store k cur tf S"
  shows "isolated S N k (preempt k cur tf)"
proof -
  have "kernel_wf (trapframe_store k cur tf)" using store_isolated [OF assms] by (rule isolated_wf)
  then have "spares N (trapframe_store k cur tf) (preempt k cur tf)"
    by (auto simp: preempt_def Let_def ident_def split: option.splits
        intro!: spares_refl spares_upd spares_trans [OF _ keeps_spares [OF keeps_rq_add]] intro: spares_wf spares_upd)
  then show ?thesis using isolated_trans [OF store_isolated [OF assms] spares_isolated] by blast
qed

lemma pick_next_bound:
  assumes "pick_next k h = (k1, Some i)"
  shows "i < MAX_AGENTS"
proof -
  have "j < 12" if j: "pick_from_runqueues k h = Some j" for j
  proof -
    let ?P = "\<lambda>i. case agent_get k i of None \<Rightarrow> False
      | Some j \<Rightarrow> astate (agent_at k j) = AGENT_RUNNABLE \<and> running_cpu (agent_at k j) < 0"
    obtain x where x: "find ?P (cpu_rq k ! h) = Some x" "j = nat x"
      using j by (auto simp: pick_from_runqueues_def split: if_splits option.splits)
    then have "?P x" by (auto simp: find_Some_iff)
    then show ?thesis using x(2) by (auto simp: agent_get_def split: if_splits option.splits)
  qed
  then show ?thesis
    using assms by (auto simp: pick_next_def Let_def find_Some_iff split: option.splits)
qed

lemma pick_next_spares: "kernel_wf k \<Longrightarrow> pick_next k h = (k1, r) \<Longrightarrow> spares N k k1"
  by (auto simp: pick_next_def Let_def ident_def split: option.splits intro!: spares_refl spares_upd)

lemma switch_isolated:
  assumes "kernel_wf k" "i < MAX_AGENTS"
  shows "isolated S N k (fst (switch_to k h i))"
proof -
  have c: "kernel_wf (agent_set_current k h (Some i))"
    using assms by (auto simp: agent_set_current_def kernel_wf_def nth_list_update)
  have 1: "isolated S N k (agent_set_current k h (Some i))" using c by (auto simp: isolated_def)
  have r: "spares N (agent_set_current k h (Some i)) (upd_agent (agent_set_current k h (Some i)) i (\<lambda>a. a\<lparr>astate := AGENT_RUNNING, running_cpu := int h\<rparr>))"
    using c by (intro spares_upd spares_refl) (simp_all add: ident_def)
  have "isolated S N k1 (sched_rq_remove k1 x y)" "isolated S N k1 (vm_activate k1 h pt)" "isolated S N k1 (k1\<lparr>halted := True\<rparr>)"
    if "kernel_wf k1" for k1 x y pt
    using that by (auto simp: isolated_def sched_rq_remove_def vm_activate_def kernel_wf_def Let_def agent_at_def)
  note T = isolated_trans [OF _ this(1) [OF isolated_wf]] isolated_trans [OF _ this(2) [OF isolated_wf]] isolated_trans [OF _ this(3) [OF isolated_wf]]
  show ?thesis
    unfolding switch_to_def Let_def
    using isolated_trans [OF 1 spares_isolated [OF r]] by (auto intro!: T)
qed

lemma schedule_isolated:
  assumes "kernel_wf k" "schedule_turn k h tf = (k', t)" "may_store k (cur_idx k h) tf S"
  shows "isolated S N k k'"
proof -
  note P = preempt_isolated [OF assms(1,3), of N]
  obtain k1 r where p: "pick_next (preempt k (cur_idx k h) tf) h = (k1, r)" by fastforce
  have 1: "isolated S N k k1"
    using isolated_trans [OF P spares_isolated [OF pick_next_spares [OF isolated_wf [OF P] p]]] .
  show ?thesis
  proof (cases r)
    case None
    then have "k' = k1 \<or> k' = k1\<lparr>halted := True\<rparr>"
      using assms(2) p by (auto simp: schedule_turn_def sched_halt_if_done_def split: if_splits)
    then show ?thesis using 1 by (auto simp: isolated_def)
  next
    case (Some i)
    then have "k' = fst (switch_to k1 h i)" using assms(2) p by (simp add: schedule_turn_def)
    then show ?thesis using isolated_trans [OF 1 switch_isolated [OF isolated_wf [OF 1]]] pick_next_bound p Some by blast
  qed
qed

lemma trap_schedule_isolated:
  assumes "kernel_wf k" "schedule_trap k h tf = (k', e)" "may_store k (cur_idx k h) (Some tf) S"
  shows "isolated S N k k'"
  using schedule_isolated [OF assms(1) _ assms(3)] assms(2) by (auto simp: schedule_trap_def split: prod.splits turn.splits)

lemma may_store_cur: "set_option cur \<subseteq> S \<Longrightarrow> may_store k cur src S"
  by (auto simp: may_store_def)

lemma store_cur [simp]: "cur_idx (trapframe_store k c src) h = cur_idx k h"
  by (simp add: cur_idx_def)

lemma store_schedule_isolated:
  assumes "kernel_wf k" "schedule_trap (trapframe_store k (cur_idx k h) (Some tf)) h tf = (k', e)" "set_option (cur_idx k h) \<subseteq> S"
  shows "isolated S N k k'"
proof -
  note 1 = store_isolated [OF assms(1) may_store_cur [OF assms(3)], of N "Some tf"]
  have "isolated S N (trapframe_store k (cur_idx k h) (Some tf)) k'"
    using trap_schedule_isolated [OF isolated_wf [OF 1] assms(2)] may_store_cur assms(3) by simp
  then show ?thesis by (rule isolated_trans [OF 1])
qed

lemma sync_isolated:
  assumes "kernel_wf k" "trapframe_sync_local (trapframe_store k (cur_idx k h) (Some tf)) h tf = (k', e)" "set_option (cur_idx k h) \<subseteq> S"
  shows "isolated S N k k'"
proof -
  let ?s = "trapframe_store k (cur_idx k h) (Some tf)"
  note 1 = store_isolated [OF assms(1) may_store_cur [OF assms(3)], of N "Some tf"]
  have "isolated S N ?s (trapframe_store ?s (cur_idx k h) (Some tf))" using store_isolated [OF isolated_wf [OF 1] may_store_cur [OF assms(3)]] .
  note 2 = isolated_trans [OF 1 this]
  then have "isolated S N k ((trapframe_store ?s (cur_idx k h) (Some tf))\<lparr>halted := True\<rparr>)" by (simp add: isolated_def)
  with 2 show ?thesis
    using assms(2) by (auto simp: trapframe_sync_local_def trapframe_sync_def Let_def split: option.splits if_splits)
qed

lemma spares_cur: "spares N k k' \<Longrightarrow> cur_idx k' h = cur_idx k h"
  by (simp add: spares_def cur_idx_def)

definition created :: "kernel \<Rightarrow> u64 \<Rightarrow> trapframe \<Rightarrow> nat set" where
  "created k scause tf = (if scause = 8 then new_slot k (tf_a7 tf) else {})"

lemma ecall_isolated:
  assumes "kernel_wf k" "handle_ecall k h tf = Some (k', e)"
  shows "isolated (set_option (cur_idx k h)) (new_slot k (tf_a7 tf)) k k'"
proof -
  have sync: "isolated (set_option (cur_idx k h)) (new_slot k (tf_a7 tf)) k k'"
    if "spares (new_slot k (tf_a7 tf)) k k1" "trapframe_sync_local (trapframe_store k1 (cur_idx k1 h) (Some tf1)) h tf1 = (k', e)" for k1 tf1
    using isolated_trans [OF spares_isolated [OF that(1)] sync_isolated [OF spares_wf [OF that(1)] that(2)]] by (simp add: spares_cur [OF that(1)])
  have sched: "isolated (set_option (cur_idx k h)) (new_slot k (tf_a7 tf)) k k'"
    if "spares (new_slot k (tf_a7 tf)) k k1" "schedule_trap (trapframe_store k1 (cur_idx k1 h) (Some tf1)) h tf1 = (k', e)" for k1 tf1
    using isolated_trans [OF spares_isolated [OF that(1)] store_schedule_isolated [OF spares_wf [OF that(1)] that(2)]] by (simp add: spares_cur [OF that(1)])
  define t where "t = tf\<lparr>tf_sepc := tf_sepc tf + 4\<rparr>"
  consider (yield) "tf_a7 tf = 5" | (exit) "tf_a7 tf = 9" | (send) "tf_a7 tf = 3" | (other) "tf_a7 tf \<noteq> 5" "tf_a7 tf \<noteq> 9" "tf_a7 tf \<noteq> 3" by blast
  then show ?thesis
  proof cases
    case yield
    then show ?thesis using assms(2) sched [OF spares_refl [OF assms(1)]] by (simp add: handle_ecall_def Let_def)
  next
    case exit
    then show ?thesis using assms(2) sched [OF message_spares(5) [OF assms(1)]] by (simp add: handle_ecall_def Let_def)
  next
    case send
    obtain k1 ret where s: "agent_send k h (as_int (tf_a0 t)) (as_int (tf_a1 t)) (tf_a2 t) = (k1, ret)" by fastforce
    have "spares (new_slot k (tf_a7 tf)) k k1"
      using message_spares(1) [OF assms(1), of _ h "as_int (tf_a0 t)" "as_int (tf_a1 t)" "tf_a2 t"] s by simp
    then show ?thesis using assms(2) send s sync [of k1] by (simp add: handle_ecall_def Let_def t_def)
  next
    case other
    then obtain k1 ret where s: "sched_handle_syscall k h (tf_a7 tf) (tf_a0 t) (tf_a1 t) (tf_a2 t) (tf_a3 t) = Some (k1, ret)"
      using assms(2) by (auto simp: handle_ecall_def Let_def t_def split: option.splits)
    then show ?thesis
      using assms(2) other s sync [OF syscall_spares [OF s assms(1)]] by (simp add: handle_ecall_def Let_def t_def)
  qed
qed

lemma resume_current_state: "resume_current k h = Some (k', e) \<Longrightarrow> k' = k"
  by (auto simp: resume_current_def split: option.splits)

lemma fault_isolated:
  assumes "kernel_wf k" "handle_page_fault k h wr va tf = Some (k', e)"
  shows "isolated (set_option (cur_idx k h)) N k k'"
proof (cases "cur_idx k h")
  case None
  then show ?thesis using assms by (auto simp: handle_page_fault_def kernel_halt_def isolated_refl)
next
  case (Some i)
  obtain v a1 ok where f: "vm_heap_fault (kvm k) (Some (agent_at k i)) va wr = (v, a1, ok)" by (metis prod_cases3)
  define k1 where "k1 = upd_agent (k\<lparr>kvm := v\<rparr>) i (\<lambda>_. the a1)"
  have k1: "spares N k k1" unfolding k1_def
    using heap_fault_ident [OF f] assms(1) by (intro spares_upd_at) (simp_all add: spares_refl)
  note W = spares_wf [OF k1]
  show ?thesis
  proof (cases ok)
    case True
    then have "k' = trapframe_store k1 (Some i) (Some tf)"
      using assms(2) Some f resume_current_state by (simp add: handle_page_fault_def Let_def k1_def)
    then show ?thesis
      using isolated_trans [OF spares_isolated [OF k1] store_isolated [OF W]] Some by (simp add: may_store_def)
  next
    case False
    note X = message_spares(5) [OF W, of _ h 1]
    have s: "schedule_trap (trapframe_store (agent_exit k1 h 1) (cur_idx (agent_exit k1 h 1) h) (Some tf)) h tf = (k', e)"
      using assms(2) Some f False by (simp add: handle_page_fault_def Let_def k1_def)
    note T = store_schedule_isolated [OF spares_wf [OF X] s]
    show ?thesis
      using isolated_trans [OF spares_isolated [OF spares_trans [OF k1 X]] T]
      by (simp add: spares_cur [OF X] spares_cur [OF k1])
  qed
qed

lemma timer_isolated:
  assumes "kernel_wf k" "handle_timer k h tf = Some (k', e)"
  shows "isolated (set_option (cur_idx k h)) N k k'"
  using assms store_schedule_isolated [OF assms(1), of h tf k' e]
  by (auto simp: handle_timer_def kernel_halt_def isolated_refl dest: resume_current_state split: if_splits)

lemma trap_isolated:
  assumes "kernel_wf k" "trap_handler k h scause stval tf = Some (k', e)"
  shows "isolated (set_option (cur_idx k h)) (created k scause tf) k k'"
  using assms ecall_isolated [OF assms(1), of h tf k' e] fault_isolated [OF assms(1), of h _ stval tf k' e]
    timer_isolated [OF assms(1), of h tf k' e]
  by (auto simp: trap_handler_def created_def kernel_halt_def isolated_refl split: if_splits)

section \<open>Preemption\<close>

text \<open>The saved registers of a preempted agent, and what a trap does with the registers it stores.\<close>

lemma timer_saves:
  assumes "kernel_wf k" "cur_idx k h = Some i" "atf (agent_at k i) \<noteq> None" "tf_sstatus tf AND SSTATUS_SPP = 0"
    and "handle_timer k h tf = Some (k', e)"
  shows "atf (agent_at k' i) = Some tf"
proof -
  have i: "i < 12" "length (agents k) = 12" using cur_idx_bound [OF assms(1,2)] assms(1) by (simp_all add: kernel_wf_def)
  let ?s = "trapframe_store k (Some i) (Some tf)"
  have s: "atf (agent_at ?s i) = Some tf" using assms(3) i by (auto simp: trapframe_store_def agent_at_upd_any)
  have w: "kernel_wf ?s" using store_isolated [OF assms(1), of "Some i" "Some tf" "{i}"] by (simp add: may_store_def isolated_def)
  have "isolated {} {} ?s k'"
    using trap_schedule_isolated [OF w, of h tf k' e "{}"] assms(2,4,5) s by (simp add: handle_timer_def may_store_def)
  with s i show ?thesis by (simp add: isolated_def)
qed

text \<open>The handler serves a page fault of the kernel as one of the agent.  When the address is in the agent's heap, the registers of the kernel
  become the agent's saved registers, and the kernel code that faulted continues in user mode.\<close>

lemma kernel_fault_as_user:
  assumes "kernel_wf k" "cur_idx k h = Some i" "atf (agent_at k i) \<noteq> None" "vm_heap_fault (kvm k) (Some (agent_at k i)) va False = (v, Some a, True)"
  shows "\<exists>k'. trap_handler k h 13 va f = Some (k', Resume f) \<and> atf (agent_at k' i) = Some f \<and> tf_sstatus (trap_return f) AND SSTATUS_SPP = 0"
proof -
  have i: "i < 12" "length (agents k) = 12" using cur_idx_bound [OF assms(1,2)] assms(1) by (simp_all add: kernel_wf_def)
  have "ident a = ident (agent_at k i)" using heap_fault_ident [OF assms(4)] by simp
  then have "atf a \<noteq> None" using assms(3) by (simp add: ident_def)
  then show ?thesis
    using assms(2,4) i
    by (simp add: trap_handler_def handle_page_fault_def resume_current_def trapframe_store_def agent_current_def Let_def agent_at_upd_any
        trap_return_eq user_sstatus_spp cur_idx_def split: if_splits)
qed

text \<open>The registers of an agent across a preemption.  When the timer interrupts an agent that runs in user mode with the registers
  \<open>r\<close>, the kernel saves a frame from which its exit code restores all of \<open>r\<close>, with the mode set to user, except for four registers:
  the entry code overwrites \<open>t4\<close>, \<open>t5\<close> and \<open>t6\<close> before it saves them, and the exit code leaves \<open>t0\<close> with the address at
  which the agent continues.\<close>

theorem preempted_registers:
  assumes "kernel_wf k" "cur_idx k h = Some i" "atf (agent_at k i) \<noteq> None" "tf_sstatus r AND SSTATUS_SPP = 0"
    and "trap_handler k h 0x8000000000000005 stval (snd (trap_vector trap_stacks sscratch r)) = Some (k', e)"
  shows "\<exists>f. atf (agent_at k' i) = Some f \<and>
    trap_return f = r\<lparr>tf_t0 := tf_sepc r, tf_t4 := tf_sp r, tf_t5 := sscratch, tf_t6 := TRAP_STACK_SIZE, tf_sstatus := user_sstatus (tf_sstatus r)\<rparr> \<and>
    tf_sstatus (trap_return f) AND SSTATUS_SPP = 0"
proof -
  let ?f = "snd (trap_vector trap_stacks sscratch r)"
  have f: "?f = r\<lparr>tf_t0 := 0, tf_t4 := tf_sp r, tf_t5 := sscratch, tf_t6 := 8192\<rparr>" using trap_frame_user [OF assms(4)] .
  have "handle_timer k h ?f = Some (k', e)" using assms(5) by (simp add: trap_handler_def)
  then have "atf (agent_at k' i) = Some ?f" using timer_saves [OF assms(1-3)] assms(4) f by simp
  then show ?thesis by (simp add: f trap_return_eq user_sstatus_spp)
qed

theorem preempted_registers_witness:
  "\<exists>k' e f. trap_handler demo_kernel 0 0x8000000000000005 0 (snd (trap_vector 0x80300000 0 (zero_tf\<lparr>tf_t5 := 7, tf_s1 := 9\<rparr>))) = Some (k', e) \<and>
     atf (agent_at k' 1) = Some f \<and> tf_t5 (trap_return f) = 0 \<and> tf_s1 (trap_return f) = 9"
proof -
  let ?r = "zero_tf\<lparr>tf_t5 := 7, tf_s1 := 9\<rparr>"
  have r: "tf_sstatus ?r AND SSTATUS_SPP = 0" by (simp add: zero_tf_def)
  have w: "kernel_wf demo_kernel" using home_invD(1) [OF demo_kernel_home] .
  have c: "cur_idx demo_kernel 0 = Some 1" "atf (agent_at demo_kernel 1) \<noteq> None" by (simp_all add: cur_idx_def demo_agent_def)
  have "trap_handler demo_kernel 0 0x8000000000000005 0 (snd (trap_vector 0x80300000 0 ?r)) \<noteq> None"
    using c(1) r by (simp add: trap_handler_def handle_timer_def trap_frame_user)
  then obtain k' e where t: "trap_handler demo_kernel 0 0x8000000000000005 0 (snd (trap_vector 0x80300000 0 ?r)) = Some (k', e)" by auto
  from preempted_registers [OF w c r t] t show ?thesis by fastforce
qed

end
