(* ===== verification/Machine.thy ===== *)
theory Machine
  imports Trap
begin

text \<open>
  The machine: up to four harts that run user code, take traps, and wait in the loops of the scheduler, as a step relation over the
  kernel state and the modes of the harts.  User code changes its registers and the memory its page table lets it write, in any way;
  the steps of the harts interleave arbitrarily.  A step is labelled with the agent whose saved registers it may store and the slot in
  which it may create an agent.  A page fault of the kernel itself, in a system call that uses an unchecked pointer, is a trap from supervisor mode
  that the handler serves like one of the agent (\<open>kernel_fault\<close>); interrupts are off in the kernel.

  The agent table, the saved registers and the page tables are not part of the memory \<open>phys\<close>: in the program they lie in the kernel's data and in blocks of its
  heap, which the allocator never gives out twice.  A store of the kernel to a wrong place can change them, and so can the loader when it maps a page over one of the
  kernel's.  The model does not compute what then happens.  It marks the machine as \<open>broken\<close>, and a broken machine can
  take any step (\<open>undefined\<close>).

  The properties hold for every run that does not break the machine: user code never gets supervisor mode, an agent's capabilities and
  the root of its page table are fixed when it is created, and a preempted agent continues with its registers after any steps of other agents.
\<close>

section \<open>Definitions\<close>

unbundle bit_operations_syntax

text \<open>A hart runs user code, waits in \<open>schedule_trap\<close> with the frame it will store, waits in \<open>sched_cpu_run_loop\<close>, or has stopped.\<close>

datatype hart_mode = Running trapframe | Idle trapframe | Loop | Off

fun mode_after :: "trap_end \<Rightarrow> hart_mode" where
  "mode_after (Resume f) = Running (trap_return f)"
| "mode_after (Waiting tf) = Idle tf"
| "mode_after Parked = Off"
| "mode_after Halted = Off"

fun loop_mode :: "kernel \<Rightarrow> turn \<Rightarrow> hart_mode" where
  "loop_mode k (Turn_run i) = (case atf (agent_at k i) of None \<Rightarrow> Off | Some tf \<Rightarrow> Running (switch_to_agent tf))"
| "loop_mode k Turn_wait = Loop"
| "loop_mode k Turn_park = Off"
| "loop_mode k Turn_halt = Off"

text \<open>The memory user code of a hart can write: pages its page table maps for user mode with write permission.\<close>

definition user_writable :: "kernel \<Rightarrow> nat \<Rightarrow> u64 \<Rightarrow> bool" where
  "user_writable k h x \<longleftrightarrow> (\<exists>pt va e. cpu_satp k ! h = satp_for pt \<and> leaf (kvm k) pt va = Some e \<and>
     e AND PTE_U \<noteq> 0 \<and> e AND PTE_W \<noteq> 0 \<and> x = user_pa (kvm k) pt va)"

record machine =
  mkernel :: kernel
  modes :: "nat \<Rightarrow> hart_mode"
  broken :: bool

text \<open>A step from \<open>k\<close> to \<open>k'\<close> breaks the machine when it leaves a flag for an access outside a buffer or through a wrong pointer, or
  when a page that the kernel's table maps is mapped differently afterwards.\<close>

definition flagged :: "kernel \<Rightarrow> bool" where
  "flagged k \<longleftrightarrow> kbuf_oob k \<or> oob (kfs k) \<or> io_oob (kdisk k)"

definition breaks :: "kernel \<Rightarrow> kernel \<Rightarrow> bool" where
  "breaks k k' \<longleftrightarrow> flagged k' \<or>
     (\<exists>va e. leaf (kvm k) (kernel_pt (kvm k)) va = Some e \<and> leaf (kvm k') (kernel_pt (kvm k)) va \<noteq> Some e)"

definition after :: "machine \<Rightarrow> nat \<Rightarrow> kernel \<Rightarrow> hart_mode \<Rightarrow> machine" where
  "after m h k' md = \<lparr>mkernel = k', modes = (modes m)(h := md), broken = (broken m \<or> breaks (mkernel m) k')\<rparr>"

text \<open>\<open>kernel_fault\<close>: the kernel stops in the middle of a system call, in the state \<open>k1\<close>, at any address and with any registers \<open>r1\<close>, and takes the
  trap from supervisor mode.  \<open>undefined\<close>: the call has no result in the model, or the machine is broken.\<close>

inductive mstep :: "u64 \<Rightarrow> machine \<Rightarrow> nat set \<Rightarrow> nat set \<Rightarrow> machine \<Rightarrow> bool" for trap_stacks :: u64 where
  user: "h < SMP_MAX_HARTS \<Longrightarrow> modes m h = Running r \<Longrightarrow> tf_sstatus r' = tf_sstatus r \<Longrightarrow>
    (\<And>x. p x \<noteq> phys (kvm (mkernel m)) x \<Longrightarrow> user_writable (mkernel m) h x) \<Longrightarrow>
    mstep trap_stacks m {} {} (m\<lparr>mkernel := (mkernel m)\<lparr>kvm := (kvm (mkernel m))\<lparr>phys := p\<rparr>\<rparr>, modes := (modes m)(h := Running r')\<rparr>)"
| trap: "h < SMP_MAX_HARTS \<Longrightarrow> modes m h = Running r \<Longrightarrow> tf = snd (trap_vector trap_stacks (of_nat h) r) \<Longrightarrow>
    trap_handler (mkernel m) h scause stval tf = Some (k', e) \<Longrightarrow>
    mstep trap_stacks m (set_option (cur_idx (mkernel m) h)) (created (mkernel m) scause tf) (after m h k' (mode_after e))"
| kernel_fault: "h < SMP_MAX_HARTS \<Longrightarrow> modes m h = Running r \<Longrightarrow> tf = snd (trap_vector trap_stacks (of_nat h) r) \<Longrightarrow>
    trap_handler (mkernel m) h 8 stval tf = None \<Longrightarrow>
    syscall_fault (mkernel m) h (tf_a7 tf) (tf_a0 tf) (tf_a1 tf) (tf_a2 tf) (tf_a3 tf) = Some k1 \<Longrightarrow>
    tf_sstatus r1 AND SSTATUS_SPP \<noteq> 0 \<Longrightarrow> scause = 13 \<or> scause = 15 \<Longrightarrow>
    trap_handler k1 h scause va (snd (trap_vector trap_stacks (of_nat h) r1)) = Some (k', e) \<Longrightarrow>
    mstep trap_stacks m (set_option (cur_idx (mkernel m) h)) {} (after m h k' (mode_after e))"
| wait: "h < SMP_MAX_HARTS \<Longrightarrow> modes m h = Idle tf \<Longrightarrow> schedule_trap (mkernel m) h tf = (k', e) \<Longrightarrow>
    mstep trap_stacks m (set_option (cur_idx (mkernel m) h)) {} (after m h k' (mode_after e))"
| loop: "h < SMP_MAX_HARTS \<Longrightarrow> modes m h = Loop \<Longrightarrow> run_loop_turn (mkernel m) h = (k', t) \<Longrightarrow>
    mstep trap_stacks m {} {} (after m h k' (loop_mode k' t))"
| console: "mstep trap_stacks m {} {} (m\<lparr>mkernel := (mkernel m)\<lparr>uart_in := uart_in (mkernel m) @ s\<rparr>\<rparr>)"
| clock: "ktime (mkernel m) \<le> t \<Longrightarrow> mstep trap_stacks m {} {} (m\<lparr>mkernel := (mkernel m)\<lparr>ktime := t\<rparr>\<rparr>)"
| undefined: "broken m \<or> (\<exists>h r scause stval. h < SMP_MAX_HARTS \<and> modes m h = Running r \<and>
      trap_handler (mkernel m) h scause stval (snd (trap_vector trap_stacks (of_nat h) r)) = None) \<Longrightarrow>
    broken m' \<Longrightarrow> mstep trap_stacks m UNIV UNIV m'"

inductive mrun :: "u64 \<Rightarrow> machine \<Rightarrow> nat set \<Rightarrow> nat set \<Rightarrow> machine \<Rightarrow> bool" for trap_stacks :: u64 where
  start: "mrun trap_stacks m {} {} m"
| step: "mrun trap_stacks m S N m1 \<Longrightarrow> mstep trap_stacks m1 S' N' m2 \<Longrightarrow> mrun trap_stacks m (S \<union> S') (N \<union> N') m2"

inductive_cases mstepE: "mstep b m S N m'"

definition machine_inv :: "machine \<Rightarrow> bool" where
  "machine_inv m \<longleftrightarrow> kernel_wf (mkernel m) \<and> (\<forall>h r. modes m h = Running r \<longrightarrow> tf_sstatus r AND SSTATUS_SPP = 0)"

section \<open>One step\<close>

lemma loop_isolated:
  assumes "kernel_wf k" "run_loop_turn k h = (k', t)"
  shows "isolated S N k k'"
proof -
  obtain k1 r where p: "pick_next k h = (k1, r)" by fastforce
  note 1 = spares_isolated [OF pick_next_spares [OF assms(1) p], of S N]
  show ?thesis
  proof (cases r)
    case None
    then have "k' = k1 \<or> k' = k1\<lparr>halted := True\<rparr>"
      using assms(2) p by (auto simp: run_loop_turn_def sched_halt_if_done_def split: if_splits)
    then show ?thesis using 1 by auto
  next
    case (Some i)
    then have "k' = fst (switch_to k1 h i)" using assms(2) p by (simp add: run_loop_turn_def)
    then show ?thesis using isolated_trans [OF 1 switch_isolated [OF isolated_wf [OF 1]]] pick_next_bound p Some by blast
  qed
qed

lemma after_simps [simp]:
  "mkernel (after m h k' md) = k'" "modes (after m h k' md) = (modes m)(h := md)"
  "broken (after m h k' md) \<longleftrightarrow> broken m \<or> breaks (mkernel m) k'"
  by (simp_all add: after_def)

lemma step_broken: "mstep b m S N m' \<Longrightarrow> broken m \<Longrightarrow> broken m'"
  by (auto elim: mstepE)

text \<open>The kernel's own fault is a trap from a state that differs from the one at the system call only in what a service changes.\<close>

lemma fault_trap_isolated:
  assumes "kernel_wf k" "syscall_fault k h n a0 a1 a2 a3 = Some k1" "scause = 13 \<or> scause = 15" "trap_handler k1 h scause va f = Some (k', e)"
  shows "isolated (set_option (cur_idx k h)) {} k k'"
proof -
  note K = fault_keeps [OF assms(2)]
  have "created k1 scause f = {}" using assms(3) by (auto simp: created_def)
  with trap_isolated [OF keeps_wf [OF K assms(1)] assms(4)] have "isolated (set_option (cur_idx k h)) {} k1 k'"
    by (simp add: keeps_cur [OF K])
  then show ?thesis using isolated_trans [OF spares_isolated [OF keeps_spares [OF K assms(1)]]] by blast
qed

lemma step_isolated:
  assumes "mstep b m S N m'" "kernel_wf (mkernel m)" "\<not> broken m'"
  shows "isolated S N (mkernel m) (mkernel m')"
  using assms(1)
proof cases
  case (trap h r tf scause stval k' e)
  then show ?thesis using trap_isolated [OF assms(2)] by simp
next
  case (kernel_fault h r tf stval k1 r1 scause va k' e)
  then show ?thesis using fault_trap_isolated [OF assms(2)] by simp
next
  case (wait h tf k' e)
  then show ?thesis using trap_schedule_isolated [OF assms(2)] by (simp add: may_store_cur)
next
  case (loop h k' t)
  then show ?thesis using loop_isolated [OF assms(2)] by simp
qed (use assms(2,3) in \<open>auto simp: isolated_def kernel_wf_def agent_at_def\<close>)

lemma mode_after_user: "mode_after e = Running r \<Longrightarrow> tf_sstatus r AND SSTATUS_SPP = 0"
  by (cases e) (auto simp: trap_return_eq user_sstatus_spp)

lemma loop_mode_user: "loop_mode k t = Running r \<Longrightarrow> tf_sstatus r AND SSTATUS_SPP = 0"
  by (cases t) (auto simp: switch_return_eq trap_return_eq user_sstatus_spp split: option.splits)

lemma step_inv:
  assumes "mstep b m S N m'" "machine_inv m" "\<not> broken m'"
  shows "machine_inv m'"
proof -
  have "kernel_wf (mkernel m')" using isolated_wf [OF step_isolated [OF assms(1)]] assms(2,3) by (simp add: machine_inv_def)
  moreover have "tf_sstatus r AND SSTATUS_SPP = 0" if "modes m' h = Running r" for h r
    using assms(1)
  proof cases
    case (user h1 r1 r2 p)
    then show ?thesis using that assms(2) by (auto simp: machine_inv_def split: if_splits)
  qed (use that assms(2,3) mode_after_user loop_mode_user in \<open>auto simp: machine_inv_def split: if_splits\<close>)
  ultimately show ?thesis by (simp add: machine_inv_def)
qed

section \<open>Switching\<close>

text \<open>A trap keeps the agent of every hart, or gives its own hart an agent and resumes it with its saved registers.\<close>

definition switches :: "kernel \<Rightarrow> nat \<Rightarrow> kernel \<Rightarrow> hart_mode \<Rightarrow> bool" where
  "switches k h k' md \<longleftrightarrow> cpu_current k' = cpu_current k \<or>
     (\<exists>i. cpu_current k' = (cpu_current k)[h := Some i] \<and>
        (\<forall>r. md = Running r \<longrightarrow> (\<exists>f. atf (agent_at k' i) = Some f \<and> r = trap_return f)))"

lemma pick_next_current: "pick_next k h = (k1, r) \<Longrightarrow> cpu_current k1 = cpu_current k"
  by (auto simp: pick_next_def Let_def split: option.splits)

lemma switch_switches:
  assumes "kernel_wf k" "h < SMP_MAX_HARTS" "pick_next k h = (k1, Some i)" "switch_to k1 h i = (k', t)"
  shows "cpu_current k' = (cpu_current k)[h := Some i]"
    "t = (case atf (agent_at k' i) of None \<Rightarrow> Turn_halt | Some f \<Rightarrow> Turn_run i)"
proof -
  have w: "kernel_wf k1" using spares_wf [OF pick_next_spares [OF assms(1,3)]] .
  note s = switch_to_run [OF w assms(2) pick_next_bound [OF assms(3)]]
  show "cpu_current k' = (cpu_current k)[h := Some i]" using s(2) assms(4) pick_next_current [OF assms(3)] by simp
  show "t = (case atf (agent_at k' i) of None \<Rightarrow> Turn_halt | Some f \<Rightarrow> Turn_run i)"
    using s(1) [of i] s(4) assms(4) by (auto split: option.splits)
qed

lemma schedule_switches:
  assumes "kernel_wf k" "h < SMP_MAX_HARTS" "schedule_trap k h tf = (k', e)"
  shows "switches k h k' (mode_after e)"
proof -
  let ?p = "preempt k (cur_idx k h) (Some tf)"
  have w: "kernel_wf ?p" using isolated_wf [OF preempt_isolated [OF assms(1), of _ _ UNIV]] by (simp add: may_store_def)
  obtain k1 r where p: "pick_next ?p h = (k1, r)" by fastforce
  show ?thesis
  proof (cases r)
    case None
    then have "k' = k1 \<or> k' = k1\<lparr>halted := True\<rparr>"
      using assms(3) p by (auto simp: schedule_trap_def schedule_turn_def sched_halt_if_done_def split: if_splits)
    then show ?thesis using pick_next_current [OF p] by (auto simp: switches_def)
  next
    case (Some i)
    obtain k2 t where s: "switch_to k1 h i = (k2, t)" by fastforce
    note S = switch_switches [OF w assms(2) p [unfolded Some] s]
    have "schedule_turn k h (Some tf) = (k2, t)" using p Some s by (simp add: schedule_turn_def)
    then have "k' = k2" "e = (case atf (agent_at k2 i) of None \<Rightarrow> Halted | Some f \<Rightarrow> Resume f)"
      using assms(3) S(2) by (auto simp: schedule_trap_def split: option.splits)
    then show ?thesis using S(1) by (auto simp: switches_def split: option.splits)
  qed
qed

lemma loop_switches:
  assumes "kernel_wf k" "h < SMP_MAX_HARTS" "run_loop_turn k h = (k', t)"
  shows "switches k h k' (loop_mode k' t)"
proof -
  obtain k1 r where p: "pick_next k h = (k1, r)" by fastforce
  show ?thesis
  proof (cases r)
    case None
    then have "k' = k1 \<or> k' = k1\<lparr>halted := True\<rparr>"
      using assms(3) p by (auto simp: run_loop_turn_def sched_halt_if_done_def split: if_splits)
    then show ?thesis using pick_next_current [OF p] by (auto simp: switches_def)
  next
    case (Some i)
    then have "switch_to k1 h i = (k', t)" using assms(3) p by (simp add: run_loop_turn_def)
    note S = switch_switches [OF assms(1,2) p [unfolded Some] this]
    show ?thesis using S by (auto simp: switches_def switch_return_eq split: option.splits)
  qed
qed

lemma switches_after: "cpu_current k1 = cpu_current k \<Longrightarrow> switches k1 h k' md \<Longrightarrow> switches k h k' md"
  by (simp add: switches_def)

lemma store_schedule_switches:
  assumes "kernel_wf k" "h < SMP_MAX_HARTS" "schedule_trap (trapframe_store k c (Some tf)) h tf = (k', e)"
  shows "switches k h k' (mode_after e)"
proof -
  have "kernel_wf (trapframe_store k c (Some tf))" using isolated_wf [OF store_isolated [OF assms(1), of _ _ UNIV]] by (simp add: may_store_def)
  then show ?thesis using switches_after [OF _ schedule_switches [OF _ assms(2,3)]] by simp
qed

lemma sync_current: "trapframe_sync_local k h tf = (k', e) \<Longrightarrow> cpu_current k' = cpu_current k"
  by (auto simp: trapframe_sync_local_def trapframe_sync_def Let_def split: option.splits if_splits)

lemma ecall_switches:
  assumes "kernel_wf k" "h < SMP_MAX_HARTS" "handle_ecall k h tf = Some (k', e)"
  shows "switches k h k' (mode_after e)"
proof -
  define t where "t = tf\<lparr>tf_sepc := tf_sepc tf + 4\<rparr>"
  have sync: "switches k h k' (mode_after e)" if "spares N k k1" "trapframe_sync_local (trapframe_store k1 c (Some tf1)) h tf1 = (k', e)" for N k1 c tf1
    using sync_current [OF that(2)] that(1) by (simp add: switches_def spares_def)
  consider (yield) "tf_a7 tf = 5" | (exit) "tf_a7 tf = 9" | (send) "tf_a7 tf = 3" | (other) "tf_a7 tf \<noteq> 5" "tf_a7 tf \<noteq> 9" "tf_a7 tf \<noteq> 3" by blast
  then show ?thesis
  proof cases
    case yield
    then show ?thesis using assms store_schedule_switches [OF assms(1,2)] by (simp add: handle_ecall_def Let_def)
  next
    case exit
    note X = message_spares(5) [OF assms(1), of "{}" h]
    show ?thesis
      using assms(3) exit switches_after [OF _ store_schedule_switches [OF spares_wf [OF X] assms(2)]] X
      by (simp add: handle_ecall_def Let_def spares_def)
  next
    case send
    obtain k1 ret where s: "agent_send k h (as_int (tf_a0 t)) (as_int (tf_a1 t)) (tf_a2 t) = (k1, ret)" by fastforce
    have "spares {} k k1" using message_spares(1) [OF assms(1), of "{}" h "as_int (tf_a0 t)" "as_int (tf_a1 t)" "tf_a2 t"] s by simp
    then show ?thesis using assms(3) send s sync by (simp add: handle_ecall_def Let_def t_def)
  next
    case other
    then obtain k1 ret where s: "sched_handle_syscall k h (tf_a7 tf) (tf_a0 t) (tf_a1 t) (tf_a2 t) (tf_a3 t) = Some (k1, ret)"
      using assms(3) by (auto simp: handle_ecall_def Let_def t_def split: option.splits)
    then show ?thesis
      using assms(3) other sync [OF syscall_spares [OF s assms(1)]] by (simp add: handle_ecall_def Let_def t_def)
  qed
qed

lemma resume_current_eq: "resume_current k h = Some (k', e) \<Longrightarrow> cpu_current k' = cpu_current k"
  using resume_current_state by blast

lemma trap_switches:
  assumes "kernel_wf k" "h < SMP_MAX_HARTS" "trap_handler k h scause stval tf = Some (k', e)"
  shows "switches k h k' (mode_after e)"
proof -
  have timer: "switches k h k' (mode_after e)" if "handle_timer k h tf = Some (k', e)"
    using that store_schedule_switches [OF assms(1,2)]
    by (auto simp: handle_timer_def kernel_halt_def switches_def dest: resume_current_eq split: if_splits)
  have fault: "switches k h k' (mode_after e)" if f: "handle_page_fault k h wr stval tf = Some (k', e)" for wr
  proof (cases "cur_idx k h")
    case None
    then show ?thesis using f by (auto simp: handle_page_fault_def kernel_halt_def switches_def)
  next
    case (Some i)
    obtain v a1 ok where g: "vm_heap_fault (kvm k) (Some (agent_at k i)) stval wr = (v, a1, ok)" by (metis prod_cases3)
    define k1 where "k1 = upd_agent (k\<lparr>kvm := v\<rparr>) i (\<lambda>_. the a1)"
    have k1: "spares {} k k1" unfolding k1_def
      using heap_fault_ident [OF g] assms(1) by (intro spares_upd_at) (simp_all add: spares_refl)
    note X = spares_trans [OF k1 message_spares(5) [OF spares_wf [OF k1], of "{}" h 1]]
    show ?thesis
      using f Some g switches_after [OF _ store_schedule_switches [OF spares_wf [OF X] assms(2)]] X k1 resume_current_eq
      by (cases ok) (auto simp: handle_page_fault_def Let_def k1_def [symmetric] spares_def switches_def dest!: resume_current_eq)
  qed
  show ?thesis
    using assms timer fault ecall_switches [OF assms(1,2)]
    by (auto simp: trap_handler_def kernel_halt_def switches_def split: if_splits)
qed

lemma fault_switches:
  assumes "kernel_wf k" "h < SMP_MAX_HARTS" "syscall_fault k h n a0 a1 a2 a3 = Some k1" "trap_handler k1 h scause va f = Some (k', e)"
  shows "switches k h k' (mode_after e)"
  using fault_keeps [OF assms(3)] switches_after [OF _ trap_switches [OF keeps_wf [OF fault_keeps [OF assms(3)] assms(1)] assms(2,4)]]
  by (simp add: keeps_def)

lemma step_switch:
  assumes "mstep b m S N m'" "kernel_wf (mkernel m)" "modes m' h = Running r"
    and "cur_idx (mkernel m') h = Some i" "cur_idx (mkernel m) h \<noteq> Some i" "\<not> broken m'"
  shows "\<exists>f. atf (agent_at (mkernel m') i) = Some f \<and> r = trap_return f"
proof -
  have on: "\<exists>f. atf (agent_at k' i) = Some f \<and> r = trap_return f"
    if "switches (mkernel m) h1 k' md" "cur_idx k' h = Some i" "((modes m)(h1 := md)) h = Running r" for h1 k' md
  proof -
    have l: "h < 4" "length (cpu_current (mkernel m)) = 4" "cpu_current k' ! h = Some i"
      using that(2) assms(2) by (auto simp: cur_idx_def kernel_wf_def split: if_splits)
    have ne: "cpu_current k' \<noteq> cpu_current (mkernel m)" using that(2) assms(5) by (auto simp: cur_idx_def split: if_splits)
    with that(1) obtain j where j: "cpu_current k' = (cpu_current (mkernel m))[h1 := Some j]"
        "md = Running r \<Longrightarrow> \<exists>f. atf (agent_at k' j) = Some f \<and> r = trap_return f" by (auto simp: switches_def)
    have "h1 = h" using j(1) l assms(5) by (cases "h1 = h") (auto simp: cur_idx_def split: if_splits)
    with j l that(3) show ?thesis by simp
  qed
  from assms(1) show ?thesis
  proof cases
    case (trap h1 r1 tf scause stval k' e)
    then show ?thesis using on [OF trap_switches [OF assms(2)]] assms(3,4) by simp
  next
    case (kernel_fault h1 r tf stval k1 r1 scause va k' e)
    then show ?thesis using on [OF fault_switches [OF assms(2)]] assms(3,4) by simp
  next
    case (wait h1 tf k' e)
    then show ?thesis using on [OF schedule_switches [OF assms(2)]] assms(3,4) by simp
  next
    case (loop h1 k' t)
    then show ?thesis using on [OF loop_switches [OF assms(2)]] assms(3,4) by simp
  qed (use assms(4-6) in \<open>auto simp: cur_idx_def split: if_splits\<close>)
qed

section \<open>Runs\<close>

lemma run_broken: "mrun b m S N m' \<Longrightarrow> broken m \<Longrightarrow> broken m'"
  by (induction rule: mrun.induct) (auto intro: step_broken)

lemma run_inv: "mrun b m S N m' \<Longrightarrow> machine_inv m \<Longrightarrow> \<not> broken m' \<Longrightarrow> machine_inv m'"
  by (induction rule: mrun.induct) (auto intro: step_inv dest: step_broken)

lemma run_isolated:
  assumes "mrun b m S N m'" "machine_inv m" "\<not> broken m'"
  shows "isolated S N (mkernel m) (mkernel m')"
  using assms
proof (induction rule: mrun.induct)
  case (start m)
  then show ?case by (simp add: isolated_refl machine_inv_def)
next
  case (step m S N m1 S' N' m2)
  have u: "\<not> broken m1" using step_broken [OF step.hyps(2)] step.prems(2) by blast
  then have "kernel_wf (mkernel m1)" using run_inv [OF step.hyps(1) step.prems(1)] by (simp add: machine_inv_def)
  with step_isolated [OF step.hyps(2) _ step.prems(2)] step.IH [OF step.prems(1) u] show ?case by (auto simp: isolated_def)
qed

text \<open>C34: User code never runs in supervisor mode and the kernel's tables stay well formed, in every state that a run
  of the machine reaches, however the harts interleave, whatever user code does, and whichever traps it takes, page faults of the kernel included.
  The run must not have broken the machine: no store of the kernel outside a buffer or through an agent's unchecked pointer to
  the kernel's own memory, no mapping of the kernel replaced, no system call without a result in the model.\<close>

theorem user_mode_only:
  assumes "mrun trap_stacks m S N m'" "machine_inv m" "\<not> broken m'"
  shows "kernel_wf (mkernel m') \<and> (\<forall>h r. modes m' h = Running r \<longrightarrow> tf_sstatus r AND SSTATUS_SPP = 0)"
  using run_inv [OF assms] by (simp add: machine_inv_def)

text \<open>C35: The capabilities of an agent and the root of its page table are fixed when it is created: over any run that does not break the machine, with all harts,
  system calls, faults and interrupts, they stay the same for every agent in whose slot the run creates no new agent.  The saved registers stay the same
  too when the agent neither runs nor is the last one a waiting hart ran.  This is about the root, the address the hart gets when it switches to the
  agent; the tables below it change when memory is mapped.\<close>

theorem authority_fixed:
  assumes "mrun trap_stacks m S N m'" "machine_inv m" "\<not> broken m'" "i < MAX_AGENTS" "i \<notin> N"
  shows "caps (agent_at (mkernel m') i) = caps (agent_at (mkernel m) i) \<and>
    pagetable (agent_at (mkernel m') i) = pagetable (agent_at (mkernel m) i) \<and>
    (i \<notin> S \<longrightarrow> atf (agent_at (mkernel m') i) = atf (agent_at (mkernel m) i))"
  using run_isolated [OF assms(1-3)] assms(4,5) by (simp add: isolated_def)

text \<open>C36: A preempted agent continues where it was.  The timer interrupts agent \<open>i\<close>, which runs with the registers \<open>r\<close>; then any steps of the
  machine follow in which \<open>i\<close> does not run and its slot is not given to a new agent; then a step makes some hart run
  \<open>i\<close> again.  The hart then has the registers \<open>r\<close>, in user mode, except for \<open>t0\<close>, \<open>t4\<close>, \<open>t5\<close> and \<open>t6\<close>, if the steps
  have not broken the machine.\<close>

theorem preempted_agent_continues:
  assumes "machine_inv m" "h < SMP_MAX_HARTS" "modes m h = Running r" "cur_idx (mkernel m) h = Some i" "atf (agent_at (mkernel m) i) \<noteq> None"
    and "trap_handler (mkernel m) h 0x8000000000000005 stval (snd (trap_vector trap_stacks (of_nat h) r)) = Some (k1, e)"
    and "mrun trap_stacks (after m h k1 (mode_after e)) S N m2" "i \<notin> S" "i \<notin> N"
    and "mstep trap_stacks m2 S' N' m3" "i \<notin> S'" "i \<notin> N'" "\<not> broken m3"
    and "cur_idx (mkernel m2) h' \<noteq> Some i" "cur_idx (mkernel m3) h' = Some i" "modes m3 h' = Running r'"
  shows "r' = r\<lparr>tf_t0 := tf_sepc r, tf_t4 := tf_sp r, tf_t5 := of_nat h, tf_t6 := TRAP_STACK_SIZE, tf_sstatus := user_sstatus (tf_sstatus r)\<rparr>"
proof -
  let ?f = "snd (trap_vector trap_stacks (of_nat h) r)"
  define m1 where "m1 = after m h k1 (mode_after e)"
  have w: "kernel_wf (mkernel m)" and u: "tf_sstatus r AND SSTATUS_SPP = 0" using assms(1,3) by (auto simp: machine_inv_def)
  have i: "i < 12" using cur_idx_bound [OF w assms(4)] by simp
  have f: "?f = r\<lparr>tf_t0 := 0, tf_t4 := tf_sp r, tf_t5 := of_nat h, tf_t6 := 8192\<rparr>" using trap_frame_user [OF u] .
  have b2: "\<not> broken m2" using step_broken [OF assms(10)] assms(13) by blast
  have b1: "\<not> broken m1" using run_broken [OF assms(7) [folded m1_def]] b2 by blast
  have 1: "atf (agent_at k1 i) = Some ?f"
    using timer_saves [OF w assms(4,5), of ?f k1 e] assms(6) u f by (simp add: trap_handler_def)
  have I: "machine_inv m1" using step_inv [OF mstep.trap [OF assms(2,3) refl assms(6)] assms(1)] b1 by (simp add: m1_def)
  have 2: "atf (agent_at (mkernel m2) i) = Some ?f"
    using run_isolated [OF assms(7) [folded m1_def] I b2] 1 assms(8,9) i by (simp add: isolated_def m1_def)
  have I2: "machine_inv m2" using run_inv [OF assms(7) [folded m1_def] I b2] .
  then have "isolated S' N' (mkernel m2) (mkernel m3)" using step_isolated [OF assms(10) _ assms(13)] by (simp add: machine_inv_def)
  with 2 assms(11,12) i have 3: "atf (agent_at (mkernel m3) i) = Some ?f" by (simp add: isolated_def)
  from step_switch [OF assms(10) _ assms(16,15,14,13)] I2 3 have "r' = trap_return ?f" by (auto simp: machine_inv_def)
  then show ?thesis by (simp add: f trap_return_eq)
qed

section \<open>A machine of one hart and two agents\<close>

definition pair_agent :: "nat \<Rightarrow> agent" where
  "pair_agent i = \<lparr>aid = int i, aname = [],
     astate = (if i = 1 then AGENT_RUNNING else if i = 2 then AGENT_RUNNABLE else AGENT_UNUSED), aphase = AGENT_PHASE_IDLE,
     stack_base = 0, atf = Some (if i = 2 then zero_tf\<lparr>tf_sepc := 64\<rparr> else zero_tf), caps = 0,
     inbox = \<lparr>normal = [], normal_head = 0, normal_tail = 0, normal_count = 0, steer = [], steer_head = 0, steer_tail = 0, steer_count = 0\<rparr>,
     exit_code = 0, aentry = 0, pagetable = 0, heap_base = 0, heap_max_pages = 0, heap_mapped = 0, home_cpu = 0,
     running_cpu = (if i = 1 then 0 else - 1)\<rparr>"

definition pair_kernel :: kernel where
  "pair_kernel = \<lparr>agents = map pair_agent [0..<12], agent_count = 2, cpu_current = [Some 1, None, None, None],
     cpu_rq = [[2], [], [], []], rr_next = 0, kernel_sched_ready = False, online_harts = 1,
     hart_ticks = [0, 0, 0, 0], cpu_satp = [0, 0, 0, 0], kvm = boot_vm, kquota = quota_init, kfs = \<lparr>files = [], oob = False\<rparr>,
     kpol = open_policy, kdisk = demo_persist, uart_out = [], uart_in = [], ktime = 0, kgp = 0,
     junk_check = [], junk_run = [], halted = False, kbuf_oob = False,
     kworld = offline, remote_enabled = False, llm_stream_buf = []\<rparr>"

definition pair_regs :: trapframe where
  "pair_regs = zero_tf\<lparr>tf_sp := 512, tf_s1 := 9, tf_t5 := 7, tf_sepc := 32\<rparr>"

definition pair_machine :: machine where
  "pair_machine = \<lparr>mkernel = pair_kernel, modes = (\<lambda>h. if h = 0 then Running pair_regs else Off), broken = False\<rparr>"

abbreviation (input) first_frame :: trapframe where
  "first_frame \<equiv> snd (trap_vector 0x80300000 0 pair_regs)"

abbreviation (input) second_frame :: trapframe where
  "second_frame \<equiv> snd (trap_vector 0x80300000 0 (trap_return (zero_tf\<lparr>tf_sepc := 64\<rparr>)))"

lemma pair_turns:
  "(case trap_handler pair_kernel 0 0x8000000000000005 0 first_frame of
      None \<Rightarrow> None
    | Some (k1, e1) \<Rightarrow>
        (case trap_handler k1 0 0x8000000000000005 0 second_frame of
           None \<Rightarrow> None
         | Some (k2, e2) \<Rightarrow> Some (cpu_current k1 ! 0, e1, cpu_current k2 ! 0, e2, flagged k1, flagged k2))) =
     Some (Some 2, Resume (zero_tf\<lparr>tf_sepc := 64\<rparr>), Some 1, Resume first_frame, False, False)"
  by code_simp

text \<open>A timer interrupt changes no memory and no page table.\<close>

lemma turn_kvm: "kvm (fst (schedule_turn k h tf)) = kvm k"
proof -
  have p: "kvm (preempt k c tf) = kvm k" for c by (auto simp: preempt_def trapframe_store_def Let_def sched_rq_add_def split: option.splits)
  have n: "kvm k1 = kvm k2" if "pick_next k2 h = (k1, r)" for k1 k2 r using that by (auto simp: pick_next_def Let_def split: option.splits)
  have s: "kvm (fst (switch_to k2 h i)) = kvm k2" for k2 i
    by (simp add: switch_to_def Let_def vm_activate_def sched_rq_remove_def agent_set_current_def)
  show ?thesis
    using p n s by (auto simp: schedule_turn_def sched_halt_if_done_def split: prod.splits option.splits)
qed

lemma timer_kvm: "trap_handler k h 0x8000000000000005 v tf = Some (k', e) \<Longrightarrow> kvm k' = kvm k"
  using turn_kvm [of "trapframe_store k (cur_idx k h) (Some tf)" h "Some tf"]
  by (auto simp: trap_handler_def handle_timer_def kernel_halt_def schedule_trap_def trapframe_store_def dest!: resume_current_state
      split: if_splits prod.splits turn.splits option.splits)

lemma timer_unbroken:
  "trap_handler k h 0x8000000000000005 v tf = Some (k', e) \<Longrightarrow> \<not> flagged k' \<Longrightarrow> \<not> breaks k k'"
  using timer_kvm [of k h v tf k' e] by (auto simp: breaks_def)

lemma pair_inv: "machine_inv pair_machine"
proof -
  have "kernel_wf pair_kernel" by (auto simp: kernel_wf_def pair_kernel_def pair_agent_def less_Suc_eq numeral_eq_Suc)
  then show ?thesis by (auto simp: machine_inv_def pair_machine_def pair_regs_def zero_tf_def)
qed

lemma pair_steps:
  obtains k1 k2 where "trap_handler pair_kernel 0 0x8000000000000005 0 first_frame = Some (k1, Resume (zero_tf\<lparr>tf_sepc := 64\<rparr>))"
    "trap_handler k1 0 0x8000000000000005 0 second_frame = Some (k2, Resume first_frame)" "cur_idx k1 0 = Some 2" "cur_idx k2 0 = Some 1"
    "\<not> breaks pair_kernel k1" "\<not> breaks k1 k2"
  using pair_turns timer_unbroken by (fastforce simp: cur_idx_def split: option.splits prod.splits)

lemma pair_first:
  assumes "trap_handler pair_kernel 0 0x8000000000000005 0 first_frame = Some (k1, e)"
  shows "mstep 0x80300000 pair_machine {1} {} (after pair_machine 0 k1 (mode_after e))"
  using mstep.trap [of 0 pair_machine pair_regs first_frame "0x80300000" "0x8000000000000005" 0 k1 e] assms
  by (simp add: pair_machine_def pair_kernel_def [THEN arg_cong [of _ _ cpu_current]] cur_idx_def created_def)

lemma pair_machine_simps [simp]: "mkernel pair_machine = pair_kernel" "modes pair_machine 0 = Running pair_regs" "\<not> broken pair_machine"
  by (simp_all add: pair_machine_def)

theorem user_mode_only_witness:
  "\<exists>m' S N r. mrun 0x80300000 pair_machine S N m' \<and> \<not> broken m' \<and> modes m' 0 = Running r \<and> tf_sepc r = 64 \<and> tf_sstatus r AND SSTATUS_SPP = 0"
proof -
  obtain k1 k2 where t: "trap_handler pair_kernel 0 0x8000000000000005 0 first_frame = Some (k1, Resume (zero_tf\<lparr>tf_sepc := 64\<rparr>))"
    "\<not> breaks pair_kernel k1" by (rule pair_steps)
  define m' where "m' = after pair_machine 0 k1 (mode_after (Resume (zero_tf\<lparr>tf_sepc := 64\<rparr>)))"
  have r: "mrun 0x80300000 pair_machine {1} {} m'" using mrun.step [OF mrun.start pair_first [OF t(1)]] by (simp add: m'_def)
  have b: "\<not> broken m'" using t(2) by (simp add: m'_def)
  let ?r = "trap_return (zero_tf\<lparr>tf_sepc := 64\<rparr>)"
  have m: "modes m' 0 = Running ?r" by (simp add: m'_def)
  have u: "tf_sstatus ?r AND SSTATUS_SPP = 0"
    using user_mode_only [OF r pair_inv b] m by blast
  have "tf_sepc ?r = 64" by (simp add: trap_return_eq)
  then show ?thesis using r b m u by blast
qed

theorem authority_fixed_witness:
  "\<exists>m' S N. mrun 0x80300000 pair_machine S N m' \<and> \<not> broken m' \<and> modes m' 0 \<noteq> modes pair_machine 0 \<and>
     caps (agent_at (mkernel m') 1) = caps (agent_at pair_kernel 1) \<and> atf (agent_at (mkernel m') 3) = atf (agent_at pair_kernel 3)"
proof -
  obtain k1 k2 where t: "trap_handler pair_kernel 0 0x8000000000000005 0 first_frame = Some (k1, Resume (zero_tf\<lparr>tf_sepc := 64\<rparr>))"
    "\<not> breaks pair_kernel k1" by (rule pair_steps)
  define m' where "m' = after pair_machine 0 k1 (mode_after (Resume (zero_tf\<lparr>tf_sepc := 64\<rparr>)))"
  have r: "mrun 0x80300000 pair_machine {1} {} m'" using mrun.step [OF mrun.start pair_first [OF t(1)]] by (simp add: m'_def)
  have b: "\<not> broken m'" using t(2) by (simp add: m'_def)
  have "trap_return (zero_tf\<lparr>tf_sepc := 64\<rparr>) \<noteq> pair_regs" by (simp add: trap_return_eq pair_regs_def zero_tf_def)
  then have "modes m' 0 \<noteq> modes pair_machine 0" by (simp add: m'_def)
  with r b show ?thesis using authority_fixed [OF r pair_inv b, of 1] authority_fixed [OF r pair_inv b, of 3] by auto
qed

theorem preempted_agent_continues_witness:
  "\<exists>k1 k2 f. trap_handler pair_kernel 0 0x8000000000000005 0 first_frame = Some (k1, Resume (zero_tf\<lparr>tf_sepc := 64\<rparr>)) \<and>
     trap_handler k1 0 0x8000000000000005 0 second_frame = Some (k2, Resume f) \<and>
     tf_s1 (trap_return f) = 9 \<and> tf_sp (trap_return f) = 512 \<and> tf_t5 (trap_return f) = 0"
proof -
  obtain k1 k2 where t: "trap_handler pair_kernel 0 0x8000000000000005 0 first_frame = Some (k1, Resume (zero_tf\<lparr>tf_sepc := 64\<rparr>))"
    "trap_handler k1 0 0x8000000000000005 0 second_frame = Some (k2, Resume first_frame)" "cur_idx k1 0 = Some 2" "cur_idx k2 0 = Some 1"
    "\<not> breaks pair_kernel k1" "\<not> breaks k1 k2"
    by (rule pair_steps)
  define m1 where "m1 = after pair_machine 0 k1 (mode_after (Resume (zero_tf\<lparr>tf_sepc := 64\<rparr>)))"
  have s: "mstep 0x80300000 m1 {2} {} (after m1 0 k2 (mode_after (Resume first_frame)))"
    using mstep.trap [of 0 m1 "trap_return (zero_tf\<lparr>tf_sepc := 64\<rparr>)" second_frame "0x80300000" "0x8000000000000005" 0 k2 "Resume first_frame"] t(2,3)
    by (simp add: m1_def created_def)
  have b: "\<not> broken (after m1 0 k2 (mode_after (Resume first_frame)))" using t(5,6) by (simp add: m1_def)
  have c: "cur_idx (mkernel pair_machine) 0 = Some 1" "atf (agent_at (mkernel pair_machine) 1) \<noteq> None" "modes pair_machine 0 = Running pair_regs"
    by (simp_all add: pair_kernel_def cur_idx_def agent_at_def pair_agent_def)
  have t1: "trap_handler (mkernel pair_machine) 0 0x8000000000000005 0 (snd (trap_vector 0x80300000 (of_nat 0) pair_regs)) =
      Some (k1, Resume (zero_tf\<lparr>tf_sepc := 64\<rparr>))" using t(1) by simp
  have "trap_return first_frame = pair_regs\<lparr>tf_t0 := tf_sepc pair_regs, tf_t4 := tf_sp pair_regs, tf_t5 := of_nat 0, tf_t6 := TRAP_STACK_SIZE,
      tf_sstatus := user_sstatus (tf_sstatus pair_regs)\<rparr>"
    by (rule preempted_agent_continues [OF pair_inv _ c(3,1,2) t1 mrun.start _ _ s [unfolded m1_def], of 0])
      (use t(3,4) b in \<open>simp_all add: m1_def\<close>)
  with t(1,2) show ?thesis by (auto simp: pair_regs_def)
qed

end
