(* ===== verification/Kmap.thy ===== *)
theory Kmap
  imports Agent_Msg
begin

text \<open>
  The kernel's address space: \<^verbatim>\<open>vm_init\<close> of \<^verbatim>\<open>vm.c\<close>, with the sections of \<^verbatim>\<open>linker.ld\<close> and the devices of
  \<^verbatim>\<open>platform_riscv_virt.c\<close>.  The addresses the linker chooses are the fields of an \<open>image\<close>.

  The table pages a walk allocates are counted exactly.  From the counts it follows that \<^verbatim>\<open>vm_init\<close> never runs out of table
  pages, and the translations of the kernel table are determined for every address.
\<close>

section \<open>Definitions\<close>

unbundle bit_operations_syntax

abbreviation (input) LD_START :: u64 where "LD_START \<equiv> 0x80200000"

abbreviation (input) USER_TEXT_START :: u64 where "USER_TEXT_START \<equiv> 0x80400000"

abbreviation (input) PTPOOL_START :: u64 where "PTPOOL_START \<equiv> 0x80800000"

abbreviation (input) PTPOOL_END :: u64 where "PTPOOL_END \<equiv> 0x80840000"

abbreviation (input) HEAP_MAP_SIZE :: u64 where "HEAP_MAP_SIZE \<equiv> 0x200000"

abbreviation (input) ACLINT_MSWI_BASE :: u64 where "ACLINT_MSWI_BASE \<equiv> 0x02000000"

abbreviation (input) PLATFORM_UART_MMIO :: u64 where "PLATFORM_UART_MMIO \<equiv> 0x10000000"

abbreviation (input) PLATFORM_VIRTIO_MMIO_BASE :: u64 where "PLATFORM_VIRTIO_MMIO_BASE \<equiv> 0x10001000"

abbreviation (input) PLATFORM_VIRTIO_MMIO_STRIDE :: u64 where "PLATFORM_VIRTIO_MMIO_STRIDE \<equiv> 0x1000"

abbreviation (input) PLATFORM_VIRTIO_MMIO_COUNT :: int where "PLATFORM_VIRTIO_MMIO_COUNT \<equiv> 8"

text \<open>What the linker computes: the symbols \<^verbatim>\<open>_erodata\<close>, \<^verbatim>\<open>_end\<close>, \<^verbatim>\<open>_user_bss_start\<close>, \<^verbatim>\<open>_user_end\<close> and the address of the root table.\<close>

record image =
  im_erodata :: u64
  im_end :: u64
  im_user_bss_start :: u64
  im_user_end :: u64
  im_root_table :: u64

definition then_map :: "(vm \<times> int) option \<Rightarrow> (vm \<Rightarrow> (vm \<times> int) option) \<Rightarrow> (vm \<times> int) option" where
  "then_map r f =
     (case r of
        None \<Rightarrow> None
      | Some (vm, rc) \<Rightarrow> if rc \<noteq> 0 then Some (vm, - 1) else f vm)"

definition map_mmio :: "vm \<Rightarrow> u64 \<Rightarrow> (vm \<times> int) option" where
  "map_mmio vm pt =
     (let uart = PLATFORM_UART_MMIO;
          vio = PLATFORM_VIRTIO_MMIO_BASE;
          count = PLATFORM_VIRTIO_MMIO_COUNT;
          vio_size = of_int count * PLATFORM_VIRTIO_MMIO_STRIDE
      in then_map (vm_map_region vm pt uart uart 0x1000 (PTE_R OR PTE_W)) (\<lambda>vm1.
         then_map (vm_map_region vm1 pt ACLINT_MSWI_BASE ACLINT_MSWI_BASE 0x8000 (PTE_R OR PTE_W)) (\<lambda>vm2.
         if count > 0 \<and> vio_size > 0
         then then_map (vm_map_region vm2 pt vio vio vio_size (PTE_R OR PTE_W)) (\<lambda>vm3. Some (vm3, 0))
         else Some (vm2, 0))))"

definition map_kernel :: "image \<Rightarrow> vm \<Rightarrow> u64 \<Rightarrow> (vm \<times> int) option" where
  "map_kernel im vm pt =
     then_map (vm_map_region vm pt LD_START LD_START (im_erodata im - LD_START) (PTE_R OR PTE_X)) (\<lambda>vm1.
       let data_start = pa_round_up (im_erodata im)
       in then_map
            (if data_start < im_end im
             then vm_map_region vm1 pt data_start data_start (im_end im - data_start) (PTE_R OR PTE_W)
             else Some (vm1, 0)) (\<lambda>vm2.
          then_map (vm_map_region vm2 pt platform_heap_start platform_heap_start HEAP_MAP_SIZE (PTE_R OR PTE_W)) (\<lambda>vm3.
          then_map (vm_map_region vm3 pt PTPOOL_START PTPOOL_START (PTPOOL_END - PTPOOL_START) (PTE_R OR PTE_W)) (\<lambda>vm4.
          map_mmio vm4 pt))))"

definition vm_map_user_text :: "image \<Rightarrow> vm \<Rightarrow> u64 \<Rightarrow> (vm \<times> int) option" where
  "vm_map_user_text im vm pt =
     (let code_size = im_user_bss_start im - USER_TEXT_START;
          bss_size = im_user_end im - im_user_bss_start im
      in if code_size = 0 \<and> bss_size = 0 then Some (vm, 0)
         else
           then_map
             (if code_size > 0
              then vm_map_region vm pt USER_TEXT_START USER_TEXT_START
                     (if code_size < PAGE_SIZE then PAGE_SIZE else code_size) (PTE_U OR PTE_R OR PTE_X)
              else Some (vm, 0)) (\<lambda>vm1.
           then_map
             (if bss_size > 0
              then vm_map_region vm1 pt (im_user_bss_start im) (im_user_bss_start im)
                     (if bss_size < PAGE_SIZE then PAGE_SIZE else bss_size) (PTE_U OR PTE_R OR PTE_W)
              else Some (vm1, 0)) (\<lambda>vm2. Some (vm2, 0))))"

definition vm_reset :: "image \<Rightarrow> vm \<Rightarrow> vm" where
  "vm_reset im vm = vm\<lparr>pt_next := 0, kernel_pt := im_root_table im, ptes := (ptes vm)(im_root_table im := (\<lambda>_. 0))\<rparr>"

definition vm_init :: "image \<Rightarrow> kernel \<Rightarrow> nat \<Rightarrow> kernel option" where
  "vm_init im k h =
     (let vm0 = vm_reset im (kvm k)
      in case map_kernel im vm0 (kernel_pt vm0) of
           None \<Rightarrow> None
         | Some (vm1, rc) \<Rightarrow>
             if rc \<noteq> 0 then Some (k\<lparr>kvm := vm1\<rparr>)
             else (case vm_map_user_text im vm1 (kernel_pt vm1) of
                     None \<Rightarrow> None
                   | Some (vm2, rc2) \<Rightarrow>
                       if rc2 \<noteq> 0 then Some (k\<lparr>kvm := vm2\<rparr>)
                       else Some (vm_activate (k\<lparr>kvm := vm2\<rparr>) h (kernel_pt vm2))))"

text \<open>The layout \<^verbatim>\<open>linker.ld\<close> and the alignment attributes of \<^verbatim>\<open>vm.c\<close> give, for user programs that end before the heap.\<close>

definition image_ok :: "image \<Rightarrow> bool" where
  "image_ok im \<longleftrightarrow> LD_START \<le> im_erodata im \<and> im_erodata im \<le> im_end im \<and> im_end im \<le> USER_TEXT_START \<and>
     USER_TEXT_START \<le> im_user_bss_start im \<and> aligned (im_user_bss_start im) \<and> im_user_bss_start im \<le> im_user_end im \<and>
     im_user_end im \<le> platform_heap_start \<and>
     LD_START \<le> im_root_table im \<and> aligned (im_root_table im) \<and> im_root_table im < im_end im"

section \<open>Counting table pages\<close>

definition tops :: "vm \<Rightarrow> u64 \<Rightarrow> nat set" where
  "tops vm r = {i. i < 512 \<and> pte_valid (ptes vm r i)}"

definition mids :: "vm \<Rightarrow> u64 \<Rightarrow> (nat \<times> nat) set" where
  "mids vm r = {(i, j). i < 512 \<and> j < 512 \<and> pte_valid (ptes vm r i) \<and>
     pte_valid (ptes vm (vm_pte_pa (ptes vm r i)) j)}"

lemma finite_tops [simp]: "finite (tops vm r)" "finite (mids vm r)"
proof -
  show "finite (tops vm r)" by (simp add: tops_def)
  have "mids vm r \<subseteq> {..<512} \<times> {..<512}" by (auto simp: mids_def)
  then show "finite (mids vm r)" by (rule finite_subset) simp
qed

lemma grow_root_tops:
  assumes "pool_ok vm" "pt_next vm < 64" "pt_tree vm r" "i < 512" "\<not> pte_valid (ptes vm r i)"
  shows "tops (grow vm r i) r = insert i (tops vm r)" "mids (grow vm r i) r = mids vm r"
proof -
  let ?f = "pool_table vm (pt_next vm)"
  have f: "?f \<notin> tables vm" "aligned ?f" using fresh_table [OF assms(1,2)] pool_table_aligned [OF assms(1,2)] .
  have r: "r \<in> tables vm" using pt_treeD(1) [OF assms(3)] .
  note g = grow_ptes [OF assms(1,2) r]
  show "tops (grow vm r i) r = insert i (tops vm r)" using assms(4) f r by (auto simp: tops_def g)
  have k: "vm_pte_pa (ptes vm r j) \<noteq> r \<and> vm_pte_pa (ptes vm r j) \<noteq> ?f" if "j < 512" "pte_valid (ptes vm r j)" for j
    using kidI [OF that] pt_treeD(3) [OF assms(3)] f(1) by (auto simp: tables_def)
  show "mids (grow vm r i) r = mids vm r"
  proof -
    have rf: "r \<noteq> ?f" using f r by auto
    have "ptes (grow vm r i) r j = (if j = i then table_pte ?f else ptes vm r j)" for j using rf by (simp add: g)
    moreover have "ptes (grow vm r i) ?f j = 0" for j using rf by (simp add: g)
    moreover have "ptes (grow vm r i) (vm_pte_pa (ptes vm r j)) x = ptes vm (vm_pte_pa (ptes vm r j)) x"
      if "j < 512" "pte_valid (ptes vm r j)" for j x using k [OF that] by (simp add: g)
    ultimately show ?thesis using assms(5) f(2) by (auto simp: mids_def split: if_splits)
  qed
qed

lemma grow_mid_tops:
  assumes "pool_ok vm" "pt_next vm < 64" "pt_tree vm r" "i < 512" "pte_valid (ptes vm r i)"
    and "j < 512" "\<not> pte_valid (ptes vm (vm_pte_pa (ptes vm r i)) j)"
  defines "t \<equiv> vm_pte_pa (ptes vm r i)"
  shows "tops (grow vm t j) r = tops vm r" "mids (grow vm t j) r = insert (i, j) (mids vm r)"
proof -
  let ?f = "pool_table vm (pt_next vm)"
  have f: "?f \<notin> tables vm" "aligned ?f" using fresh_table [OF assms(1,2)] pool_table_aligned [OF assms(1,2)] .
  have t: "t \<in> kids vm r" unfolding t_def by (rule kidI [OF assms(4,5)])
  then have tt: "t \<in> tables vm" "t \<noteq> r" using pt_treeD(3) [OF assms(3)] by (auto simp: tables_def)
  note g = grow_ptes [OF assms(1,2) tt(1)]
  have r: "ptes (grow vm t j) r x = ptes vm r x" for x using tt(2) f pt_treeD(1) [OF assms(3)] by (auto simp: g)
  then show "tops (grow vm t j) r = tops vm r" by (simp add: tops_def)
  have u: "vm_pte_pa (ptes vm r x) = t \<longleftrightarrow> x = i" "vm_pte_pa (ptes vm r x) \<noteq> ?f" if "x < 512" "pte_valid (ptes vm r x)" for x
  proof -
    show "vm_pte_pa (ptes vm r x) = t \<longleftrightarrow> x = i"
      using pt_treeD(2) [OF assms(3)] that assms(4,5) by (auto simp: slot_inj_def inj_on_def t_def)
    show "vm_pte_pa (ptes vm r x) \<noteq> ?f" using kidI [OF that] pt_treeD(3) [OF assms(3)] f(1) by (auto simp: tables_def)
  qed
  have tf: "t \<noteq> ?f" using tt f by auto
  have "pte_valid (ptes (grow vm t j) (vm_pte_pa (ptes vm r x)) y) \<longleftrightarrow>
      (x = i \<and> y = j) \<or> pte_valid (ptes vm (vm_pte_pa (ptes vm r x)) y)" if "x < 512" "pte_valid (ptes vm r x)" for x y
    using u [OF that] tf by (auto simp: g)
  then show "mids (grow vm t j) r = insert (i, j) (mids vm r)"
    using assms(4-6) by (auto simp: mids_def r)
qed

lemma walk1_counts:
  assumes "pool_ok vm" "pt_tree vm r" "pte_valid (ptes vm r (vpn 2 va))" "(vpn 2 va, vpn 1 va) \<in> mids vm r \<or> pt_next vm < 64"
    and "vm_walk_loop vm (vm_pte_pa (ptes vm r (vpn 2 va))) va True 1 = (vm', res)"
  shows "res \<noteq> None \<and> tops vm' r = tops vm r \<and> mids vm' r = insert (vpn 2 va, vpn 1 va) (mids vm r) \<and>
    pt_next vm' = pt_next vm + (if (vpn 2 va, vpn 1 va) \<in> mids vm r then 0 else 1) \<and> pt_base vm' = pt_base vm"
proof -
  let ?t = "vm_pte_pa (ptes vm r (vpn 2 va))"
  have m: "(vpn 2 va, vpn 1 va) \<in> mids vm r \<longleftrightarrow> pte_valid (ptes vm ?t (vpn 1 va))" using assms(3) by (simp add: mids_def)
  show ?thesis
  proof (cases "pte_valid (ptes vm ?t (vpn 1 va))")
    case True
    with assms(5) m show ?thesis by (auto simp: get_pte_def)
  next
    case False
    with m assms(4) have n: "pt_next vm < 64" by simp
    have "vm' = grow vm ?t (vpn 1 va)" "res \<noteq> None" using assms(5) False n by (auto simp: get_pte_def pt_alloc_some grow_def)
    with grow_mid_tops [OF assms(1) n assms(2) vpn_less assms(3) vpn_less False] False m show ?thesis
      by (simp add: grow_fields [OF n])
  qed
qed

lemma walk_counts:
  assumes "pool_ok vm" "pt_tree vm r" "vm_walk vm r va True = (vm', res)"
    and "pt_next vm + (if vpn 2 va \<in> tops vm r then 0 else 1) + (if (vpn 2 va, vpn 1 va) \<in> mids vm r then 0 else 1) \<le> 64"
  shows "res \<noteq> None \<and> tops vm' r = insert (vpn 2 va) (tops vm r) \<and> mids vm' r = insert (vpn 2 va, vpn 1 va) (mids vm r) \<and>
    pt_next vm' = pt_next vm + (if vpn 2 va \<in> tops vm r then 0 else 1) + (if (vpn 2 va, vpn 1 va) \<in> mids vm r then 0 else 1) \<and>
    pt_base vm' = pt_base vm"
proof (cases "pte_valid (ptes vm r (vpn 2 va))")
  case True
  then have t: "vpn 2 va \<in> tops vm r" by (simp add: tops_def)
  have w: "vm_walk_loop vm (vm_pte_pa (ptes vm r (vpn 2 va))) va True 1 = (vm', res)"
    using assms(3) True by (simp add: vm_walk_def numeral_2_eq_2 get_pte_def Let_def)
  have "(vpn 2 va, vpn 1 va) \<in> mids vm r \<or> pt_next vm < 64" using assms(4) t by (auto split: if_splits)
  from walk1_counts [OF assms(1,2) True this w] t show ?thesis by auto
next
  case False
  let ?g = "grow vm r (vpn 2 va)" and ?f = "pool_table vm (pt_next vm)"
  have t: "vpn 2 va \<notin> tops vm r" "(vpn 2 va, vpn 1 va) \<notin> mids vm r" using False by (auto simp: tops_def mids_def)
  then have n: "pt_next vm < 64" "pt_next ?g < 64" using assms(4) by (simp_all add: grow_fields)
  note G = grow_root_tops [OF assms(1) n(1) assms(2) vpn_less False]
  have r: "r \<in> tables vm" using pt_treeD(1) [OF assms(2)] .
  have c: "ptes ?g r (vpn 2 va) = table_pte ?f" by (simp add: grow_ptes [OF assms(1) n(1) r])
  have a: "aligned ?f" using pool_table_aligned [OF assms(1) n(1)] .
  have w: "vm_walk_loop ?g (vm_pte_pa (ptes ?g r (vpn 2 va))) va True 1 = (vm', res)"
  proof -
    have "vm_walk vm r va True = vm_walk_loop ?g ?f va True (Suc 0)"
      unfolding vm_walk_def numeral_2_eq_2 by (subst vm_walk_loop.simps(2))
        (use False n in \<open>simp add: get_pte_def Let_def pt_alloc_some grow_def numeral_2_eq_2 del: vm_walk_loop.simps(2)\<close>)
    with assms(3) c a show ?thesis by simp
  qed
  have g: "pool_ok ?g" "pt_tree ?g r"
    using grow_pool_ok [OF assms(1) n(1)] grow_tree [OF assms(1) n(1) assms(2) _ vpn_less False] by auto
  have "pte_valid (ptes ?g r (vpn 2 va))" by (simp add: c)
  from walk1_counts [OF g this disjI2 [OF n(2)] w] G t show ?thesis by (simp add: grow_fields [OF n(1)])
qed

lemma set_leaf_counts:
  assumes "pt_tree vm r" "walk_path vm r va (t, i)"
  shows "tops (set_pte vm (t, i) v) r = tops vm r" "mids (set_pte vm (t, i) v) r = mids vm r"
proof -
  note k = walk_path_kids [OF assms(2)] and D = pt_treeD [OF assms(1)]
  have t: "t \<noteq> r" "t \<notin> kids vm r" using D(5) [OF k(1)] k(2) by auto
  have p: "ptes (set_pte vm (t, i) v) x j = (if x = t \<and> j = i then v else ptes vm x j)" for x j by (simp add: set_pte_def)
  show "tops (set_pte vm (t, i) v) r = tops vm r" using t by (auto simp: tops_def p)
  have "ptes (set_pte vm (t, i) v) (vm_pte_pa (ptes vm r j)) y = ptes vm (vm_pte_pa (ptes vm r j)) y"
    if "j < 512" "pte_valid (ptes vm r j)" for j y using kidI [OF that] t by (auto simp: p)
  moreover have "ptes (set_pte vm (t, i) v) r j = ptes vm r j" for j using t by (simp add: p)
  ultimately show "mids (set_pte vm (t, i) v) r = mids vm r" by (auto simp: mids_def)
qed

text \<open>Mapping a page succeeds exactly where there are table pages and the address is free.\<close>

lemma vm_map_page_counts:
  assumes "pool_ok vm" "pt_tree vm r" "aligned va" "aligned pa" "leaf vm r va = None"
    and "pt_next vm + (if vpn 2 va \<in> tops vm r then 0 else 1) + (if (vpn 2 va, vpn 1 va) \<in> mids vm r then 0 else 1) \<le> 64"
  shows "\<exists>vm'. vm_map_page vm r va pa perm = (vm', 0) \<and> tops vm' r = insert (vpn 2 va) (tops vm r) \<and>
    mids vm' r = insert (vpn 2 va, vpn 1 va) (mids vm r) \<and>
    pt_next vm' = pt_next vm + (if vpn 2 va \<in> tops vm r then 0 else 1) + (if (vpn 2 va, vpn 1 va) \<in> mids vm r then 0 else 1) \<and>
    pt_base vm' = pt_base vm"
proof -
  obtain vm1 res where w: "vm_walk vm r va True = (vm1, res)" by (cases "vm_walk vm r va True")
  note W = walk_counts [OF assms(1,2) w assms(6)] and A = walk_alloc [OF assms(1,2) w]
  obtain t i where r: "res = Some (t, i)" using W by (cases res) auto
  with A have p: "walk_path vm1 r va (t, i)" and e: "leaf vm1 r va = None" "pt_tree vm1 r"
    using assms(5) by (auto simp: evolves_def)
  from leaf_walk [of vm1 r va t i] p e(1) have "\<not> pte_valid (ptes vm1 t i)" by (auto split: if_splits)
  then have "vm_map_page vm r va pa perm = (set_pte vm1 (t, i) (push_bit 10 (drop_bit 12 pa) OR perm OR PTE_V OR PTE_STD), 0)"
    using assms(3,4) w r by (simp add: vm_map_page_def aligned_def get_pte_def)
  with W set_leaf_counts [OF e(2) p] show ?thesis by simp
qed

section \<open>Identity maps\<close>

definition ident_pte :: "u64 \<Rightarrow> u64 \<Rightarrow> u64" where
  "ident_pte x perm = push_bit 10 (drop_bit 12 x) OR perm OR PTE_V OR PTE_STD"

definition vm_same :: "vm \<Rightarrow> vm \<Rightarrow> bool" where
  "vm_same vm vm' \<longleftrightarrow> kheap vm' = kheap vm \<and> phys vm' = phys vm \<and> kernel_pt vm' = kernel_pt vm \<and> pt_base vm' = pt_base vm"

text \<open>A table whose translations are \<open>f\<close>, whose table pages are counted, and whose entries lie in the areas \<open>A\<close> of two megabytes.\<close>

definition kmap_ok :: "(nat \<times> nat) set \<Rightarrow> vm \<Rightarrow> u64 \<Rightarrow> (u64 \<Rightarrow> u64 option) \<Rightarrow> bool" where
  "kmap_ok A vm r f \<longleftrightarrow> pool_ok vm \<and> pt_tree vm r \<and> pt_next vm = card (tops vm r) + card (mids vm r) \<and>
     mids vm r \<subseteq> A \<and> tops vm r \<subseteq> fst ` A \<and> (\<forall>va. unat va < 2 ^ 39 \<longrightarrow> leaf vm r va = f va)"

definition areas_ok :: "(nat \<times> nat) set \<Rightarrow> bool" where
  "areas_ok A \<longleftrightarrow> finite A \<and> card (fst ` A) + card A \<le> PT_PAGES"

lemma page_key_iff:
  assumes "unat x < 2 ^ 39" "unat y < 2 ^ 39"
  shows "page_key x = page_key y \<longleftrightarrow> unat x div 4096 = unat y div 4096"
proof -
  have n: "p = p div 262144 mod 512 * 262144 + p div 512 mod 512 * 512 + p mod 512" if "p < 2 ^ 27" for p :: nat
  proof -
    have "p div 262144 = p div 512 div 512" by (simp add: div_mult2_eq [symmetric])
    moreover have "p div 262144 mod 512 = p div 262144" using that by simp
    moreover have "p = p div 512 * 512 + p mod 512" "p div 512 = p div 512 div 512 * 512 + p div 512 mod 512" by simp_all
    ultimately show ?thesis by linarith
  qed
  have k: "page_key z = (unat z div 4096 div 262144 mod 512, unat z div 4096 div 512 mod 512, unat z div 4096 mod 512)" for z
    by (simp add: page_key_def vpn_unat div_mult2_eq [symmetric])
  have p: "unat x div 4096 < 2 ^ 27" "unat y div 4096 < 2 ^ 27" using assms by simp_all
  show ?thesis
  proof
    assume "page_key x = page_key y"
    then show "unat x div 4096 = unat y div 4096" using n [OF p(1)] n [OF p(2)] unfolding k by simp
  qed (simp add: k)
qed

lemma ident_pte_page: "unat x div 4096 = unat y div 4096 \<Longrightarrow> ident_pte x perm = ident_pte y perm"
proof -
  assume "unat x div 4096 = unat y div 4096"
  then have "drop_bit 12 x = drop_bit 12 y" by (simp add: drop_bit_eq_div word_unat_eq_iff unat_div)
  then show ?thesis by (simp add: ident_pte_def)
qed

lemma kmap_page:
  assumes "areas_ok A" "kmap_ok A vm r f" "aligned va" "unat va < 2 ^ 39" "f va = None" "(vpn 2 va, vpn 1 va) \<in> A"
  shows "\<exists>vm'. vm_map_page vm r va va perm = (vm', 0) \<and> vm_same vm vm' \<and>
    kmap_ok A vm' r (\<lambda>x. if unat x div 4096 = unat va div 4096 then Some (ident_pte x perm) else f x)"
proof -
  let ?i = "vpn 2 va" and ?m = "(vpn 2 va, vpn 1 va)"
  have ok: "pool_ok vm" "pt_tree vm r" "pt_next vm = card (tops vm r) + card (mids vm r)" "mids vm r \<subseteq> A" "tops vm r \<subseteq> fst ` A"
    and f: "\<And>x. unat x < 2 ^ 39 \<Longrightarrow> leaf vm r x = f x" using assms(2) by (auto simp: kmap_ok_def)
  have A: "finite A" "card (fst ` A) + card A \<le> 64" using assms(1) by (simp_all add: areas_ok_def)
  have i: "insert ?i (tops vm r) \<subseteq> fst ` A" using ok(5) assms(6) by force
  have m: "insert ?m (mids vm r) \<subseteq> A" using ok(4) assms(6) by simp
  have "card (insert ?i (tops vm r)) \<le> card (fst ` A)" "card (insert ?m (mids vm r)) \<le> card A"
    by (rule card_mono [OF _ i], simp add: A, rule card_mono [OF A(1) m])
  moreover have c: "card (insert ?i (tops vm r)) = card (tops vm r) + (if ?i \<in> tops vm r then 0 else 1)"
    "card (insert ?m (mids vm r)) = card (mids vm r) + (if ?m \<in> mids vm r then 0 else 1)"
    by (simp_all add: insert_absorb)
  ultimately have room: "pt_next vm + (if ?i \<in> tops vm r then 0 else 1) + (if ?m \<in> mids vm r then 0 else 1) \<le> 64"
    using A(2) ok(3) by linarith
  have n: "leaf vm r va = None" using f [OF assms(4)] assms(5) by simp
  obtain vm' where vm': "vm_map_page vm r va va perm = (vm', 0)" "tops vm' r = insert ?i (tops vm r)"
      "mids vm' r = insert ?m (mids vm r)" "pt_base vm' = pt_base vm"
      "pt_next vm' = pt_next vm + (if ?i \<in> tops vm r then 0 else 1) + (if ?m \<in> mids vm r then 0 else 1)"
    using vm_map_page_counts [OF ok(1,2) assms(3,3) n room, of perm] by blast
  note M = vm_map_page_cases [OF ok(1,2) vm'(1)]
  have "leaf vm' r x = (if unat x div 4096 = unat va div 4096 then Some (ident_pte x perm) else f x)" if x: "unat x < 2 ^ 39" for x
    using M [of x] page_key_iff [OF x assms(4)] f [OF x] ident_pte_page [of x va perm] by (auto simp: ident_pte_def)
  with M vm' c i m ok(3) show ?thesis by (auto simp: kmap_ok_def vm_same_def)
qed

lemma map_region_loop_ident:
  assumes "areas_ok A" "kmap_ok A vm r f" "aligned a" "unat lim = unat a + n * 4096" "unat lim \<le> 2 ^ 38"
    and "\<And>x. unat a \<le> unat x \<Longrightarrow> unat x < unat lim \<Longrightarrow> f x = None \<and> (vpn 2 x, vpn 1 x) \<in> A"
  shows "\<exists>vm'. map_region_loop vm r a lim a perm = Some (vm', 0) \<and> vm_same vm vm' \<and>
    kmap_ok A vm' r (\<lambda>x. if unat a \<le> unat x \<and> unat x < unat lim then Some (ident_pte x perm) else f x)"
  using assms(2-6)
proof (induction n arbitrary: vm a f)
  case 0
  then have "(\<lambda>x. if unat a \<le> unat x \<and> unat x < unat lim then Some (ident_pte x perm) else f x) = f" by (auto simp: fun_eq_iff)
  with 0 show ?case by (subst map_region_loop.simps) (auto simp: word_less_nat_alt vm_same_def)
next
  case (Suc n)
  have a: "f a = None" "(vpn 2 a, vpn 1 a) \<in> A" "unat a < 2 ^ 39" using Suc.prems(5) [of a] Suc.prems(3,4) by auto
  define g where "g x = (if unat x div 4096 = unat a div 4096 then Some (ident_pte x perm) else f x)" for x
  obtain vm1 where m: "vm_map_page vm r a a perm = (vm1, 0)" "vm_same vm vm1" "kmap_ok A vm1 r g"
    using kmap_page [OF assms(1) Suc.prems(1,2) a(3,1,2), of perm] unfolding g_def by blast
  have u: "unat (a + 4096) = unat a + 4096" using Suc.prems(3,4) by (simp add: unat_word_ariths)
  have al: "4096 dvd unat a" "aligned (a + 4096)" using Suc.prems(2) u by (simp_all add: aligned_unat)
  have pg: "unat x div 4096 = unat a div 4096 \<longleftrightarrow> unat a \<le> unat x \<and> unat x < unat a + 4096" for x
    using al(1) by (auto elim!: dvdE)
  have "\<exists>vm'. map_region_loop vm1 r (a + 4096) lim (a + 4096) perm = Some (vm', 0) \<and> vm_same vm1 vm' \<and>
      kmap_ok A vm' r (\<lambda>x. if unat (a + 4096) \<le> unat x \<and> unat x < unat lim then Some (ident_pte x perm) else g x)"
    using Suc.prems(3-5) u by (intro Suc.IH [OF m(3) al(2)]) (auto simp: g_def pg)
  moreover have "(\<lambda>x. if unat (a + 4096) \<le> unat x \<and> unat x < unat lim then Some (ident_pte x perm) else g x) =
      (\<lambda>x. if unat a \<le> unat x \<and> unat x < unat lim then Some (ident_pte x perm) else f x)"
    using u Suc.prems(3) by (auto simp: g_def pg fun_eq_iff)
  moreover have "map_region_loop vm r a lim a perm = map_region_loop vm1 r (a + 4096) lim (a + 4096) perm"
    using m(1) Suc.prems(3) by (subst map_region_loop.simps) (simp add: word_less_nat_alt)
  ultimately show ?case using m(2) by (auto simp: vm_same_def)
qed


definition add_region :: "nat \<Rightarrow> nat \<Rightarrow> u64 \<Rightarrow> (u64 \<Rightarrow> u64 option) \<Rightarrow> u64 \<Rightarrow> u64 option" where
  "add_region b e perm f x = (if b \<le> unat x \<and> unat x < e then Some (ident_pte x perm) else f x)"

abbreviation page_up :: "nat \<Rightarrow> nat" where
  "page_up n \<equiv> (n + 4095) div 4096 * 4096"

lemma unat_pa_round_down: "unat (pa_round_down x) = unat x div 4096 * 4096"
  using unat_round_down [of x 12] by (simp add: pa_round_down_def flip: mask_12)

lemma unat_pa_round_up: "unat x + 4096 < 2 ^ 64 \<Longrightarrow> unat (pa_round_up x) = page_up (unat x)"
  using unat_round_up [of x 12] by (simp add: pa_round_up_def add_diff_eq [symmetric] flip: mask_12)

lemma page_up_mono: "b \<le> c \<Longrightarrow> 4096 dvd c \<Longrightarrow> page_up b \<le> c"
  by (auto elim!: dvdE)

lemma page_up_less:
  assumes "\<not> 4096 dvd n"
  shows "n < page_up n"
proof -
  define q r where "q = n div 4096" and "r = n mod 4096"
  have n: "n = q * 4096 + r" "0 < r" "r < 4096" using assms by (auto simp: q_def r_def dvd_eq_mod_eq_0)
  then have "(n + 4095) div 4096 = q + 1" by (intro div_nat_eqI) simp_all
  with n show ?thesis by simp
qed

lemma vm_map_region_ident:
  assumes "areas_ok A" "kmap_ok A vm r f" "unat va = b" "4096 dvd b" "b + unat n = c" "c \<le> 2 ^ 37"
    and "\<And>x. b \<le> unat x \<Longrightarrow> unat x < page_up c \<Longrightarrow> f x = None \<and> (vpn 2 x, vpn 1 x) \<in> A"
  shows "\<exists>vm'. vm_map_region vm r va va n perm = Some (vm', 0) \<and> vm_same vm vm' \<and> kmap_ok A vm' r (add_region b (page_up c) perm f)"
proof -
  have d: "pa_round_down va = va" using assms(3,4) by (simp add: word_unat_eq_iff unat_pa_round_down)
  have s: "unat (va + n) = c" using assms(3,5,6) by (simp add: unat_word_ariths)
  then have e: "unat (pa_round_up (va + n)) = page_up c" using assms(6) by (simp add: unat_pa_round_up)
  have "b \<le> page_up c" using assms(5) by linarith
  then obtain m where m: "page_up c = b + m * 4096"
    using assms(4) by (metis dvd_triv_right dvd_diff_nat dvdE le_add_diff_inverse mult.commute)
  have "page_up c \<le> 2 ^ 38" by (rule page_up_mono) (use assms(6) in simp_all)
  then show ?thesis
    using map_region_loop_ident [OF assms(1,2), of va "pa_round_up (va + n)" m perm] assms(3,4,7) e m d
    by (simp add: vm_map_region_def add_region_def [abs_def] aligned_unat)
qed

lemma then_map_some: "r = Some (vm, 0) \<Longrightarrow> then_map r f = f vm"
  by (simp add: then_map_def)

section \<open>The kernel table\<close>

definition kernel_areas :: "(nat \<times> nat) set" where
  "kernel_areas = {(2, 1), (2, 2), (2, 3), (2, 4), (0, 16), (0, 128)}"

lemma kernel_areas_ok: "areas_ok kernel_areas"
  by (simp add: areas_ok_def kernel_areas_def)

lemma kernel_area:
  assumes "0x80200000 \<le> unat x \<and> unat x < 0x80a00000 \<or> 0x02000000 \<le> unat x \<and> unat x < 0x02200000 \<or>
     0x10000000 \<le> unat x \<and> unat x < 0x10200000"
  shows "(vpn 2 x, vpn 1 x) \<in> kernel_areas"
proof -
  define q where "q = unat x div 0x200000"
  have b: "b * 0x200000 \<le> unat x \<Longrightarrow> unat x < c * 0x200000 \<Longrightarrow> b \<le> q \<and> q < c" for b c
    using div_le_mono [of "b * 0x200000" "unat x" "0x200000"] by (simp add: q_def less_mult_imp_div_less)
  have "q = 1025 \<or> q = 1026 \<or> q = 1027 \<or> q = 1028 \<or> q = 16 \<or> q = 128"
    using assms b [of 1025 1029] b [of 16 17] b [of 128 129] by auto
  moreover have "vpn 2 x = q div 512 mod 512" "vpn 1 x = q mod 512" by (simp_all add: q_def vpn_unat div_mult2_eq [symmetric])
  ultimately show ?thesis by (elim disjE) (simp_all add: kernel_areas_def)
qed

lemmas kernel_areaS = kernel_area [unfolded One_nat_def]

text \<open>The regions, the last one mapped first in the list, with their ends and permissions; and the translation they give an address.\<close>

definition kernel_regions :: "image \<Rightarrow> (nat \<times> nat \<times> u64) list" where
  "kernel_regions im =
     [(unat (im_user_bss_start im), page_up (unat (im_user_end im)), PTE_U OR PTE_R OR PTE_W),
      (0x80400000, unat (im_user_bss_start im), PTE_U OR PTE_R OR PTE_X),
      (0x10001000, 0x10009000, PTE_R OR PTE_W),
      (0x02000000, 0x02008000, PTE_R OR PTE_W),
      (0x10000000, 0x10001000, PTE_R OR PTE_W),
      (0x80800000, 0x80840000, PTE_R OR PTE_W),
      (0x80600000, 0x80800000, PTE_R OR PTE_W),
      (page_up (unat (im_erodata im)), page_up (unat (im_end im)), PTE_R OR PTE_W),
      (0x80200000, page_up (unat (im_erodata im)), PTE_R OR PTE_X)]"

definition kernel_map :: "image \<Rightarrow> u64 \<Rightarrow> u64 option" where
  "kernel_map im x =
     map_option (\<lambda>(b, e, perm). ident_pte x perm) (find (\<lambda>(b, e, perm). b \<le> unat x \<and> unat x < e) (kernel_regions im))"

lemma map_find_Cons: "map_option g (find P (x # xs)) = (if P x then Some (g x) else map_option g (find P xs))"
  by simp

lemma map_mmio_spec:
  assumes "kmap_ok kernel_areas vm r f" "\<And>x. unat x < 0x20000000 \<Longrightarrow> f x = None"
  shows "\<exists>vm'. map_mmio vm r = Some (vm', 0) \<and> vm_same vm vm' \<and>
    kmap_ok kernel_areas vm' r (add_region 0x10001000 0x10009000 (PTE_R OR PTE_W)
      (add_region 0x02000000 0x02008000 (PTE_R OR PTE_W) (add_region 0x10000000 0x10001000 (PTE_R OR PTE_W) f)))"
proof -
  let ?w = "PTE_R OR PTE_W :: u64"
  define f1 where "f1 = add_region 0x10000000 0x10001000 ?w f"
  define f2 where "f2 = add_region 0x02000000 0x02008000 ?w f1"
  note reg = vm_map_region_ident [OF kernel_areas_ok]
  obtain vm1 where v1: "vm_map_region vm r 0x10000000 0x10000000 0x1000 ?w = Some (vm1, 0)" "vm_same vm vm1" "kmap_ok kernel_areas vm1 r f1"
    using reg [OF assms(1), of "0x10000000" "0x10000000" "0x1000" "0x10001000" ?w] assms(2) by (auto simp: kernel_areaS f1_def)
  obtain vm2 where v2: "vm_map_region vm1 r 0x02000000 0x02000000 0x8000 ?w = Some (vm2, 0)" "vm_same vm1 vm2" "kmap_ok kernel_areas vm2 r f2"
    using reg [OF v1(3), of "0x02000000" "0x02000000" "0x8000" "0x02008000" ?w] assms(2)
    by (auto simp: kernel_areaS f2_def f1_def add_region_def)
  obtain vm3 where v3: "vm_map_region vm2 r 0x10001000 0x10001000 0x8000 ?w = Some (vm3, 0)" "vm_same vm2 vm3"
      "kmap_ok kernel_areas vm3 r (add_region 0x10001000 0x10009000 ?w f2)"
    using reg [OF v2(3), of "0x10001000" "0x10001000" "0x8000" "0x10009000" ?w] assms(2)
    by (auto simp: kernel_areaS f2_def f1_def add_region_def)
  from v1 v2 v3 show ?thesis unfolding f2_def f1_def by (auto simp: map_mmio_def Let_def then_map_some vm_same_def)
qed

lemma image_okD:
  assumes "image_ok im"
  shows "0x80200000 \<le> unat (im_erodata im)" "unat (im_erodata im) \<le> unat (im_end im)" "unat (im_end im) \<le> 0x80400000"
    "0x80400000 \<le> unat (im_user_bss_start im)" "4096 dvd unat (im_user_bss_start im)"
    "unat (im_user_bss_start im) \<le> unat (im_user_end im)" "unat (im_user_end im) \<le> 0x80600000"
    "0x80200000 \<le> unat (im_root_table im)" "aligned (im_root_table im)" "unat (im_root_table im) < unat (im_end im)"
  using assms by (simp_all add: image_ok_def word_le_nat_alt word_less_nat_alt aligned_unat platform_heap_start_def)

lemma map_kernel_spec:
  assumes "kmap_ok kernel_areas vm r (\<lambda>_. None)" "image_ok im"
  defines "up \<equiv> \<lambda>n. page_up n"
  defines "f4 \<equiv> add_region 0x80800000 0x80840000 (PTE_R OR PTE_W) (add_region 0x80600000 0x80800000 (PTE_R OR PTE_W)
      (add_region (up (unat (im_erodata im))) (up (unat (im_end im))) (PTE_R OR PTE_W)
        (add_region 0x80200000 (up (unat (im_erodata im))) (PTE_R OR PTE_X) (\<lambda>_. None))))"
  shows "\<exists>vm'. map_kernel im vm r = Some (vm', 0) \<and> vm_same vm vm' \<and>
    kmap_ok kernel_areas vm' r (add_region 0x10001000 0x10009000 (PTE_R OR PTE_W)
      (add_region 0x02000000 0x02008000 (PTE_R OR PTE_W) (add_region 0x10000000 0x10001000 (PTE_R OR PTE_W) f4)))"
proof -
  let ?w = "PTE_R OR PTE_W :: u64" and ?x = "PTE_R OR PTE_X :: u64" and ?e = "unat (im_erodata im)" and ?n = "unat (im_end im)"
  note I = image_okD [OF assms(2)] and reg = vm_map_region_ident [OF kernel_areas_ok]
  have up: "up ?e \<le> 0x80400000" "up ?n \<le> 0x80400000" "?e \<le> up ?e" "4096 dvd up ?e" "4096 dvd up ?n"
    unfolding up_def by (rule page_up_mono, use I in simp_all)+
  define f1 where "f1 = add_region 0x80200000 (up ?e) ?x (\<lambda>_. None)"
  define f2 where "f2 = add_region (up ?e) (up ?n) ?w f1"
  define f3 where "f3 = add_region 0x80600000 0x80800000 ?w f2"
  have f: "f4 = add_region 0x80800000 0x80840000 ?w f3" by (simp add: f4_def f3_def f2_def f1_def)
  have s1: "unat (im_erodata im - 0x80200000) = ?e - 0x80200000" using I(1) by (simp add: unat_sub word_le_nat_alt)
  obtain vm1 where v1: "vm_map_region vm r 0x80200000 0x80200000 (im_erodata im - 0x80200000) ?x = Some (vm1, 0)"
      "vm_same vm vm1" "kmap_ok kernel_areas vm1 r f1"
    using reg [OF assms(1), of "0x80200000" "0x80200000" "im_erodata im - 0x80200000" ?e ?x] I up s1
    by (auto simp: kernel_areaS f1_def up_def)
  define ds where "ds = pa_round_up (im_erodata im)"
  have ds: "unat ds = up ?e" using I by (simp add: ds_def unat_pa_round_up up_def)
  obtain vm2 where v2: "(if ds < im_end im then vm_map_region vm1 r ds ds (im_end im - ds) ?w else Some (vm1, 0)) = Some (vm2, 0)"
      "vm_same vm1 vm2" "kmap_ok kernel_areas vm2 r f2"
  proof (cases "ds < im_end im")
    case True
    then have "unat (im_end im - ds) = ?n - up ?e" "up ?e < ?n" by (simp_all add: unat_sub word_less_nat_alt word_le_nat_alt ds)
    with True reg [OF v1(3), of ds "up ?e" "im_end im - ds" ?n ?w] I up ds that show thesis
      by (auto simp: kernel_areaS f2_def f1_def add_region_def up_def)
  next
    case False
    then have "up ?n \<le> up ?e" using page_up_mono [OF _ up(4)] by (simp add: word_less_nat_alt ds up_def)
    then have "f2 = f1" by (auto simp: f2_def add_region_def fun_eq_iff)
    with False v1 that show thesis by (auto simp: vm_same_def)
  qed
  obtain vm3 where v3: "vm_map_region vm2 r 0x80600000 0x80600000 0x200000 ?w = Some (vm3, 0)" "vm_same vm2 vm3" "kmap_ok kernel_areas vm3 r f3"
    using reg [OF v2(3), of "0x80600000" "0x80600000" "0x200000" "0x80800000" ?w] up
    by (auto simp: kernel_areaS f3_def f2_def f1_def add_region_def)
  obtain vm4 where v4: "vm_map_region vm3 r 0x80800000 0x80800000 0x40000 ?w = Some (vm4, 0)" "vm_same vm3 vm4" "kmap_ok kernel_areas vm4 r f4"
    using reg [OF v3(3), of "0x80800000" "0x80800000" "0x40000" "0x80840000" ?w] up
    by (auto simp: kernel_areaS f f3_def f2_def f1_def add_region_def)
  have "f4 x = None" if "unat x < 0x20000000" for x using that up I by (auto simp: f f3_def f2_def f1_def add_region_def)
  from map_mmio_spec [OF v4(3) this] v1 v2 v3 v4 show ?thesis
    by (auto simp: map_kernel_def Let_def then_map_some vm_same_def platform_heap_start_def ds_def)
qed

lemma vm_map_user_text_spec:
  assumes "kmap_ok kernel_areas vm r f" "image_ok im" "\<And>x. 0x80400000 \<le> unat x \<Longrightarrow> unat x < 0x80600000 \<Longrightarrow> f x = None"
  shows "\<exists>vm'. vm_map_user_text im vm r = Some (vm', 0) \<and> vm_same vm vm' \<and>
    kmap_ok kernel_areas vm' r (add_region (unat (im_user_bss_start im)) (page_up (unat (im_user_end im))) (PTE_U OR PTE_R OR PTE_W)
      (add_region 0x80400000 (unat (im_user_bss_start im)) (PTE_U OR PTE_R OR PTE_X) f))"
proof -
  let ?w = "PTE_U OR PTE_R OR PTE_W :: u64" and ?x = "PTE_U OR PTE_R OR PTE_X :: u64"
  define b e where "b = unat (im_user_bss_start im)" and "e = unat (im_user_end im)"
  define cs bs where "cs = im_user_bss_start im - 0x80400000" and "bs = im_user_end im - im_user_bss_start im"
  note I = image_okD [OF assms(2), folded b_def e_def] and reg = vm_map_region_ident [OF kernel_areas_ok]
  have s: "unat cs = b - 0x80400000" "unat bs = e - b"
    using I by (simp_all add: cs_def bs_def unat_sub word_le_nat_alt b_def e_def)
  obtain c0 where c: "b = c0 * 4096" using I(5) by (auto simp: mult.commute)
  have e: "page_up e \<le> 0x80600000" by (rule page_up_mono) (use I in simp_all)
  define f1 where "f1 = add_region 0x80400000 b ?x f"
  obtain vm1 where v1: "(if cs > 0 then vm_map_region vm r 0x80400000 0x80400000 (if cs < 4096 then 4096 else cs) ?x
        else Some (vm, 0)) = Some (vm1, 0)" "vm_same vm vm1" "kmap_ok kernel_areas vm1 r f1"
  proof (cases "cs > 0")
    case True
    then have "\<not> cs < 4096" "page_up b = b" using s c I(4) by (auto simp: word_less_nat_alt word_greater_zero_iff)
    with True reg [OF assms(1), of "0x80400000" "0x80400000" cs b ?x] assms(3) I s that show thesis
      by (auto simp: kernel_areaS f1_def)
  next
    case False
    then have "cs = 0" by (simp add: word_greater_zero_iff)
    then have "b \<le> 0x80400000" using s(1) by simp
    then have "f1 = f" by (auto simp: f1_def add_region_def fun_eq_iff)
    with False assms(1) that show thesis by (auto simp: vm_same_def)
  qed
  obtain vm2 where v2: "(if bs > 0 then vm_map_region vm1 r (im_user_bss_start im) (im_user_bss_start im) (if bs < 4096 then 4096 else bs) ?w
        else Some (vm1, 0)) = Some (vm2, 0)" "vm_same vm1 vm2" "kmap_ok kernel_areas vm2 r (add_region b (page_up e) ?w f1)"
  proof (cases "bs > 0")
    case True
    then have be: "b < e" using s(2) by (simp add: word_less_nat_alt)
    define n c where "n = (if bs < 4096 then 4096 else bs)" and "c = b + unat n"
    have "page_up c = page_up e"
    proof (cases "bs < 4096")
      case True
      then have "e < b + 4096" using s(2) I(6) by (simp add: word_less_nat_alt)
      with be c have "(e + 4095) div 4096 = c0 + 1" by (intro div_nat_eqI) simp_all
      with True c show ?thesis by (simp add: c_def n_def)
    next
      case False
      with s(2) be show ?thesis by (simp add: c_def n_def)
    qed
    moreover have "c \<le> 2 ^ 37" using s(2) I e by (auto simp: c_def n_def)
    ultimately show thesis
      using True reg [OF v1(3), of "im_user_bss_start im" b n c ?w] assms(3) I e that
      by (auto simp: kernel_areaS f1_def add_region_def b_def [symmetric] n_def c_def)
  next
    case False
    then have "bs = 0" by (simp add: word_greater_zero_iff)
    then have "page_up e \<le> b" using s(2) I(6) page_up_mono [OF _ I(5), of e] by simp
    then have "add_region b (page_up e) ?w f1 = f1" by (auto simp: add_region_def fun_eq_iff)
    with False v1 that show thesis by (auto simp: vm_same_def)
  qed
  show ?thesis
  proof (cases "cs = 0 \<and> bs = 0")
    case True
    then have "vm2 = vm" using v1(1) v2(1) by auto
    with True v2(3) show ?thesis by (auto simp: vm_map_user_text_def Let_def cs_def bs_def vm_same_def f1_def b_def e_def)
  next
    case False
    then have "vm_map_user_text im vm r = then_map (Some (vm1, 0)) (\<lambda>vm1. then_map
        (if bs > 0 then vm_map_region vm1 r (im_user_bss_start im) (im_user_bss_start im) (if bs < 4096 then 4096 else bs) ?w
         else Some (vm1, 0)) (\<lambda>vm2. Some (vm2, 0)))"
      unfolding vm_map_user_text_def Let_def cs_def [symmetric] bs_def [symmetric] v1(1) by auto
    also have "\<dots> = Some (vm2, 0)" by (simp only: then_map_some [OF refl] v2(1))
    finally show ?thesis using v1(2) v2(2,3) by (auto simp: vm_same_def f1_def b_def e_def)
  qed
qed

lemma vm_reset_ok:
  assumes "image_ok im" "pt_base vm = PTPOOL_START"
  shows "kmap_ok kernel_areas (vm_reset im vm) (im_root_table im) (\<lambda>_. None)"
proof -
  let ?v = "vm_reset im vm" and ?r = "im_root_table im"
  note I = image_okD [OF assms(1)]
  have "unat (pool_table ?v k) = 0x80800000 + k * 4096" if "k < 64" for k
    using that assms(2) by (simp add: pool_table_def vm_reset_def unat_word_ariths unat_of_nat)
  then have "pool_table ?v k \<noteq> ?r" if "k < 64" for k using that I(3,10) by fastforce
  moreover have "?r \<noteq> 0" using I(8) by (auto simp: unat_eq_0)
  moreover have "kernel_pt ?v = ?r" "pt_base ?v = 0x80800000" "pt_next ?v = 0" using assms(2) by (simp_all add: vm_reset_def)
  ultimately have p: "pool_ok ?v" using I(9) by (simp add: pool_ok_def aligned_unat) metis
  have z: "ptes ?v ?r i = 0" for i by (simp add: vm_reset_def)
  then have k: "kids ?v ?r = {}" by (intro kids_empty) simp
  then have "pt_tree ?v ?r" by (intro pt_treeI) (auto simp: slot_inj_empty tables_def vm_reset_def)
  moreover have "tops ?v ?r = {}" "mids ?v ?r = {}" by (auto simp: tops_def mids_def z)
  moreover have "leaf ?v ?r x = None" for x by (rule leaf_None2) (simp add: z)
  ultimately show ?thesis using p by (simp add: kmap_ok_def) (simp add: vm_reset_def)
qed

text \<open>\<^verbatim>\<open>vm_init\<close> succeeds, with at most eight table pages, and leaves the gigabyte of the user stacks and heaps unmapped.\<close>

lemma vm_init_kmap:
  assumes "image_ok im" "pt_base (kvm k) = PTPOOL_START"
  shows "\<exists>vm. vm_init im k h = Some (vm_activate (k\<lparr>kvm := vm\<rparr>) h (im_root_table im)) \<and>
    kmap_ok kernel_areas vm (im_root_table im) (kernel_map im) \<and> kernel_pt vm = im_root_table im \<and>
    kheap vm = kheap (kvm k) \<and> phys vm = phys (kvm k) \<and> pt_base vm = PTPOOL_START"
proof -
  let ?r = "im_root_table im" and ?v = "vm_reset im (kvm k)"
  have r: "kernel_pt ?v = ?r" "kheap ?v = kheap (kvm k)" "phys ?v = phys (kvm k)" "pt_base ?v = PTPOOL_START"
    using assms(2) by (simp_all add: vm_reset_def)
  obtain vm1 f where v1: "map_kernel im ?v ?r = Some (vm1, 0)" "vm_same ?v vm1" "kmap_ok kernel_areas vm1 ?r f"
    and f: "f = add_region 0x10001000 0x10009000 (PTE_R OR PTE_W) (add_region 0x02000000 0x02008000 (PTE_R OR PTE_W)
      (add_region 0x10000000 0x10001000 (PTE_R OR PTE_W) (add_region 0x80800000 0x80840000 (PTE_R OR PTE_W)
      (add_region 0x80600000 0x80800000 (PTE_R OR PTE_W)
      (add_region (page_up (unat (im_erodata im))) (page_up (unat (im_end im))) (PTE_R OR PTE_W)
        (add_region 0x80200000 (page_up (unat (im_erodata im))) (PTE_R OR PTE_X) (\<lambda>_. None)))))))"
    using map_kernel_spec [OF vm_reset_ok [OF assms] assms(1)] by blast
  note I = image_okD [OF assms(1)]
  have "page_up (unat (im_erodata im)) \<le> 0x80400000" "page_up (unat (im_end im)) \<le> 0x80400000"
    by (rule page_up_mono, use I in simp_all)+
  then have "f x = None" if "0x80400000 \<le> unat x" "unat x < 0x80600000" for x
    using that by (simp add: f add_region_def)
  from vm_map_user_text_spec [OF v1(3) assms(1) this]
  obtain vm2 where v2: "vm_map_user_text im vm1 ?r = Some (vm2, 0)" "vm_same vm1 vm2"
      "kmap_ok kernel_areas vm2 ?r (add_region (unat (im_user_bss_start im)) (page_up (unat (im_user_end im))) (PTE_U OR PTE_R OR PTE_W)
        (add_region 0x80400000 (unat (im_user_bss_start im)) (PTE_U OR PTE_R OR PTE_X) f))" by blast
  have "add_region (unat (im_user_bss_start im)) (page_up (unat (im_user_end im))) (PTE_U OR PTE_R OR PTE_W)
        (add_region 0x80400000 (unat (im_user_bss_start im)) (PTE_U OR PTE_R OR PTE_X) f) = kernel_map im"
    unfolding f kernel_map_def kernel_regions_def map_find_Cons add_region_def prod.case find.simps(1) option.map(1) by (rule refl)
  with v1 v2 r show ?thesis by (auto simp: vm_init_def Let_def vm_same_def)
qed

lemma ident_pte_flag:
  assumes "m < 1024"
  shows "ident_pte x perm AND m = (perm OR PTE_V OR PTE_STD) AND m"
proof -
  have "take_bit 10 m = m" using assms by (simp add: take_bit_eq_mod word_unat_eq_iff unat_mod word_less_nat_alt)
  then have "\<not> bit m k" if "10 \<le> k" for k using that by (metis bit_take_bit_iff not_less)
  then have "push_bit 10 (drop_bit 12 x) AND m = 0" by (intro bit_eqI) (auto simp: bit_simps)
  then show ?thesis by (simp add: ident_pte_def bit.conj_disj_distrib2 or.assoc)
qed

lemma ident_pte_pa:
  assumes "perm OR PTE_V OR PTE_STD < 1024"
  shows "vm_pte_pa (ident_pte x perm) = pa_round_down x"
proof -
  have u: "unat (pa_round_down x) = unat x div 4096 * 4096" by (rule unat_pa_round_down)
  then have "ident_pte x perm = ident_pte (pa_round_down x) perm" by (intro ident_pte_page) simp
  moreover have "aligned (pa_round_down x)" by (simp add: aligned_unat u)
  ultimately show ?thesis using pte_pa_make [OF _ assms] by (simp add: ident_pte_def or.assoc)
qed

lemma kernel_map_cases:
  assumes "kernel_map im x = Some pte"
  obtains b e perm where "(b, e, perm) \<in> set (kernel_regions im)" "b \<le> unat x" "unat x < e" "pte = ident_pte x perm"
  using assms by (auto simp: kernel_map_def find_Some_iff) (metis nth_mem)

lemma kmap_slots:
  assumes "kmap_ok kernel_areas vm r f"
  shows "pt_next vm \<le> 8" "\<not> pte_valid (ptes vm r 1)"
proof -
  have m: "mids vm r \<subseteq> kernel_areas" "tops vm r \<subseteq> {0, 2}" "pt_next vm = card (tops vm r) + card (mids vm r)"
    using assms by (auto simp: kmap_ok_def kernel_areas_def)
  have "card (mids vm r) \<le> 6" "card (tops vm r) \<le> 2"
    using card_mono [OF _ m(1)] card_mono [OF _ m(2)] by (simp_all add: kernel_areas_def)
  then show "pt_next vm \<le> 8" using m(3) by simp
  show "\<not> pte_valid (ptes vm r 1)"
  proof
    assume "pte_valid (ptes vm r 1)"
    then have "1 \<in> tops vm r" by (simp add: tops_def)
    with m(2) show False by auto
  qed
qed

text \<open>C39: The kernel's address space.  For every layout the linker script allows whose user programs end before the heap,
  \<open>vm_init\<close> maps everything, needs at most 8 of the 64 table pages and switches the hart to the kernel table.  That table then
  translates exactly the addresses of the kernel's sections, the heap, the table pages, the devices and the user programs, each to
  itself and with the permissions of its region, and nothing in the root slot that holds the user stacks and heaps.\<close>

theorem vm_init_maps:
  assumes "image_ok im" "pt_base (kvm k) = PTPOOL_START" "h < length (cpu_satp k)"
  shows "\<exists>k'. vm_init im k h = Some k' \<and> cpu_satp k' ! h = satp_for (im_root_table im) \<and>
    (\<forall>va. unat va < 2 ^ 39 \<longrightarrow> leaf (kvm k') (im_root_table im) va = kernel_map im va) \<and>
    pt_next (kvm k') \<le> 8 \<and> \<not> pte_valid (ptes (kvm k') (im_root_table im) 1)"
proof -
  obtain vm where vm: "vm_init im k h = Some (vm_activate (k\<lparr>kvm := vm\<rparr>) h (im_root_table im))"
      "kmap_ok kernel_areas vm (im_root_table im) (kernel_map im)"
    using vm_init_kmap [OF assms(1,2)] by blast
  have "\<forall>va. unat va < 2 ^ 39 \<longrightarrow> leaf vm (im_root_table im) va = kernel_map im va" using vm(2) by (simp add: kmap_ok_def)
  with vm(1) kmap_slots [OF vm(2)] assms(3) show ?thesis by (simp add: vm_activate_def)
qed

text \<open>C40: Writable or executable.  After \<open>vm_init\<close> no page of the kernel table can be both written and executed, user mode
  reaches only the image of the user programs, and every translation is the identity.  The image's data pages, which every agent's table
  shares, are writable from user mode.\<close>

theorem kernel_table_wx:
  assumes "image_ok im" "pt_base (kvm k) = PTPOOL_START" "vm_init im k h = Some k'"
    and "unat va < 2 ^ 39" "leaf (kvm k') (im_root_table im) va = Some e"
  shows "(e AND PTE_W = 0 \<or> e AND PTE_X = 0) \<and> vm_pte_pa e = pa_round_down va \<and>
    (e AND PTE_U \<noteq> 0 \<longrightarrow> USER_TEXT_START \<le> va \<and> va < pa_round_up (im_user_end im)) \<and>
    (im_user_bss_start im \<le> va \<and> va < im_user_end im \<longrightarrow> e AND PTE_U \<noteq> 0 \<and> e AND PTE_W \<noteq> 0)"
proof -
  note I = image_okD [OF assms(1)]
  have "kernel_map im va = Some e"
    using vm_init_kmap [OF assms(1,2), of h] assms(3-5) by (auto simp: kmap_ok_def vm_activate_def)
  then obtain b n perm where r: "(b, n, perm) \<in> set (kernel_regions im)" "b \<le> unat va" "unat va < n" and e: "e = ident_pte va perm"
    by (rule kernel_map_cases)
  have up: "page_up (unat (im_erodata im)) \<le> 0x80400000" "page_up (unat (im_end im)) \<le> 0x80400000"
    by (rule page_up_mono, use I in simp_all)+
  have ue: "unat (pa_round_up (im_user_end im)) = page_up (unat (im_user_end im))" using I by (simp add: unat_pa_round_up)
  from r(1) have p: "perm = PTE_U OR PTE_R OR PTE_W \<or> perm = PTE_U OR PTE_R OR PTE_X \<or> perm = PTE_R OR PTE_W \<or> perm = PTE_R OR PTE_X"
    by (auto simp: kernel_regions_def)
  then have "e AND PTE_W = 0 \<or> e AND PTE_X = 0" unfolding e by (auto simp: ident_pte_flag)
  moreover have "vm_pte_pa e = pa_round_down va" unfolding e by (rule ident_pte_pa) (use p in auto)
  moreover have "USER_TEXT_START \<le> va \<and> va < pa_round_up (im_user_end im)" if "e AND PTE_U \<noteq> 0"
  proof -
    have "n = page_up (unat (im_user_end im)) \<and> b = unat (im_user_bss_start im) \<or> n = unat (im_user_bss_start im) \<and> b = 0x80400000"
      using that r(1) unfolding e by (auto simp: ident_pte_flag kernel_regions_def)
    with r(2,3) I show ?thesis by (auto simp: word_le_nat_alt word_less_nat_alt ue)
  qed
  moreover have "e AND PTE_U \<noteq> 0 \<and> e AND PTE_W \<noteq> 0" if b: "im_user_bss_start im \<le> va \<and> va < im_user_end im"
  proof -
    have "perm = PTE_U OR PTE_R OR PTE_W"
      using b r I up by (auto simp: kernel_regions_def word_le_nat_alt word_less_nat_alt)
    then show ?thesis unfolding e by (simp add: ident_pte_flag)
  qed
  ultimately show ?thesis by blast
qed

text \<open>A section \<^verbatim>\<open>.data\<close> that starts inside a page, as \<^verbatim>\<open>linker.ld\<close> lets it, starts in a page that is mapped without write permission.\<close>

lemma data_page_read_only:
  assumes "image_ok im" "pt_base (kvm k) = PTPOOL_START" "vm_init im k h = Some k'" "\<not> aligned (im_erodata im)"
  shows "leaf (kvm k') (im_root_table im) (im_erodata im) = Some (ident_pte (im_erodata im) (PTE_R OR PTE_X))"
proof -
  note I = image_okD [OF assms(1)]
  have "\<not> 4096 dvd unat (im_erodata im)" using assms(4) by (simp add: aligned_unat)
  then have "unat (im_erodata im) < page_up (unat (im_erodata im))" by (rule page_up_less)
  moreover have "unat (im_erodata im) < 0x80400000" using I(2,3) \<open>\<not> 4096 dvd _\<close> by (cases "unat (im_erodata im) = 0x80400000") auto
  ultimately have "kernel_map im (im_erodata im) = Some (ident_pte (im_erodata im) (PTE_R OR PTE_X))"
    using I by (simp add: kernel_map_def kernel_regions_def)
  moreover have "unat (im_erodata im) < 2 ^ 39" using I by simp
  ultimately show ?thesis using vm_init_kmap [OF assms(1,2), of h] assms(3) by (auto simp: kmap_ok_def vm_activate_def)
qed

definition demo_image :: image where
  "demo_image = \<lparr>im_erodata = 0x80251234, im_end = 0x803a0000, im_user_bss_start = 0x80420000, im_user_end = 0x80421800,
     im_root_table = 0x80260000\<rparr>"

lemma demo_image_ok: "image_ok demo_image"
  by (simp add: image_ok_def demo_image_def aligned_def platform_heap_start_def)

definition kmap_kernel :: kernel where
  "kmap_kernel = talk_kernel\<lparr>kvm := boot_vm\<lparr>pt_base := PTPOOL_START\<rparr>\<rparr>"

lemma kmap_kernel_ok: "pt_base (kvm kmap_kernel) = PTPOOL_START" "0 < length (cpu_satp kmap_kernel)"
  by (simp_all add: kmap_kernel_def talk_kernel_def)

lemma demo_map:
  "kernel_map demo_image 0x80251234 = Some (ident_pte 0x80251234 (PTE_R OR PTE_X))" "kernel_map demo_image 0x40001000 = None"
  "kernel_map demo_image 0x80420010 = Some (ident_pte 0x80420010 (PTE_U OR PTE_R OR PTE_W))" "im_root_table demo_image = 0x80260000"
  by (simp_all add: kernel_map_def kernel_regions_def demo_image_def)

theorem vm_init_maps_witness:
  "\<exists>k'. vm_init demo_image kmap_kernel 0 = Some k' \<and>
    leaf (kvm k') 0x80260000 0x80251234 = Some (ident_pte 0x80251234 (PTE_R OR PTE_X)) \<and>
    leaf (kvm k') 0x80260000 0x40001000 = None"
proof -
  obtain k' where k: "vm_init demo_image kmap_kernel 0 = Some k'"
      "\<And>va. unat va < 2 ^ 39 \<Longrightarrow> leaf (kvm k') 0x80260000 va = kernel_map demo_image va"
    using vm_init_maps [OF demo_image_ok kmap_kernel_ok] unfolding demo_map(4) by blast
  from k(2) [of "0x80251234"] k(2) [of "0x40001000"] k(1) show ?thesis by (simp add: demo_map)
qed

theorem kernel_table_wx_witness:
  "\<exists>k' e. vm_init demo_image kmap_kernel 0 = Some k' \<and> leaf (kvm k') 0x80260000 0x80420010 = Some e \<and>
     e AND PTE_W \<noteq> 0 \<and> e AND PTE_X = 0 \<and> e AND PTE_U \<noteq> 0"
proof -
  obtain k' where k: "vm_init demo_image kmap_kernel 0 = Some k'"
      "\<And>va. unat va < 2 ^ 39 \<Longrightarrow> leaf (kvm k') 0x80260000 va = kernel_map demo_image va"
    using vm_init_kmap [OF demo_image_ok kmap_kernel_ok(1), of 0] by (auto simp: kmap_ok_def vm_activate_def demo_map)
  define e where "e = ident_pte 0x80420010 (PTE_U OR PTE_R OR PTE_W)"
  have "leaf (kvm k') 0x80260000 0x80420010 = Some e" using k(2) [of "0x80420010"] by (simp add: demo_map e_def)
  with kernel_table_wx [OF demo_image_ok kmap_kernel_ok(1) k(1), of "0x80420010" e] k(1) show ?thesis
    by (auto simp: demo_map(4) demo_image_def)
qed

end
