(* ===== verification/Boot.thy ===== *)
theory Boot
  imports Machine Kmap
begin

text \<open>
  Starting the system: \<^verbatim>\<open>smp.c\<close>, \<^verbatim>\<open>kmain\<close> of \<^verbatim>\<open>kernel_v100_riscv.c\<close>, which starts the service agents and the first user agent,
  and \<^verbatim>\<open>kmain\<close> of \<^verbatim>\<open>kernel_smp.c\<close>, which brings up a second hart.  The entry points of the programs are the fields of
  \<open>programs\<close>.

  Both return, and the state they reach satisfies the invariants the other theories start from: the tables are well formed, the page tables
  of the agents are isolated, and the first agent runs in user mode.
\<close>

section \<open>Definitions\<close>

unbundle bit_operations_syntax

subsection \<open>Harts\<close>

record smp =
  boot_hart :: int
  bsp_ready :: bool
  hart_ready :: "bool list"

definition smp_init :: "kernel \<Rightarrow> kernel \<times> smp" where
  "smp_init k =
     (k\<lparr>online_harts := 1, hart_ticks := replicate SMP_MAX_HARTS 0\<rparr>,
      \<lparr>boot_hart = 0, bsp_ready = False, hart_ready = (replicate SMP_MAX_HARTS False)[0 := True]\<rparr>)"

definition smp_bsp_release :: "smp \<Rightarrow> smp" where
  "smp_bsp_release sm = sm\<lparr>bsp_ready := True\<rparr>"

text \<open>A secondary hart: it waits (\<open>None\<close>) or is counted and enters the loop of the scheduler.\<close>

definition smp_secondary_entry :: "kernel \<Rightarrow> smp \<Rightarrow> nat \<Rightarrow> (kernel \<times> smp) option" where
  "smp_secondary_entry k sm hartid =
     (if hartid \<ge> SMP_MAX_HARTS then None
      else if \<not> bsp_ready sm then None
      else Some (k\<lparr>online_harts := online_harts k + 1, hart_ticks := (hart_ticks k)[hartid := 1]\<rparr>,
                 sm\<lparr>hart_ready := (hart_ready sm)[hartid := True]\<rparr>))"

definition smp_boot_hart :: "smp \<Rightarrow> int" where
  "smp_boot_hart sm = boot_hart sm"

definition smp_hart_ready :: "smp \<Rightarrow> int \<Rightarrow> bool" where
  "smp_hart_ready sm hartid = (if hartid < 0 \<or> hartid \<ge> int SMP_MAX_HARTS then False else hart_ready sm ! nat hartid)"

text \<open>The harts that arrive while the first one waits, in the order of their arrival.\<close>

fun harts_arrive :: "kernel \<Rightarrow> smp \<Rightarrow> nat list \<Rightarrow> kernel \<times> smp" where
  "harts_arrive k sm [] = (k, sm)"
| "harts_arrive k sm (h # hs) =
     (case smp_secondary_entry k sm h of
        None \<Rightarrow> harts_arrive k sm hs
      | Some (k1, sm1) \<Rightarrow> harts_arrive k1 sm1 hs)"

subsection \<open>The entry points of the kernels\<close>

record programs =
  router_agent_main :: u64
  display_agent_main :: u64
  input_agent_main :: u64
  console_agent_main :: u64
  init_agent :: u64

definition start_service :: "kernel \<Rightarrow> nat \<Rightarrow> u64 \<Rightarrow> string \<Rightarrow> u32 \<Rightarrow> kernel option" where
  "start_service k i entry name new_caps =
     map_option fst (agent_start_service (upd_agent k i (\<lambda>a. a\<lparr>aid := int i\<rparr>)) i entry (Some name) new_caps)"

definition start_init :: "bool \<Rightarrow> kernel \<Rightarrow> u64 \<Rightarrow> u32 \<Rightarrow> kernel option" where
  "start_init enable_persist k entry new_caps =
     map_option (\<lambda>(k1, rc). upd_agent k1 1 (\<lambda>a. a\<lparr>caps := new_caps\<rparr>))
       (agent_start_kernel enable_persist (upd_agent k 1 (\<lambda>a. a\<lparr>aid := 1\<rparr>)) 1 entry)"

definition boot_tables :: "kernel \<Rightarrow> kernel" where
  "boot_tables k =
     (let k1 = k\<lparr>kfs := ramfs_init (kfs k)\<rparr>;
          k2 = k1\<lparr>kquota := quota_init\<rparr>;
          k3 = fleet_init k2;
          (pol, fs) = policy_init (kpol k3) (kfs k3);
          k4 = remote_init (k3\<lparr>kpol := pol, kfs := fs\<rparr>)
      in agent_init k4 0)"

definition boot_memory :: "image \<Rightarrow> kernel \<Rightarrow> kernel option" where
  "boot_memory im k = vm_init im (k\<lparr>kvm := (kvm k)\<lparr>kheap := mem_init\<rparr>\<rparr>) 0"

definition kmain :: "image \<Rightarrow> programs \<Rightarrow> bool \<Rightarrow> kernel \<Rightarrow> (kernel \<times> smp \<times> turn) option" where
  "kmain im pr enable_persist k =
     (case smp_init k of (k0, sm) \<Rightarrow>
        Option.bind (boot_memory im k0) (\<lambda>k1.
        Option.bind (start_service (boot_tables k1) 6 (router_agent_main pr) ''model-router''
                       (CAP_LOG OR CAP_SVC_LLM OR CAP_LLM OR CAP_SEND OR CAP_RECV)) (\<lambda>k2.
        Option.bind (start_service k2 8 (display_agent_main pr) ''display''
                       (CAP_LOG OR CAP_SVC_DISPLAY OR CAP_DISPLAY OR CAP_SEND OR CAP_RECV)) (\<lambda>k3.
        Option.bind (start_service k3 9 (input_agent_main pr) ''input''
                       (CAP_LOG OR CAP_SVC_INPUT OR CAP_INPUT OR CAP_SEND OR CAP_RECV)) (\<lambda>k4.
        Option.bind (start_service k4 10 (console_agent_main pr) ''console''
                       (CAP_LOG OR CAP_SVC_CONSOLE OR CAP_SEND OR CAP_RECV)) (\<lambda>k5.
        Option.bind (start_init enable_persist k5 (init_agent pr)
                       (CAP_LOG OR CAP_MATH OR CAP_SPAWN OR CAP_SEND OR CAP_RECV OR CAP_FS OR CAP_TIME OR CAP_GPIO)) (\<lambda>k6.
        case scheduler_run_first k6 0 1 of (k7, t) \<Rightarrow> Some (k7, sm, t))))))))"

definition kmain_smp :: "image \<Rightarrow> programs \<Rightarrow> bool \<Rightarrow> nat list \<Rightarrow> kernel \<Rightarrow> (kernel \<times> smp \<times> turn) option" where
  "kmain_smp im pr enable_persist arrivals k =
     (case smp_init k of (k0, sm) \<Rightarrow>
        Option.bind (boot_memory im k0) (\<lambda>k1.
        let k2 = agent_init (k1\<lparr>kfs := ramfs_init (kfs k1)\<rparr>) 0
        in (case harts_arrive k2 (smp_bsp_release sm) arrivals of (k3, sm3) \<Rightarrow>
              if smp_online_count k3 < 2 then Some (k3\<lparr>halted := True\<rparr>, sm3, Turn_halt)
              else Option.bind (start_init enable_persist k3 (init_agent pr)
                                  (CAP_LOG OR CAP_MATH OR CAP_SPAWN OR CAP_SEND OR CAP_RECV)) (\<lambda>k4.
                   case scheduler_run_first k4 0 1 of (k5, t) \<Rightarrow> Some (k5, sm3, t)))))"

section \<open>Starting an agent\<close>

lemma kalloc_room:
  assumes "kmem_inv m" "unat (heap_ptr m) + unat n + 16 \<le> unat (heap_end m)" "kalloc m n = (m', p)"
  shows "p = heap_ptr m" "p \<noteq> 0" "kmem_inv m'" "heap_end m' = heap_end m" "unat (heap_ptr m') \<le> unat (heap_ptr m) + unat n + 15"
proof -
  let ?s = "(n + 15) AND NOT 15 :: u64"
  have b: "unat (heap_end m) < 2 ^ 62" "0 < unat (heap_ptr m)" using assms(1) by (simp_all add: kmem_inv_def)
  have s: "unat ?s = (unat n + 15) div 16 * 16" using unat_round_up [of n 4] assms(2) b by (simp add: mask_4)
  then have s1: "unat ?s \<le> unat n + 15" by simp
  have a: "unat (heap_ptr m + ?s) = unat (heap_ptr m) + unat ?s" using s1 assms(2) b by (simp add: unat_word_ariths)
  then have "\<not> heap_ptr m + ?s > heap_end m" using s1 assms(2) by (simp add: word_less_nat_alt)
  then have e: "m' = m\<lparr>heap_ptr := heap_ptr m + ?s\<rparr>" "p = heap_ptr m" using assms(3) by (auto simp: kalloc_def Let_def)
  then show "p = heap_ptr m" "p \<noteq> 0" "heap_end m' = heap_end m" using b by auto
  show "kmem_inv m'" "unat (heap_ptr m') \<le> unat (heap_ptr m) + unat n + 15"
    using e a s1 b assms(1,2) by (auto simp: kmem_inv_def)
qed

lemma kalloc_page_room:
  assumes "kmem_inv m" "unat (heap_ptr m) + 8192 \<le> unat (heap_end m)" "kalloc_page m = (m', p)"
  shows "p \<noteq> 0" "kmem_inv m'" "heap_end m' = heap_end m" "4096 dvd unat (heap_ptr m')" "unat (heap_ptr m') \<le> unat (heap_ptr m) + 8192"
proof -
  let ?p = "(heap_ptr m + 4095) AND NOT 4095 :: u64"
  have b: "unat (heap_end m) < 2 ^ 62" "0 < unat (heap_ptr m)" using assms(1) by (simp_all add: kmem_inv_def)
  have p: "unat ?p = (unat (heap_ptr m) + 4095) div 4096 * 4096"
    using unat_round_up [of "heap_ptr m" 12] assms(1) by (simp add: mask_12 kmem_inv_def)
  then have p1: "unat ?p \<le> unat (heap_ptr m) + 4095" "unat (heap_ptr m) \<le> unat ?p" "4096 dvd unat ?p" by (simp_all, linarith?)
  have a: "unat (?p + 4096) = unat ?p + 4096" using p1 assms(2) b by (simp add: unat_word_ariths)
  then have "\<not> ?p + 4096 > heap_end m" using p1 assms(2) by (simp add: word_less_nat_alt)
  then have e: "m' = m\<lparr>heap_ptr := ?p + 4096\<rparr>" "p = ?p" using assms(3) by (auto simp: kalloc_page_def Let_def add.commute)
  then show "p \<noteq> 0" "heap_end m' = heap_end m" "kmem_inv m'" "4096 dvd unat (heap_ptr m')" "unat (heap_ptr m') \<le> unat (heap_ptr m) + 8192"
    using a p1 b assms(1,2) by (auto simp: kmem_inv_def)
qed

text \<open>Mapping pages of the gigabyte of stacks and heaps in the table of an agent.\<close>

lemma map_region_loop_agent:
  assumes "vm_isolated vm R" "pt \<in> R" "aligned a" "aligned pa" "unat lim = unat a + n * 4096" "0x40000000 \<le> unat a" "unat lim \<le> 0x80000000"
    and "\<And>x. unat a \<le> unat x \<Longrightarrow> unat x < unat lim \<Longrightarrow> leaf vm pt x = None" "pt_next vm + 2 * n \<le> 64"
  shows "\<exists>vm'. map_region_loop vm pt a lim pa perm = Some (vm', 0) \<and> vm_isolated vm' R \<and> vm_same vm vm' \<and> pt_next vm' \<le> pt_next vm + 2 * n"
  using assms(1,3-9)
proof (induction n arbitrary: vm a pa)
  case 0
  then show ?case by (subst map_region_loop.simps) (auto simp: word_less_nat_alt vm_same_def)
next
  case (Suc n)
  have ok: "pool_ok vm" "pt_tree vm pt" using Suc.prems(1) assms(2) by (auto simp: vm_isolated_def)
  have a: "leaf vm pt a = None" using Suc.prems(4,7) by simp
  have v2: "vpn 2 a = 1"
  proof -
    have "unat a < 0x80000000" using Suc.prems(4,6) by simp
    then have "unat a div 1073741824 = 1" using Suc.prems(5) by (intro div_nat_eqI) simp_all
    then show ?thesis by (simp add: vpn_unat)
  qed
  obtain vm1 where m: "vm_map_page vm pt a pa perm = (vm1, 0)" "pt_base vm1 = pt_base vm" "pt_next vm1 \<le> pt_next vm + 2"
  proof -
    let ?c = "(if vpn 2 a \<in> tops vm pt then 0 else 1) + (if (vpn 2 a, vpn 1 a) \<in> mids vm pt then 0 else (1 :: nat))"
    have "?c \<le> 2" by simp
    then show thesis using vm_map_page_counts [OF ok Suc.prems(2,3) a, of perm] Suc.prems(8) that by auto
  qed
  note M = vm_map_page_cases [OF ok m(1)] and iso = vm_isolated_map [OF Suc.prems(1) assms(2) v2 m(1)]
  have u: "unat (a + 4096) = unat a + 4096" using Suc.prems(4,6) by (simp add: unat_word_ariths)
  have al: "aligned (a + 4096)" "4096 dvd unat a" using Suc.prems(2) u by (simp_all add: aligned_unat)
  have ap: "aligned (pa + 4096)" using Suc.prems(3) by (simp add: aligned_unat unat_word_ariths dvd_mod)
  have n: "leaf vm1 pt x = None" if "unat (a + 4096) \<le> unat x" "unat x < unat lim" for x
  proof -
    have "unat x div 4096 \<noteq> unat a div 4096" using that u al(2) by (auto elim!: dvdE)
    then have "page_key x \<noteq> page_key a" using page_key_iff [of x a] that u Suc.prems(6) by simp
    with M [of x] Suc.prems(7) [of x] that u show ?thesis by simp
  qed
  have "\<exists>vm'. map_region_loop vm1 pt (a + 4096) lim (pa + 4096) perm = Some (vm', 0) \<and> vm_isolated vm' R \<and> vm_same vm1 vm' \<and>
      pt_next vm' \<le> pt_next vm1 + 2 * n"
    using Suc.prems u m(3) n by (intro Suc.IH [OF conjunct1 [OF iso] al(1) ap]) auto
  moreover have "map_region_loop vm pt a lim pa perm = map_region_loop vm1 pt (a + 4096) lim (pa + 4096) perm"
    using m(1) Suc.prems(4) by (subst map_region_loop.simps) (simp add: word_less_nat_alt)
  ultimately show ?case using m(2,3) M by (auto simp: vm_same_def)
qed

lemma vm_isolated_subset: "vm_isolated vm R \<Longrightarrow> S \<subseteq> R \<Longrightarrow> vm_isolated vm S"
  unfolding vm_isolated_def by blast

lemma stack_slot:
  assumes "i < 12"
  shows "unat (USER_STACK_BASE + of_int (int i) * USER_STACK_SLOT + PAGE_SIZE) = 0x40001000 + i * 12288"
  using assms by (simp add: unat_word_ariths unat_of_nat)

lemma vm_map_user_stack_ok:
  assumes "vm_isolated vm R" "pt \<in> R" "i < 12" "aligned pa" "pt_next vm + 4 \<le> 64"
    and "\<And>x. 0x40000000 \<le> unat x \<Longrightarrow> unat x < 0x80000000 \<Longrightarrow> leaf vm pt x = None"
  shows "\<exists>vm'. vm_map_user_stack vm pt (int i) pa AGENT_STACK_SIZE = Some (vm', 0) \<and> vm_isolated vm' R \<and> vm_same vm vm' \<and>
    pt_next vm' \<le> pt_next vm + 4"
proof -
  define va where "va = USER_STACK_BASE + of_int (int i) * USER_STACK_SLOT + PAGE_SIZE"
  have u: "unat va = 0x40001000 + i * 12288" unfolding va_def by (rule stack_slot [OF assms(3)])
  have e: "unat (va + 8192) = unat va + 8192" using u assms(3) by (simp add: unat_word_ariths)
  have d: "4096 dvd unat va" "4096 dvd unat (va + 8192)" unfolding e unfolding u by (simp_all add: dvd_add)
  then have r: "pa_round_down va = va" by (simp add: word_unat_eq_iff unat_pa_round_down)
  have "unat (pa_round_up (va + 8192)) = page_up (unat (va + 8192))" using u e assms(3) by (intro unat_pa_round_up) simp
  then have l: "pa_round_up (va + 8192) = va + 8192" using d(2) by (auto simp: word_unat_eq_iff elim!: dvdE)
  have "\<exists>vm'. map_region_loop vm pt va (va + 8192) pa (PTE_U OR PTE_R OR PTE_W) = Some (vm', 0) \<and> vm_isolated vm' R \<and> vm_same vm vm' \<and>
      pt_next vm' \<le> pt_next vm + 2 * 2"
    using assms(3,5,6) u e d by (intro map_region_loop_agent [OF assms(1,2) _ assms(4)]) (auto simp: aligned_unat)
  then show ?thesis unfolding vm_map_user_stack_def vm_map_region_def Let_def va_def [symmetric] r l by simp
qed

definition agent_tables :: "kernel \<Rightarrow> u64 set" where
  "agent_tables k = pagetable ` agent_at k ` {..<MAX_AGENTS} - {0}"

definition own_tables :: "kernel \<Rightarrow> bool" where
  "own_tables k \<longleftrightarrow> (\<forall>i < MAX_AGENTS. \<forall>j < MAX_AGENTS.
     pagetable (agent_at k i) \<noteq> 0 \<and> pagetable (agent_at k i) = pagetable (agent_at k j) \<longrightarrow> i = j)"

text \<open>The state between two starts, with memory and table pages for \<open>n\<close> more agents.\<close>

definition boot_inv :: "nat \<Rightarrow> kernel \<Rightarrow> bool" where
  "boot_inv n k \<longleftrightarrow> kernel_wf k \<and> vm_isolated (kvm k) (agent_tables k) \<and> own_tables k \<and> kmem_inv (kheap (kvm k)) \<and>
     unat (heap_ptr (kheap (kvm k))) + n * 20480 \<le> unat (heap_end (kheap (kvm k))) \<and> pt_next (kvm k) + 5 * n \<le> PT_PAGES"

definition started :: "kernel \<Rightarrow> nat \<Rightarrow> u64 \<Rightarrow> kernel \<Rightarrow> bool" where
  "started k i entry k' \<longleftrightarrow> pagetable (agent_at k' i) \<noteq> 0 \<and>
     atf (agent_at k' i) = Some (agent_arch_init_tf (kgp k) entry (stack_va_of (agent_at k i) + AGENT_STACK_SIZE - 256) zero_tf) \<and>
     (\<forall>j. j \<noteq> i \<longrightarrow> agent_at k' j = agent_at k j) \<and> k' = k\<lparr>agents := agents k', kvm := kvm k'\<rparr> \<and> kernel_pt (kvm k') = kernel_pt (kvm k)"

lemma create_kheap: "kheap (new_root vm) = kheap vm" "phys (new_root vm) = phys vm"
  by (simp_all add: new_root_def vm_create_agent_pt_def pt_alloc_def Let_def)

lemma agent_setup_stack_ok:
  assumes "boot_inv (Suc n) k" "i < 12"
  shows "\<exists>k'. agent_setup_stack k i entry = Some k' \<and> boot_inv n k' \<and> started k i entry k'"
proof -
  have wf: "kernel_wf k" and iso: "vm_isolated (kvm k) (agent_tables k)" and own: "own_tables k" and mem: "kmem_inv (kheap (kvm k))"
    and hp: "unat (heap_ptr (kheap (kvm k))) + Suc n * 20480 \<le> unat (heap_end (kheap (kvm k)))" and pn: "pt_next (kvm k) + 5 * Suc n \<le> 64"
    using assms(1) by (auto simp: boot_inv_def)
  have len: "length (agents k) = 12" using kernel_wfD(1) [OF wf] .
  have aid: "aid (agent_at k i) = int i" using kernel_wfD(6) [OF wf assms(2)] by (simp add: agent_at_def)
  obtain m1 g where g: "kalloc_page (kheap (kvm k)) = (m1, g)" by (cases "kalloc_page (kheap (kvm k))")
  note G = kalloc_page_room [OF mem _ g]
  obtain m2 st where st: "kalloc m1 8192 = (m2, st)" by (cases "kalloc m1 8192")
  have G': "g \<noteq> 0" "kmem_inv m1" "heap_end m1 = heap_end (kheap (kvm k))" "4096 dvd unat (heap_ptr m1)"
      "unat (heap_ptr m1) \<le> unat (heap_ptr (kheap (kvm k))) + 8192"
    using G hp by auto
  have S: "st = heap_ptr m1" "st \<noteq> 0" "kmem_inv m2" "heap_end m2 = heap_end m1" "unat (heap_ptr m2) \<le> unat (heap_ptr m1) + 8207"
    using kalloc_room [OF G'(2) _ st] G' hp by auto
  define vm0 where "vm0 = (kvm k)\<lparr>kheap := m2\<rparr>"
  let ?f = "pool_table vm0 (pt_next vm0)" and ?R = "agent_tables k"
  have iso0: "vm_isolated vm0 ?R" "pt_next vm0 = pt_next (kvm k)" "kheap vm0 = m2" using iso by (simp_all add: vm0_def)
  have ok: "pool_ok vm0" "pt_next vm0 < 64" "pt_tree vm0 (kernel_pt vm0)" "\<not> pte_valid (ptes vm0 (kernel_pt vm0) 1)"
    using iso0 pn by (auto simp: vm_isolated_def)
  note C = vm_create_some [OF ok(1,2)]
  have cr: "vm_create_agent_pt vm0 = (new_root vm0, ?f)" by (simp add: new_root_def C(1) prod_eq_iff)
  have f: "?f \<noteq> 0" "?f \<notin> ?R"
    using pool_table_nonzero [OF ok(1,2)] fresh_table [OF ok(1,2)] iso0(1) by (auto simp: vm_isolated_def pt_tree_def)
  have iso1: "vm_isolated (new_root vm0) (insert ?f ?R)" using vm_isolated_create [OF iso0(1) ok(2)] .
  have nl: "leaf (new_root vm0) ?f x = None" if "0x40000000 \<le> unat x" "unat x < 0x80000000" for x
  proof -
    have "unat x div 1073741824 = 1" using that by (intro div_nat_eqI) simp_all
    then have "vpn 2 x = 1" by (simp add: vpn_unat)
    then show ?thesis using new_root_tree(3) [OF ok(1-3), of x] leaf_None2 [of vm0 "kernel_pt vm0" x] ok(4) by simp
  qed
  have al: "aligned st" using S(1) G'(4) by (simp add: aligned_unat)
  moreover have "unat st + 4096 < 2 ^ 64" using G' S hp by (simp add: kmem_inv_def)
  ultimately have "pa_round_up st = st" using unat_pa_round_up [of st] by (auto simp: word_unat_eq_iff aligned_unat elim!: dvdE)
  then have rnd: "(st + 4096 - 1) AND NOT (4096 - 1) = st" by (simp only: pa_round_up_def)
  obtain vm2 where v2: "vm_map_user_stack (new_root vm0) ?f (int i) st 8192 = Some (vm2, 0)" "vm_isolated vm2 (insert ?f ?R)"
      "vm_same (new_root vm0) vm2" "pt_next vm2 \<le> pt_next vm0 + 5"
    using vm_map_user_stack_ok [OF iso1 insertI1 assms(2) al _ nl] pn iso0(2) C(4) by auto
  have k2: "kheap vm2 = m2" using v2(3) by (simp add: vm_same_def create_kheap iso0(3))
  obtain m3 t where t: "kalloc m2 264 = (m3, t)" by (cases "kalloc m2 264")
  have T: "t \<noteq> 0" "kmem_inv m3" "heap_end m3 = heap_end m2" "unat (heap_ptr m3) \<le> unat (heap_ptr m2) + 279"
    using kalloc_room [OF S(3) _ t] G' S hp by auto
  define k' where "k' = upd_agent (k\<lparr>kvm := vm2\<lparr>kheap := m3\<rparr>\<rparr>) i (\<lambda>a. a\<lparr>pagetable := ?f,
     stack_base := stack_va_of (agent_at k i) + 8192,
     atf := Some (agent_arch_init_tf (kgp k) entry (stack_va_of (agent_at k i) + 8192 - 256) zero_tf),
     aentry := entry, heap_base := USER_HEAP_BASE + of_int (aid a) * AGENT_HEAP_SIZE, heap_max_pages := 16, heap_mapped := 0\<rparr>)"
  have "agent_setup_stack k i entry = Some k'"
  proof -
    let ?k0 = "upd_agent k i (\<lambda>a. a\<lparr>atf := None, pagetable := 0\<rparr>)"
    have e1: "kalloc_page_k ?k0 = (?k0\<lparr>kvm := (kvm k)\<lparr>kheap := m1\<rparr>\<rparr>, g)" by (simp add: kalloc_page_k_def g)
    have e2: "kalloc_k (?k0\<lparr>kvm := (kvm k)\<lparr>kheap := m1\<rparr>\<rparr>) 8192 = (?k0\<lparr>kvm := vm0\<rparr>, st)"
      by (simp add: kalloc_k_def st vm0_def)
    show ?thesis
      unfolding agent_setup_stack_def Let_def e1 prod.case e2 rnd using G'(1) S(2) f(1) T(1) aid len assms(2)
      by (simp add: cr v2(1) kalloc_k_def k2 t k'_def upd_agent_def agent_at_def stack_va_of_def del: upt.simps)
  qed
  moreover have at: "j \<noteq> i \<Longrightarrow> agent_at k' j = agent_at k j" "pagetable (agent_at k' i) = ?f" for j
    using len assms(2) by (simp_all add: k'_def)
  moreover have "boot_inv n k'"
  proof -
    have "kernel_wf k'" unfolding k'_def by (rule kernel_wf_upd) (simp_all add: wf)
    moreover have tab: "agent_tables k' \<subseteq> insert ?f ?R"
    proof
      fix q
      assume "q \<in> agent_tables k'"
      then obtain j where "j < 12" "q = pagetable (agent_at k' j)" "q \<noteq> 0" by (auto simp: agent_tables_def)
      then show "q \<in> insert ?f ?R" using at by (cases "j = i") (auto simp: agent_tables_def)
    qed
    then have "vm_isolated (kvm k') (agent_tables k')"
      using vm_isolated_subset [OF v2(2)] by (simp add: k'_def)
    moreover have "own_tables k'"
    proof -
      have "pagetable (agent_at k j) \<in> insert 0 ?R" if "j < 12" for j using that by (auto simp: agent_tables_def)
      then have "pagetable (agent_at k j) \<noteq> ?f" if "j < 12" for j using f that by (metis insertE)
      then have "a = b" if "a < 12" "b < 12" "pagetable (agent_at k' a) \<noteq> 0" "pagetable (agent_at k' a) = pagetable (agent_at k' b)" for a b
        using that own at(1) [of a] at(1) [of b] at(2)
        by (cases "a = i"; cases "b = i") (auto simp: own_tables_def)
      then show ?thesis unfolding own_tables_def by blast
    qed
    moreover have "kheap (kvm k') = m3" "pt_next (kvm k') = pt_next vm2" by (simp_all add: k'_def)
    ultimately show ?thesis using T S G' hp pn v2(4) iso0(2) by (simp add: boot_inv_def)
  qed
  moreover have "started k i entry k'"
    using f(1) at len assms(2) v2(3) C(5) by (auto simp: started_def k'_def upd_agent_def agent_at_def vm_same_def vm0_def)
  ultimately show ?thesis by blast
qed

text \<open>Starting a service, or the first agent, gives it a table and a frame of its own and the named capabilities.\<close>

definition serves :: "kernel \<Rightarrow> nat \<Rightarrow> u64 \<Rightarrow> u32 \<Rightarrow> bool" where
  "serves k i entry c \<longleftrightarrow> pagetable (agent_at k i) \<noteq> 0 \<and> caps (agent_at k i) = c \<and>
     (\<exists>tf. atf (agent_at k i) = Some tf \<and> tf_sepc tf = entry \<and> tf_sstatus tf AND SSTATUS_SPP = 0)"

text \<open>What the starts of the agents leave as it is.\<close>

definition boot_same :: "kernel \<Rightarrow> kernel \<Rightarrow> bool" where
  "boot_same k k' \<longleftrightarrow> kfs k' = kfs k \<and> kquota k' = kquota k \<and> kpol k' = kpol k \<and> cpu_current k' = cpu_current k \<and>
     cpu_satp k' = cpu_satp k \<and> online_harts k' = online_harts k \<and> kernel_sched_ready k' = kernel_sched_ready k \<and>
     remote_enabled k' = remote_enabled k \<and> halted k' = halted k \<and> kernel_pt (kvm k') = kernel_pt (kvm k)"

lemma boot_inv_agents:
  assumes "boot_inv n k" "kernel_wf k'" "kvm k' = kvm k" "\<And>j. j < 12 \<Longrightarrow> pagetable (agent_at k' j) = pagetable (agent_at k j)"
  shows "boot_inv n k'"
proof -
  have "agent_tables k' = agent_tables k" using assms(4) by (auto simp: agent_tables_def image_iff)
  moreover have "own_tables k' = own_tables k" using assms(4) by (simp add: own_tables_def)
  ultimately show ?thesis using assms(1-3) by (simp add: boot_inv_def)
qed

lemma upd_same_aid: "kernel_wf k \<Longrightarrow> i < 12 \<Longrightarrow> upd_agent k i (\<lambda>a. a\<lparr>aid := int i\<rparr>) = k"
  by (simp add: upd_agent_def kernel_wfD(6) [symmetric] list_update_id)

lemma notify_boot: "online_harts (sched_notify_runnable k i) = online_harts k"
    "kernel_sched_ready (sched_notify_runnable k i) = kernel_sched_ready k"
  by (simp_all add: sched_notify_runnable_def sched_rq_add_def Let_def)

lemma sched_notify_wf: "kernel_wf k \<Longrightarrow> kernel_wf (sched_notify_runnable k i)"
proof -
  assume "kernel_wf k"
  then have "kernel_wf (upd_agent k i (\<lambda>a. a\<lparr>astate := AGENT_RUNNABLE, running_cpu := - 1\<rparr>))" by (rule kernel_wf_upd) simp
  moreover have "kernel_wf k1 \<Longrightarrow> kernel_wf (sched_rq_add k1 i)" for k1 by (simp add: sched_rq_add_def kernel_wf_def Let_def)
  ultimately show ?thesis using \<open>kernel_wf k\<close> by (simp add: sched_notify_runnable_def)
qed

lemma user_frame: "tf_sstatus (agent_arch_init_tf gp entry sp tf) AND SSTATUS_SPP = 0" "tf_sepc (agent_arch_init_tf gp entry sp tf) = entry"
  by (simp_all add: agent_arch_init_tf_def)

lemma start_service_ok:
  assumes "boot_inv (Suc n) k" "i < 12"
  shows "\<exists>k'. start_service k i entry name c = Some k' \<and> boot_inv n k' \<and> serves k' i entry c \<and>
    (\<forall>j. j \<noteq> i \<longrightarrow> agent_at k' j = agent_at k j) \<and> boot_same k k'"
proof -
  have wf: "kernel_wf k" using assms(1) by (simp add: boot_inv_def)
  obtain k1 where k1: "agent_setup_stack k i entry = Some k1" "boot_inv n k1" "started k i entry k1"
    using agent_setup_stack_ok [OF assms] by blast
  have wf1: "kernel_wf k1" using k1(2) by (simp add: boot_inv_def)
  have len: "length (agents k1) = 12" using kernel_wfD(1) [OF wf1] .
  define k2 where "k2 = (upd_agent k1 i (\<lambda>a. a\<lparr>astate := AGENT_RUNNABLE, aphase := AGENT_PHASE_IDLE, caps := c, exit_code := 0,
      aname := strlcpy_local name AGENT_NAME_SIZE, inbox := msgbox_init (inbox a)\<rparr>))\<lparr>agent_count := wrap32 (agent_count k1 + 1)\<rparr>"
  define k3 where "k3 = sched_notify_runnable k2 i"
  have wf2: "kernel_wf k2" unfolding k2_def by (simp add: kernel_wf_upd [OF wf1])
  have at: "agent_at k3 j = (if j = i then (agent_at k2 i)\<lparr>astate := AGENT_RUNNABLE, running_cpu := - 1\<rparr> else agent_at k1 j)" for j
    using notify_agent [OF wf2 assms(2), of j] len assms(2) by (simp add: k3_def) (simp add: k2_def)
  have pt: "pagetable (agent_at k3 j) = pagetable (agent_at k1 j)" for j using len assms(2) by (simp add: at k2_def)
  have "start_service k i entry name c = Some k3"
    using k1(1,3) by (simp add: start_service_def upd_same_aid [OF wf assms(2)] agent_start_service_def k3_def k2_def started_def)
  moreover have "boot_inv n k3"
    using boot_inv_agents [OF k1(2), of k3] wf2 pt by (simp add: k3_def k2_def sched_notify_wf)
  moreover have "serves k3 i entry c"
    using k1(3) len assms(2) at [of i] user_frame by (auto simp: serves_def started_def k2_def)
  moreover have "agent_at k3 j = agent_at k j" if "j \<noteq> i" for j using at that k1(3) by (simp add: started_def)
  moreover have "boot_same k k3"
  proof -
    have e: "k1 = k\<lparr>agents := agents k1, kvm := kvm k1\<rparr>" "kernel_pt (kvm k1) = kernel_pt (kvm k)" using k1(3) by (simp_all add: started_def)
    show ?thesis unfolding boot_same_def k3_def k2_def using e(2) by (simp add: notify_boot, subst (1 2 3 4 5 6 7 8 9) e(1)) simp
  qed
  ultimately show ?thesis by blast
qed

lemma start_init_ok:
  assumes "boot_inv (Suc n) k"
  shows "\<exists>k'. start_init ep k entry c = Some k' \<and> boot_inv n k' \<and> serves k' 1 entry c \<and>
    (\<forall>j. j \<noteq> 1 \<longrightarrow> agent_at k' j = agent_at k j) \<and> boot_same k k'"
proof -
  have wf: "kernel_wf k" using assms(1) by (simp add: boot_inv_def)
  obtain k1 where k1: "agent_setup_stack k 1 entry = Some k1" "boot_inv n k1" "started k 1 entry k1"
    using agent_setup_stack_ok [OF assms, of 1] by auto
  have wf1: "kernel_wf k1" using k1(2) by (simp add: boot_inv_def)
  have len: "length (agents k1) = 12" using kernel_wfD(1) [OF wf1] .
  define c0 where "c0 = (if ep then CAP_LOG OR CAP_MATH OR CAP_SPAWN OR CAP_SEND OR CAP_RECV OR CAP_TIME
     else CAP_LOG OR CAP_MATH OR CAP_SPAWN OR CAP_SEND OR CAP_RECV OR CAP_LLM OR CAP_FS OR CAP_TIME)"
  define k2 where "k2 = (upd_agent k1 1 (\<lambda>a. a\<lparr>astate := AGENT_CREATED, aphase := AGENT_PHASE_IDLE, caps := c0,
      aname := ''init'', home_cpu := 0, running_cpu := - 1\<rparr>))\<lparr>agent_count := wrap32 (agent_count k1 + 1)\<rparr>"
  define k3 where "k3 = upd_agent k2 1 (\<lambda>a. a\<lparr>caps := c\<rparr>)"
  have wf3: "kernel_wf k3" unfolding k3_def k2_def by (simp add: kernel_wf_upd wf1)
  have len2: "length (agents k2) = 12" using len by (simp add: k2_def)
  have at: "agent_at k3 j = (if j = 1 then (agent_at k2 1)\<lparr>caps := c\<rparr> else agent_at k1 j)" for j
    using len len2 by (simp add: k3_def) (simp add: k2_def)
  have pt: "pagetable (agent_at k3 j) = pagetable (agent_at k1 j)" for j using len by (simp add: at) (simp add: k2_def)
  have "start_init ep k entry c = Some k3"
    using k1(1,3) upd_same_aid [OF wf, of 1] by (simp add: start_init_def agent_start_kernel_def k3_def k2_def c0_def started_def)
  moreover have "boot_inv n k3"
    using boot_inv_agents [OF k1(2) wf3] pt by (simp add: k3_def k2_def)
  moreover have "serves k3 1 entry c"
    using k1(3) len at [of 1] user_frame by (auto simp: serves_def started_def k2_def)
  moreover have "agent_at k3 j = agent_at k j" if "j \<noteq> 1" for j using at that k1(3) by (simp add: started_def)
  moreover have "boot_same k k3"
  proof -
    have e: "k1 = k\<lparr>agents := agents k1, kvm := kvm k1\<rparr>" "kernel_pt (kvm k1) = kernel_pt (kvm k)" using k1(3) by (simp_all add: started_def)
    show ?thesis unfolding boot_same_def k3_def k2_def using e(2) by (simp, subst (1 2 3 4 5 6 7 8 9) e(1)) simp
  qed
  ultimately show ?thesis by blast
qed

section \<open>The tables at the start\<close>

text \<open>The state before \<^verbatim>\<open>kmain\<close>: the sections \<^verbatim>\<open>.data\<close> and \<^verbatim>\<open>.bss\<close> as they are loaded, and anything in the table pages.\<close>

definition reset_state :: "kernel \<Rightarrow> bool" where
  "reset_state k \<longleftrightarrow> agents k = replicate MAX_AGENTS (blank_agent\<lparr>running_cpu := 0\<rparr>) \<and> cpu_current k = replicate SMP_MAX_HARTS None \<and>
     cpu_rq k = replicate SMP_MAX_HARTS [] \<and> length (cpu_satp k) = SMP_MAX_HARTS \<and> \<not> kernel_sched_ready k \<and>
     kfs k = blank_fs \<and> pt_base (kvm k) = PTPOOL_START"

lemma agent_init_boot:
  assumes "agents k = replicate 12 (blank_agent\<lparr>running_cpu := 0\<rparr>)" "cpu_current k = replicate 4 None" "cpu_rq k = replicate 4 []"
    "length (cpu_satp k) = 4" "kmap_ok kernel_areas (kvm k) (kernel_pt (kvm k)) f" "kheap (kvm k) = mem_init" "kernel_pt (kvm k) \<noteq> 0"
  shows "boot_inv 11 (agent_init k 0)" "\<And>j. j < 12 \<Longrightarrow> agent_at (agent_init k 0) j = blank_agent\<lparr>aid := int j, inbox := msgbox_init blank_box\<rparr>"
    "boot_same k (agent_init k 0)"
proof -
  let ?k = "agent_init k 0"
  have cc: "cpu_current ?k = replicate 4 None"
    by (simp add: agent_init_def agent_set_current_def assms(2) numeral_eq_Suc)
  have ag: "agent_at ?k j = blank_agent\<lparr>aid := int j, inbox := msgbox_init blank_box\<rparr>" if "j < 12" for j
    using that by (simp add: agent_init_def agent_set_current_def agent_at_def assms(1) blank_agent_def del: upt_Suc)
  then show "\<And>j. j < 12 \<Longrightarrow> agent_at ?k j = blank_agent\<lparr>aid := int j, inbox := msgbox_init blank_box\<rparr>" .
  have len: "length (agents ?k) = 12" "cpu_rq ?k = cpu_rq k" "cpu_satp ?k = cpu_satp k" "kvm ?k = kvm k"
    by (simp_all add: agent_init_def agent_set_current_def)
  have "aid (agents ?k ! j) = int j" if "j < 12" for j using ag [OF that] by (simp add: agent_at_def)
  then have wf: "kernel_wf ?k" using cc len assms(3,4) by (simp add: kernel_wf_def)
  have z: "pagetable (agent_at ?k j) = 0" if "j < 12" for j using ag [OF that] by (simp add: blank_agent_def)
  then have t: "agent_tables ?k = {}" "own_tables ?k" by (auto simp: agent_tables_def own_tables_def)
  have "vm_isolated (kvm k) {}"
    using assms(5) kmap_slots(2) [OF assms(5)] by (auto simp: vm_isolated_def kmap_ok_def)
  with wf t kmap_slots(1) [OF assms(5)] assms(6) show "boot_inv 11 ?k"
    by (simp add: boot_inv_def len mem_init_inv) (simp add: mem_init_def platform_heap_start_def)
  show "boot_same k ?k" by (simp add: boot_same_def agent_init_def agent_set_current_def assms(2) numeral_eq_Suc)
qed

text \<open>The files every boot starts with.\<close>

definition boot_files :: "string \<Rightarrow> string option" where
  "boot_files = [''/sys/version'' \<mapsto> ''OpenAgentOS v1.0'', ''/sys/tick_hz'' \<mapsto> ''10000000'',
     FLEET_COLLECTOR_PATH \<mapsto> FLEET_COLLECTOR_DEFAULT, POLICY_ACTIVE \<mapsto> ''deny 10'' @ [NEWLINE], REMOTE_TOKEN_PATH \<mapsto> REMOTE_DEFAULT_TOKEN]"

lemma put_file:
  assumes "ramfs_inv fs" "path_fits p" "card (dom (fs_map fs)) < RAMFS_MAX_FILES" "0 < n" "n < 8192" "nat n \<le> length d"
  shows "ramfs_inv (fst (ramfs_put fs p d n))" "fs_map (fst (ramfs_put fs p d n)) = (fs_map fs)(p \<mapsto> take (nat n) d)"
  using ramfs_put_ok [OF assms(1,2) has_room_map [OF assms(1,3)] assms(4-6)] by simp_all

lemma boot_tables_ok:
  assumes "kfs k = blank_fs"
  shows "\<exists>fs pol. boot_tables k = agent_init (k\<lparr>kquota := quota_init, kpol := pol, remote_enabled := False, kfs := fs\<rparr>) 0 \<and>
    ramfs_inv fs \<and> fs_map fs = boot_files \<and> policy_inv pol \<and> deny_tools pol = []"
proof -
  define fs1 where "fs1 = ramfs_init (kfs k)"
  define fs2 where "fs2 = fst (ramfs_put fs1 FLEET_COLLECTOR_PATH FLEET_COLLECTOR_DEFAULT (int (length FLEET_COLLECTOR_DEFAULT)))"
  define fs3 where "fs3 = fst (ramfs_put fs2 POLICY_ACTIVE (''deny 10'' @ [NEWLINE]) 8)"
  define fs4 where "fs4 = fst (ramfs_put fs3 REMOTE_TOKEN_PATH REMOTE_DEFAULT_TOKEN (int (length REMOTE_DEFAULT_TOKEN)))"
  define pol where "pol = (kpol k)\<lparr>deny_tools := [], net_allow := [], net_restrict := 0\<rparr>"
  have f1: "ramfs_inv fs1" "fs_map fs1 = [''/sys/version'' \<mapsto> ''OpenAgentOS v1.0'', ''/sys/tick_hz'' \<mapsto> ''10000000'']"
    using ramfs_init_inv [of blank_fs] unfolding fs1_def assms by (simp_all add: blank_fs_def)
  have f2: "ramfs_inv fs2" "fs_map fs2 = (fs_map fs1)(FLEET_COLLECTOR_PATH \<mapsto> FLEET_COLLECTOR_DEFAULT)"
    using put_file [OF f1(1), of FLEET_COLLECTOR_PATH "int (length FLEET_COLLECTOR_DEFAULT)" FLEET_COLLECTOR_DEFAULT]
    by (simp_all add: fs2_def f1(2) path_fits_def)
  have f3: "ramfs_inv fs3" "fs_map fs3 = (fs_map fs2)(POLICY_ACTIVE \<mapsto> ''deny 10'' @ [NEWLINE])"
    using put_file [OF f2(1), of POLICY_ACTIVE 8 "''deny 10'' @ [NEWLINE]"]
    by (simp_all add: fs3_def f2(2) f1(2) path_fits_def)
  have f4: "ramfs_inv fs4" "fs_map fs4 = (fs_map fs3)(REMOTE_TOKEN_PATH \<mapsto> REMOTE_DEFAULT_TOKEN)"
    using put_file [OF f3(1), of REMOTE_TOKEN_PATH "int (length REMOTE_DEFAULT_TOKEN)" REMOTE_DEFAULT_TOKEN]
    by (simp_all add: fs4_def f3(2) f2(2) f1(2) path_fits_def)
  have "\<not> ramfs_path_exists fs1 FLEET_COLLECTOR_PATH" "\<not> ramfs_path_exists fs2 POLICY_ACTIVE"
    by (simp_all add: ramfs_path_exists_map f2(2) f1(2))
  then have "boot_tables k = agent_init (k\<lparr>kquota := quota_init, kpol := pol, remote_enabled := False, kfs := fs4\<rparr>) 0"
    by (simp add: boot_tables_def Let_def fleet_init_def policy_init_def remote_init_def fs4_def fs3_def fs2_def
        fs1_def pol_def)
  moreover have "fs_map fs4 = boot_files" by (simp add: f4(2) f3(2) f2(2) f1(2) boot_files_def)
  moreover have "policy_inv pol" "deny_tools pol = []" by (simp_all add: pol_def policy_inv_def)
  ultimately show ?thesis using f4(1) by blast
qed

section \<open>The whole boot\<close>

definition boot_caps :: "nat \<Rightarrow> u32" where
  "boot_caps i =
     (if i = 1 then CAP_LOG OR CAP_MATH OR CAP_SPAWN OR CAP_SEND OR CAP_RECV OR CAP_FS OR CAP_TIME OR CAP_GPIO
      else if i = 6 then CAP_LOG OR CAP_SVC_LLM OR CAP_LLM OR CAP_SEND OR CAP_RECV
      else if i = 8 then CAP_LOG OR CAP_SVC_DISPLAY OR CAP_DISPLAY OR CAP_SEND OR CAP_RECV
      else if i = 9 then CAP_LOG OR CAP_SVC_INPUT OR CAP_INPUT OR CAP_SEND OR CAP_RECV
      else if i = 10 then CAP_LOG OR CAP_SVC_CONSOLE OR CAP_SEND OR CAP_RECV
      else 0)"

text \<open>The machine after the boot: the first hart runs the first agent, the harts in \<open>hs\<close> look for work.\<close>

definition boot_machine :: "kernel \<Rightarrow> turn \<Rightarrow> nat set \<Rightarrow> machine" where
  "boot_machine k t hs = \<lparr>mkernel = k, modes = (\<lambda>h. if h = 0 then loop_mode k t else if h \<in> hs then Loop else Off), broken = False\<rparr>"

lemma boot_machine_inv: "kernel_wf k \<Longrightarrow> machine_inv (boot_machine k t hs)"
  by (auto simp: machine_inv_def boot_machine_def intro: loop_mode_user)

lemma boot_memory_ok:
  assumes "image_ok im" "reset_state k"
  shows "\<exists>vm. boot_memory im (fst (smp_init k)) = Some (vm_activate ((fst (smp_init k))\<lparr>kvm := vm\<rparr>) 0 (im_root_table im)) \<and>
    kmap_ok kernel_areas vm (im_root_table im) (kernel_map im) \<and> kernel_pt vm = im_root_table im \<and> kheap vm = mem_init"
  using vm_init_kmap [OF assms(1), of "(fst (smp_init k))\<lparr>kvm := (kvm k)\<lparr>kheap := mem_init\<rparr>\<rparr>" 0] assms(2)
  by (auto simp: boot_memory_def reset_state_def smp_init_def vm_activate_def)

text \<open>Everything after \<^verbatim>\<open>vm_init\<close> up to the first start, as one state.\<close>

lemma boot_first_ok:
  assumes "image_ok im" "reset_state k"
  shows "\<exists>k1. boot_memory im (fst (smp_init k)) = Some k1 \<and> boot_inv 11 (boot_tables k1) \<and>
    (\<forall>j < 12. caps (agent_at (boot_tables k1) j) = 0) \<and> ramfs_inv (kfs (boot_tables k1)) \<and> fs_map (kfs (boot_tables k1)) = boot_files \<and>
    kquota (boot_tables k1) = quota_init \<and> policy_inv (kpol (boot_tables k1)) \<and> deny_tools (kpol (boot_tables k1)) = [] \<and>
    online_harts (boot_tables k1) = 1 \<and> \<not> remote_enabled (boot_tables k1)"
proof -
  obtain vm where vm: "boot_memory im (fst (smp_init k)) = Some (vm_activate ((fst (smp_init k))\<lparr>kvm := vm\<rparr>) 0 (im_root_table im))"
      "kmap_ok kernel_areas vm (im_root_table im) (kernel_map im)" "kernel_pt vm = im_root_table im" "kheap vm = mem_init"
    using boot_memory_ok [OF assms] by blast
  define k1 where "k1 = vm_activate ((fst (smp_init k))\<lparr>kvm := vm\<rparr>) 0 (im_root_table im)"
  have R: "agents k1 = replicate 12 (blank_agent\<lparr>running_cpu := 0\<rparr>)" "cpu_current k1 = replicate 4 None" "cpu_rq k1 = replicate 4 []"
      "length (cpu_satp k1) = 4" "kfs k1 = blank_fs" "kvm k1 = vm" "online_harts k1 = 1"
    using assms(2) by (simp_all add: k1_def vm_activate_def smp_init_def reset_state_def)
  obtain fs pol where t: "boot_tables k1 = agent_init (k1\<lparr>kquota := quota_init, kpol := pol, remote_enabled := False, kfs := fs\<rparr>) 0"
      "ramfs_inv fs" "fs_map fs = boot_files" "policy_inv pol" "deny_tools pol = []"
    using boot_tables_ok [OF R(5)] by blast
  define k2 where "k2 = k1\<lparr>kquota := quota_init, kpol := pol, remote_enabled := False, kfs := fs\<rparr>"
  have "im_root_table im \<noteq> 0" using image_okD(8) [OF assms(1)] by (auto simp: unat_eq_0)
  then have A: "boot_inv 11 (agent_init k2 0)" "\<And>j. j < 12 \<Longrightarrow> caps (agent_at (agent_init k2 0) j) = 0" "boot_same k2 (agent_init k2 0)"
    using agent_init_boot [of k2 "kernel_map im"] R vm(2-4) by (simp_all add: k2_def blank_agent_def)
  have k2: "kfs k2 = fs" "kquota k2 = quota_init" "kpol k2 = pol" "online_harts k2 = 1" "\<not> remote_enabled k2"
    using R(7) by (simp_all add: k2_def)
  show ?thesis
    using vm(1) A k2 t(2-5) unfolding k1_def [symmetric] by (intro exI [of _ k1]) (simp add: t(1) k2_def [symmetric] boot_same_def)
qed

lemma boot_same_trans: "boot_same k1 k2 \<Longrightarrow> boot_same k2 k3 \<Longrightarrow> boot_same k1 k3"
  by (simp add: boot_same_def)

lemma serves_kept: "serves k i entry c \<Longrightarrow> agent_at k' i = agent_at k i \<Longrightarrow> serves k' i entry c"
  by (simp add: serves_def)

lemma kmain_starts:
  assumes "image_ok im" "reset_state k"
  shows "\<exists>k'. kmain im pr ep k = Some (fst (scheduler_run_first k' 0 1), snd (smp_init k), snd (scheduler_run_first k' 0 1)) \<and>
    boot_inv 6 k' \<and> (\<forall>i < 12. caps (agent_at k' i) = boot_caps i) \<and> serves k' 1 (init_agent pr) (boot_caps 1) \<and>
    serves k' 6 (router_agent_main pr) (boot_caps 6) \<and> serves k' 8 (display_agent_main pr) (boot_caps 8) \<and>
    serves k' 9 (input_agent_main pr) (boot_caps 9) \<and> serves k' 10 (console_agent_main pr) (boot_caps 10) \<and>
    ramfs_inv (kfs k') \<and> fs_map (kfs k') = boot_files \<and> kquota k' = quota_init \<and> policy_inv (kpol k') \<and> deny_tools (kpol k') = [] \<and>
    online_harts k' = 1 \<and> \<not> remote_enabled k'"
proof -
  obtain k1 where k1: "boot_memory im (fst (smp_init k)) = Some k1" "boot_inv 11 (boot_tables k1)"
      "\<And>j. j < 12 \<Longrightarrow> caps (agent_at (boot_tables k1) j) = 0" "ramfs_inv (kfs (boot_tables k1))" "fs_map (kfs (boot_tables k1)) = boot_files"
      "kquota (boot_tables k1) = quota_init" "policy_inv (kpol (boot_tables k1))" "deny_tools (kpol (boot_tables k1)) = []"
      "online_harts (boot_tables k1) = 1" "\<not> remote_enabled (boot_tables k1)"
    using boot_first_ok [OF assms] by blast
  define c where "c = boot_caps"
  have cs: "CAP_LOG OR CAP_SVC_LLM OR CAP_LLM OR CAP_SEND OR CAP_RECV = c 6"
      "CAP_LOG OR CAP_SVC_DISPLAY OR CAP_DISPLAY OR CAP_SEND OR CAP_RECV = c 8"
      "CAP_LOG OR CAP_SVC_INPUT OR CAP_INPUT OR CAP_SEND OR CAP_RECV = c 9"
      "CAP_LOG OR CAP_SVC_CONSOLE OR CAP_SEND OR CAP_RECV = c 10"
      "CAP_LOG OR CAP_MATH OR CAP_SPAWN OR CAP_SEND OR CAP_RECV OR CAP_FS OR CAP_TIME OR CAP_GPIO = c 1"
    by (simp_all add: c_def boot_caps_def)
  obtain k2 where k2: "start_service (boot_tables k1) 6 (router_agent_main pr) ''model-router'' (c 6) = Some k2" "boot_inv 10 k2"
      "serves k2 6 (router_agent_main pr) (c 6)" "\<And>j. j \<noteq> 6 \<Longrightarrow> agent_at k2 j = agent_at (boot_tables k1) j" "boot_same (boot_tables k1) k2"
    using start_service_ok [of 10 "boot_tables k1" 6 "router_agent_main pr" "''model-router''" "c 6"] k1(2) by auto
  obtain k3 where k3: "start_service k2 8 (display_agent_main pr) ''display'' (c 8) = Some k3" "boot_inv 9 k3"
      "serves k3 8 (display_agent_main pr) (c 8)" "\<And>j. j \<noteq> 8 \<Longrightarrow> agent_at k3 j = agent_at k2 j" "boot_same k2 k3"
    using start_service_ok [of 9 k2 8 "display_agent_main pr" "''display''" "c 8"] k2(2) by auto
  obtain k4 where k4: "start_service k3 9 (input_agent_main pr) ''input'' (c 9) = Some k4" "boot_inv 8 k4"
      "serves k4 9 (input_agent_main pr) (c 9)" "\<And>j. j \<noteq> 9 \<Longrightarrow> agent_at k4 j = agent_at k3 j" "boot_same k3 k4"
    using start_service_ok [of 8 k3 9 "input_agent_main pr" "''input''" "c 9"] k3(2) by auto
  obtain k5 where k5: "start_service k4 10 (console_agent_main pr) ''console'' (c 10) = Some k5" "boot_inv 7 k5"
      "serves k5 10 (console_agent_main pr) (c 10)" "\<And>j. j \<noteq> 10 \<Longrightarrow> agent_at k5 j = agent_at k4 j" "boot_same k4 k5"
    using start_service_ok [of 7 k4 10 "console_agent_main pr" "''console''" "c 10"] k4(2) by auto
  obtain k6 where k6: "start_init ep k5 (init_agent pr) (c 1) = Some k6" "boot_inv 6 k6"
      "serves k6 1 (init_agent pr) (c 1)" "\<And>j. j \<noteq> 1 \<Longrightarrow> agent_at k6 j = agent_at k5 j" "boot_same k5 k6"
    using start_init_ok [of 6 k5 ep "init_agent pr" "c 1"] k5(2) by auto
  note same = boot_same_trans [OF k2(5) boot_same_trans [OF k3(5) boot_same_trans [OF k4(5) boot_same_trans [OF k5(5) k6(5)]]]]
  note at = k6(4) k5(4) k4(4) k3(4) k2(4)
  have s: "serves k6 6 (router_agent_main pr) (c 6)" "serves k6 8 (display_agent_main pr) (c 8)" "serves k6 9 (input_agent_main pr) (c 9)"
      "serves k6 10 (console_agent_main pr) (c 10)"
    by (rule serves_kept [OF k2(3)], simp add: at) (rule serves_kept [OF k3(3)], simp add: at, rule serves_kept [OF k4(3)], simp add: at,
        rule serves_kept [OF k5(3)], simp add: at)
  have caps: "caps (agent_at k6 i) = c i" if "i < 12" for i
  proof (cases "i \<in> {1, 6, 8, 9, 10}")
    case True
    with s k6(3) show ?thesis by (auto simp: serves_def)
  next
    case False
    with k1(3) [OF that] at show ?thesis by (simp add: c_def boot_caps_def)
  qed
  have "kmain im pr ep k = Some (fst (scheduler_run_first k6 0 1), snd (smp_init k), snd (scheduler_run_first k6 0 1))"
    unfolding kmain_def cs case_prod_beta k1(1) Option.bind.bind_lunit k2(1) k3(1) k4(1) k5(1) k6(1) by simp
  with k6(2,3) s caps same k1(4-) show ?thesis unfolding boot_same_def c_def by (intro exI [of _ k6]) simp
qed

text \<open>Handing the first hart to the first agent.\<close>

lemma run_first_ok:
  assumes "boot_inv n k" "serves k 1 entry c" "k' = fst (scheduler_run_first k 0 1)"
  shows "snd (scheduler_run_first k 0 1) = Turn_run 1" "boot_inv n k'" "cur_idx k' 0 = Some 1"
    "cpu_satp k' ! 0 = satp_for (pagetable (agent_at k' 1))" "\<And>i. i < 12 \<Longrightarrow> caps (agent_at k' i) = caps (agent_at k i)"
    "\<And>i. i < 12 \<Longrightarrow> pagetable (agent_at k' i) = pagetable (agent_at k i)"
    "kfs k' = kfs k" "kquota k' = kquota k" "kpol k' = kpol k"
    "\<exists>r. loop_mode k' (Turn_run 1) = Running r \<and> tf_sepc r = entry \<and> tf_sstatus r AND SSTATUS_SPP = 0"
proof -
  have wf: "kernel_wf k" using assms(1) by (simp add: boot_inv_def)
  have len: "length (agents k) = 12" "length (cpu_current k) = 4" "length (cpu_satp k) = 4" using kernel_wfD(1,2,4) [OF wf] .
  obtain tf where tf: "atf (agent_at k 1) = Some tf" "tf_sepc tf = entry" and pt: "pagetable (agent_at k 1) \<noteq> 0"
    using assms(2) by (auto simp: serves_def)
  define g where "g a = (if smp_online_count k > 1 then a\<lparr>home_cpu := 0, running_cpu := 0, astate := AGENT_RUNNING\<rparr>
    else a\<lparr>astate := AGENT_RUNNING, running_cpu := 0\<rparr>)" for a :: agent
  have e: "agents k' = (agents k)[1 := g (agents k ! 1)]" "kvm k' = kvm k" "cpu_current k' = (cpu_current k)[0 := Some 1]"
      "cpu_satp k' = (cpu_satp k)[0 := satp_for (pagetable (agent_at k 1))]" "cpu_rq k' = cpu_rq k" "kfs k' = kfs k" "kquota k' = kquota k"
      "kpol k' = kpol k" and t: "snd (scheduler_run_first k 0 1) = Turn_run 1"
    using tf pt len assms(3)
    by (auto simp: scheduler_run_first_def sched_start_def Let_def vm_activate_def agent_set_current_def upd_agent_def agent_at_def g_def
        split: if_splits)
  show "snd (scheduler_run_first k 0 1) = Turn_run 1" by (rule t)
  have at: "agent_at k' i = (if i = 1 then g (agent_at k 1) else agent_at k i)" for i using len by (auto simp: agent_at_def e(1))
  have "kernel_wf k'"
  proof -
    have "aid (agents k' ! i) = int i" if "i < 12" for i
      using at [of i] kernel_wfD(6) [OF wf that] by (auto simp: agent_at_def g_def)
    moreover have "\<forall>h < 4. \<forall>i. cpu_current k' ! h = Some i \<longrightarrow> i < 12"
      using kernel_wfD(5) [OF wf] len unfolding e(3) by (auto simp: nth_list_update)
    ultimately show ?thesis using kernel_wfD(3) [OF wf] len by (simp add: kernel_wf_def e(1,3-5))
  qed
  moreover have p: "pagetable (agent_at k' i) = pagetable (agent_at k i)" for i by (simp add: at g_def)
  ultimately show "boot_inv n k'" using boot_inv_agents [OF assms(1)] e(2) by simp
  show "cur_idx k' 0 = Some 1" "cpu_satp k' ! 0 = satp_for (pagetable (agent_at k' 1))" using len by (simp_all add: cur_idx_def e(3,4) p)
  show "caps (agent_at k' i) = caps (agent_at k i)" "pagetable (agent_at k' i) = pagetable (agent_at k i)" for i by (simp_all add: at g_def)
  show "kfs k' = kfs k" "kquota k' = kquota k" "kpol k' = kpol k" by (simp_all add: e)
  have "atf (agent_at k' 1) = Some tf" using tf by (simp add: at g_def)
  then have "loop_mode k' (Turn_run 1) = Running (switch_to_agent tf)" by simp
  moreover from loop_mode_user [OF this] have "tf_sstatus (switch_to_agent tf) AND SSTATUS_SPP = 0" .
  ultimately show "\<exists>r. loop_mode k' (Turn_run 1) = Running r \<and> tf_sepc r = entry \<and> tf_sstatus r AND SSTATUS_SPP = 0"
    using tf(2) by (auto simp: switch_to_agent_def Let_def)
qed


text \<open>From the boot on.  Whatever the programs do after the boot, in any interleaving of their traps with the scheduler, as long as they do not
  break the machine, user code never runs in supervisor mode, and every agent in whose slot no new agent has been created holds exactly the
  capabilities \<open>kmain\<close> gave it and keeps the root of its page table; slots that were never used hold none.\<close>

theorem booted_system_confined:
  assumes "image_ok im" "reset_state k" "kmain im pr ep k = Some (k', sm, t)" "mrun trap_stacks (boot_machine k' t {}) S N m'" "\<not> broken m'"
  shows "kernel_wf (mkernel m') \<and> (\<forall>h r. modes m' h = Running r \<longrightarrow> tf_sstatus r AND SSTATUS_SPP = 0) \<and>
    (\<forall>i < MAX_AGENTS. i \<notin> N \<longrightarrow> caps (agent_at (mkernel m') i) = boot_caps i \<and>
       pagetable (agent_at (mkernel m') i) = pagetable (agent_at k' i))"
proof -
  obtain k6 where k6: "kmain im pr ep k = Some (fst (scheduler_run_first k6 0 1), snd (smp_init k), snd (scheduler_run_first k6 0 1))"
      "boot_inv 6 k6" "\<And>i. i < 12 \<Longrightarrow> caps (agent_at k6 i) = boot_caps i" "serves k6 1 (init_agent pr) (boot_caps 1)"
    using kmain_starts [OF assms(1,2), of pr ep] by blast
  with assms(3) have k': "k' = fst (scheduler_run_first k6 0 1)" by simp
  note F = run_first_ok [OF k6(2,4) k']
  have inv: "machine_inv (boot_machine k' t {})" using F(2) by (intro boot_machine_inv) (simp add: boot_inv_def)
  have "isolated S N k' (mkernel m')" using run_isolated [OF assms(4) inv assms(5)] by (simp add: boot_machine_def)
  moreover have "machine_inv m'" using run_inv [OF assms(4) inv assms(5)] .
  ultimately show ?thesis using F(5) k6(3) by (auto simp: isolated_def machine_inv_def)
qed

section \<open>A second hart\<close>

lemma harts_arrive_ok:
  assumes "bsp_ready sm" "length (hart_ready sm) = 4" "harts_arrive k sm hs = (k', sm')"
  shows "(\<exists>ticks. k' = k\<lparr>online_harts := online_harts k + int (length (filter (\<lambda>h. h < 4) hs)), hart_ticks := ticks\<rparr>) \<and>
    length (hart_ready sm') = 4 \<and> (\<forall>h < 4. hart_ready sm' ! h \<longleftrightarrow> hart_ready sm ! h \<or> h \<in> set hs)"
  using assms
proof (induction hs arbitrary: k sm)
  case Nil
  then show ?case by (auto intro!: exI [of _ "hart_ticks k"])
next
  case (Cons h hs)
  show ?case
  proof (cases "h < 4")
    case False
    with Cons.prems have "harts_arrive k sm hs = (k', sm')" by (simp add: smp_secondary_entry_def)
    from Cons.IH [OF Cons.prems(1,2) this] False show ?thesis by auto
  next
    case True
    let ?k = "k\<lparr>online_harts := online_harts k + 1, hart_ticks := (hart_ticks k)[h := 1]\<rparr>"
      and ?sm = "sm\<lparr>hart_ready := (hart_ready sm)[h := True]\<rparr>"
    have e: "harts_arrive ?k ?sm hs = (k', sm')" using Cons.prems True by (simp add: smp_secondary_entry_def)
    have IH: "(\<exists>ticks. k' = ?k\<lparr>online_harts := online_harts ?k + int (length (filter (\<lambda>h. h < 4) hs)), hart_ticks := ticks\<rparr>) \<and>
        length (hart_ready sm') = 4 \<and> (\<forall>j < 4. hart_ready sm' ! j \<longleftrightarrow> hart_ready ?sm ! j \<or> j \<in> set hs)"
      by (rule Cons.IH [OF _ _ e]) (use Cons.prems in simp_all)
    moreover have "hart_ready ?sm ! j \<longleftrightarrow> hart_ready sm ! j \<or> j = h" if "j < 4" for j
      using that True Cons.prems(2) by (cases "j = h") simp_all
    ultimately have r: "length (hart_ready sm') = 4" "\<forall>j < 4. hart_ready sm' ! j \<longleftrightarrow> hart_ready sm ! j \<or> j \<in> set (h # hs)" by auto
    have "online_harts ?k + int (length (filter (\<lambda>h. h < 4) hs)) = online_harts k + int (length (filter (\<lambda>h. h < 4) (h # hs)))"
      using True by simp
    moreover obtain ticks where "k' = ?k\<lparr>online_harts := online_harts ?k + int (length (filter (\<lambda>h. h < 4) hs)), hart_ticks := ticks\<rparr>"
      using IH by blast
    ultimately have "k' = k\<lparr>online_harts := online_harts k + int (length (filter (\<lambda>h. h < 4) (h # hs))), hart_ticks := ticks\<rparr>" by simp
    with r show ?thesis by blast
  qed
qed

lemma kmain_smp_arrivals:
  assumes "image_ok im" "reset_state k"
  shows "\<exists>k3 sm3. boot_inv 11 k3 \<and> (\<forall>h < 4. hart_ready sm3 ! h \<longleftrightarrow> h = 0 \<or> h \<in> set arrivals) \<and>
    kmain_smp im pr ep arrivals k = (if \<not> (\<exists>h \<in> set arrivals. h < 4) then Some (k3\<lparr>halted := True\<rparr>, sm3, Turn_halt)
      else Option.bind (start_init ep k3 (init_agent pr) (CAP_LOG OR CAP_MATH OR CAP_SPAWN OR CAP_SEND OR CAP_RECV)) (\<lambda>k4.
        case scheduler_run_first k4 0 1 of (k5, t) \<Rightarrow> Some (k5, sm3, t)))"
proof -
  obtain vm where vm: "boot_memory im (fst (smp_init k)) = Some (vm_activate ((fst (smp_init k))\<lparr>kvm := vm\<rparr>) 0 (im_root_table im))"
      "kmap_ok kernel_areas vm (im_root_table im) (kernel_map im)" "kernel_pt vm = im_root_table im" "kheap vm = mem_init"
    using boot_memory_ok [OF assms(1,2)] by blast
  define k1 where "k1 = vm_activate ((fst (smp_init k))\<lparr>kvm := vm\<rparr>) 0 (im_root_table im)"
  define k2 where "k2 = k1\<lparr>kfs := ramfs_init (kfs k1)\<rparr>"
  have R: "agents k2 = replicate 12 (blank_agent\<lparr>running_cpu := 0\<rparr>)" "cpu_current k2 = replicate 4 None" "cpu_rq k2 = replicate 4 []"
      "length (cpu_satp k2) = 4" "kvm k2 = vm" "online_harts k2 = 1"
    using assms(2) by (simp_all add: k2_def k1_def vm_activate_def smp_init_def reset_state_def)
  have "im_root_table im \<noteq> 0" using image_okD(8) [OF assms(1)] by (auto simp: unat_eq_0)
  then have A: "boot_inv 11 (agent_init k2 0)" "online_harts (agent_init k2 0) = 1"
    using agent_init_boot [of k2 "kernel_map im"] R vm(2-4) by (simp_all add: boot_same_def)
  define sm where "sm = smp_bsp_release (snd (smp_init k))"
  have sm: "bsp_ready sm" "length (hart_ready sm) = 4" "\<And>h. h < 4 \<Longrightarrow> hart_ready sm ! h \<longleftrightarrow> h = 0"
    by (auto simp: sm_def smp_bsp_release_def smp_init_def nth_list_update)
  obtain k3 sm3 where h: "harts_arrive (agent_init k2 0) sm arrivals = (k3, sm3)" by (cases "harts_arrive (agent_init k2 0) sm arrivals")
  obtain ticks where k3: "k3 = (agent_init k2 0)\<lparr>online_harts := 1 + int (length (filter (\<lambda>h. h < 4) arrivals)), hart_ticks := ticks\<rparr>"
      and rd: "\<And>h. h < 4 \<Longrightarrow> hart_ready sm3 ! h \<longleftrightarrow> h = 0 \<or> h \<in> set arrivals"
    using harts_arrive_ok [OF sm(1,2) h] sm(3) A(2) by auto
  have b3: "boot_inv 11 k3" using boot_inv_agents [OF A(1), of k3] A(1) by (simp add: k3 boot_inv_def kernel_wf_def agent_at_def)
  have on: "smp_online_count k3 < 2 \<longleftrightarrow> \<not> (\<exists>h \<in> set arrivals. h < 4)"
    by (auto simp: smp_online_count_def k3 filter_empty_conv not_less)
  have m: "kmain_smp im pr ep arrivals k = (if smp_online_count k3 < 2 then Some (k3\<lparr>halted := True\<rparr>, sm3, Turn_halt)
      else Option.bind (start_init ep k3 (init_agent pr) (CAP_LOG OR CAP_MATH OR CAP_SPAWN OR CAP_SEND OR CAP_RECV)) (\<lambda>k4.
        case scheduler_run_first k4 0 1 of (k5, t) \<Rightarrow> Some (k5, sm3, t)))"
    unfolding kmain_smp_def case_prod_beta vm(1) Option.bind.bind_lunit Let_def k1_def [symmetric] k2_def [symmetric] sm_def [symmetric] h by simp
  from m b3 rd show ?thesis unfolding on by blast
qed


section \<open>A concrete boot\<close>

definition demo_programs :: programs where
  "demo_programs = \<lparr>router_agent_main = 0x80401000, display_agent_main = 0x80402000, input_agent_main = 0x80403000,
     console_agent_main = 0x80404000, init_agent = 0x80400010\<rparr>"

definition reset_kernel :: kernel where
  "reset_kernel = pair_kernel\<lparr>agents := replicate 12 (blank_agent\<lparr>running_cpu := 0\<rparr>), cpu_current := replicate 4 None,
     cpu_rq := replicate 4 [], kfs := blank_fs, kvm := boot_vm\<lparr>pt_base := PTPOOL_START\<rparr>\<rparr>"

lemma reset_kernel_ok: "reset_state reset_kernel"
  by (simp add: reset_state_def reset_kernel_def pair_kernel_def)


theorem booted_system_confined_witness:
  "\<exists>k' sm t m'. kmain demo_image demo_programs False reset_kernel = Some (k', sm, t) \<and> mrun 0x80300000 (boot_machine k' t {}) {} {} m' \<and>
     uart_in (mkernel m') = uart_in k' @ ''x'' \<and> caps (agent_at (mkernel m') 9) = 0x14019"
proof -
  obtain k' sm t where k: "kmain demo_image demo_programs False reset_kernel = Some (k', sm, t)"
    using kmain_starts [OF demo_image_ok reset_kernel_ok, of demo_programs False] by blast
  let ?m = "boot_machine k' t {}"
  have r: "mrun 0x80300000 ?m {} {} (?m\<lparr>mkernel := (mkernel ?m)\<lparr>uart_in := uart_in (mkernel ?m) @ ''x''\<rparr>\<rparr>)"
    using mrun.step [OF mrun.start mstep.console] by simp
  have "caps (agent_at (mkernel (?m\<lparr>mkernel := (mkernel ?m)\<lparr>uart_in := uart_in (mkernel ?m) @ ''x''\<rparr>\<rparr>)) 9) = boot_caps 9"
    using booted_system_confined [OF demo_image_ok reset_kernel_ok k r] by (simp add: boot_machine_def)
  with k r show ?thesis by (intro exI conjI) (assumption | simp add: boot_machine_def boot_caps_def)+
qed


end
