(* ===== verification/Spec2Isabelle.thy ===== *)
theory Spec2Isabelle
  imports Agent_Msg Boot
begin

text \<open>
  A verification library for the OpenAgentOS kernel, the C code under \<open>src/kernel\<close>.

  \<^bold>\<open>The program.\<close> OpenAgentOS runs up to twelve \<^emph>\<open>agents\<close>, user programs with a page table, a heap, a mailbox and a set of
  capabilities each.  Traps enter the kernel, which serves system calls (messages, heap, tools), keeps
  the files of the agents in memory, saves them on a block device, and schedules the agents on up
  to four harts.  The \<^emph>\<open>tools\<close> are the kernel's services behind one gateway: files, session logs, audit logs, HTTP, update
  packages, a package catalog, telemetry.  Quotas, a policy and path rules restrict what an agent may do with them.

  \<^bold>\<open>Conventions.\<close>
  \<^item> The globals of the kernel are one record, \<open>kernel\<close> (theory \<open>Kernel\<close>); the state of a component is a record of
    its own and a field of it.  An operation takes the state and returns it with the return code; the codes are
    the numbers of \<open>include/agentos.h\<close>.
  \<^item> A system call, an interrupt and a scheduler turn are atomic steps, as the locks of the kernel are dropped.
    Console output for the developer (\<open>kprintf\<close>) is dropped.
  \<^item> C integers are HOL integers, with \<open>wrap32\<close> where the source can leave 32 bits; addresses, page-table
    entries and sizes that the source computes in 64 or 32 bits are \<open>u64\<close> and \<open>u32\<close>, where \<open>+\<close> wraps.
  \<^item> An access outside a buffer of the kernel, or a store through an agent's pointer into the kernel's own memory, sets a
    flag (\<open>oob\<close>, \<open>io_oob\<close>, \<open>kbuf_oob\<close>) or yields \<open>None\<close>.  The properties of single operations describe the
    fields they name; what such a store does to other data of the kernel is not computed.  The properties of runs (\<open>Machine\<close>, \<open>Boot\<close>) hold
    as long as no flag is set.
    Uninitialised and stale bytes of the kernel stack are the arbitrary strings \<open>junk_run\<close> and \<open>junk_check\<close>.
  \<^item> The block device, the network, the displays and the hash function of mbedtls are not code of the
    repository.  Their answers are fields of \<open>blk\<close> and \<open>world\<close>, functions that the theorems
    quantify over; \<open>offline\<close> and \<open>demo_persist\<close> are instances used by the witnesses.

  \<^bold>\<open>Theories\<close>, in the order of their imports.
  \<^item> \<open>Prelude\<close>: C integers and strings, decimal numbers.  \<open>Agentos\<close>, \<open>Agent_Types\<close>: constants and the agent control block.
  \<^item> \<open>Ipc\<close> (\<open>ipc.c\<close>): the two rings of a mailbox.  The locale \<open>ring\<close> is interpreted for both, the locale of the
    mailbox for the pair.  A push appends or reports a full ring; steer messages come out first, each class in
    order; compaction keeps the newest messages behind a summary.
  \<^item> \<open>Ramfs\<close> (\<open>ramfs.c\<close>): the table of 64 files.  \<open>fs_map\<close> abstracts it to a map from paths to contents; the locale
    \<open>file_store\<close> states what clients rely on and is interpreted for it.  All clients below use only its laws.
  \<^item> \<open>Mem\<close> (\<open>mem.c\<close>): the heap is a bump allocator whose blocks never overlap.
  \<^item> \<open>Vm\<close> (\<open>vm.c\<close>): Sv39 page tables in a pool of 64.  Mapping adds one translation; the tables of two agents share no user slot;
    the range check is exact; copy-on-write and demand paging give an agent a page of its own.
  \<^item> \<open>Uaccess\<close> (\<open>uaccess.c\<close>): copies to and from user memory stay in pages the agent may access.
  \<^item> \<open>Quota\<close>, \<open>Policy\<close>, \<open>Tenant\<close>, \<open>Session\<close>, \<open>Namespace\<close>, \<open>Audit_Log\<close>: the C files of the same names.
    Counters stay in their limits, policies stay well formed, the logs are append-only or cut as specified, and an agent's home is its own.
  \<^item> \<open>Blk\<close>, \<open>Persist\<close> (\<open>virtio_blk.c\<close>, \<open>persist.c\<close>): what is saved is restored, except that an empty file
    makes the image unreadable.
  \<^item> \<open>World\<close>, \<open>Kernel\<close>: devices and the state of the kernel.
  \<^item> \<open>Sched\<close> (\<open>sched.c\<close>): an invariant ties agents, run queues and harts together; every turn that switches resumes a
    runnable agent on its hart, with its own frame and page table; a wake-up is not lost; without unread mail round robin reaches every queued
    agent, and unread mail starves the queue.
  \<^item> \<open>Agent\<close>, \<open>Agent_Msg\<close> (\<open>agent.c\<close>): the agent operations.  A send delivers the whole message and charges the sender, or changes
    nothing; a receive hands over the first waiting message.
  \<^item> \<open>Http\<close>, \<open>Fleet\<close> (\<open>http.c\<close>; \<open>fleet.c\<close>, \<open>remote.c\<close>, \<open>mesh.c\<close>): requests, URLs and telemetry.
  \<^item> \<open>Kaccess\<close>, \<open>Ota\<close>, \<open>Catalog\<close> (\<open>ota.c\<close>, \<open>catalog.c\<close>, \<open>scripts/mk-agentpkg.py\<close>, \<open>tools/ota-sign.py\<close>): update packages.  Only bytes
    that an accepted manifest names are installed, and only a manifest whose range wraps at 32 bits makes the kernel read outside a package; a rollback undoes an
    installation.
  \<^item> \<open>Uart\<close>, \<open>Llm\<close> (\<open>uart.c\<close>, \<open>llm.c\<close>): the console line and model queries.  Reading a line returns once its end has arrived.
  \<^item> \<open>Tool\<close>, \<open>Kframe\<close>, \<open>Gateway\<close> (\<open>tool.c\<close>): the table of tools and the dispatcher.  \<open>Kframe\<close> shows for each tool what it leaves alone.  A
    refused call only adds a line to the audit log, calls beyond the quota are refused, and a file write stays in the files of the caller.
  \<^item> \<open>Elfload\<close> (\<open>elfload.c\<close>): the program loader.  A loaded segment shows the bytes of the file and zeros, in fresh pages.
  \<^item> \<open>Trap\<close> (\<open>trap.S\<close>, \<open>arch/riscv/trap_handler.c\<close>, \<open>sched_syscall.c\<close>): traps and system calls, and the states in which a service faults on
    an unchecked pointer.  A trap keeps the tables well formed and changes no capabilities, page-table root or saved registers in the slot of another agent; all
    but four registers survive a preemption.
  \<^item> \<open>Machine\<close>: runs of all harts, interleaving user code, traps from user mode, page faults of the kernel and scheduler turns.  A store of the kernel to a wrong
    place, a replaced mapping of the kernel and a call without a result break the machine, which can then do anything.  In runs that do not break it,
    user code never runs in supervisor mode, the capabilities and the page-table root of an agent stay what they are, and a preempted agent continues where it was.
  \<^item> \<open>Kmap\<close> (\<open>vm.c\<close>, \<open>linker.ld\<close>): the kernel's address space.  \<open>vm_init\<close> succeeds, the kernel table translates exactly its
    regions, and no page is both writable and executable.
  \<^item> \<open>Boot\<close> (\<open>smp.c\<close>, \<open>kernel_v100_riscv.c\<close>, \<open>kernel_smp.c\<close>): the harts and two kernels' entry points.  The boot returns in a state from
    which the runs of \<open>Machine\<close> start.

  \<^bold>\<open>Loops.\<close> Loops over bounded data are recursive functions with termination proofs.  The range check of user
  memory and the mapping of a region wrap around the address space; they are \<open>partial_function (option)\<close>,
  and \<open>user_check_loop_returns\<close> shows that the check returns when page 0 is not mapped.  No definition uses fuel except where the
  source has a counter.

  \<^bold>\<open>Not modelled.\<close> The boot code in assembly, the drivers of the network, display and input
  devices, the TCP stack and the TLS client (their answers are parameters), the x86 port, the other boot variants, and the user programs.  The locks and the
  interleaving of instructions of two harts inside the kernel are outside the model.
\<close>

end
